(* ===== verification/Sv2_Prelude.thy ===== *)
theory Sv2_Prelude
  imports Main "HOL-Library.Word"
begin

text \<open>
  Shared vocabulary of the development: machine integers and byte strings, the result type of
  code that can throw or abort, the little and big endian conversions of
  \<^verbatim>\<open>src/src/crypto/common.h\<close>, and the facts on lists and words the component theories share.

  Four collections carry the component proofs: \<^verbatim>\<open>byte_simps\<close> (lengths and inverses of the
  conversions), \<^verbatim>\<open>res_simps\<close> (evaluation of results), \<^verbatim>\<open>ensures_intro\<close> (rules for what holds when
  a call returns) and \<^verbatim>\<open>list_split\<close> (splitting of byte strings at a position).
\<close>

unbundle bit_operations_syntax

named_theorems byte_simps
named_theorems res_simps
named_theorems list_split
named_theorems ensures_intro

section \<open>Types\<close>

type_synonym u8 = "8 word"
type_synonym u16 = "16 word"
type_synonym u32 = "32 word"
type_synonym u64 = "64 word"
type_synonym bytes = "u8 list"

abbreviation zeros :: "nat \<Rightarrow> bytes" where
  "zeros n \<equiv> replicate n 0"

text \<open>Exceptions the modelled code throws, by the C++ class, with the text it throws.\<close>

datatype exn =
    ios_failure string
  | out_of_range string
  | runtime_error string

text \<open>
  The outcome of a call: it returns, it throws, or the process aborts. A failed \<^verbatim>\<open>assert\<close>
  aborts; a failed \<^verbatim>\<open>Assume\<close> (\<^verbatim>\<open>src/src/util/check.h\<close>) aborts in builds that define
  \<^verbatim>\<open>ABORT_ON_FAILED_ASSUME\<close> and is ignored in the others. The model takes the first reading, so
  a proof that no call aborts shows that both builds compute the same.
\<close>

datatype 'a res = Ret 'a | Throw exn | Abort string

primrec res_bind :: "'a res \<Rightarrow> ('a \<Rightarrow> 'b res) \<Rightarrow> 'b res" where
  "res_bind (Ret x) f = f x"
| "res_bind (Throw e) f = Throw e"
| "res_bind (Abort m) f = Abort m"

primrec res_ok :: "'a res \<Rightarrow> bool" where
  "res_ok (Ret x) = True"
| "res_ok (Throw e) = False"
| "res_ok (Abort m) = False"

primrec no_abort :: "'a res \<Rightarrow> bool" where
  "no_abort (Ret x) = True"
| "no_abort (Throw e) = True"
| "no_abort (Abort m) = False"

definition Assume :: "bool \<Rightarrow> string \<Rightarrow> unit res" where
  "Assume b m = (if b then Ret () else Abort m)"

text \<open>\<^verbatim>\<open>noexcept\<close>: an exception that leaves the function terminates the process.\<close>

primrec noexcept :: "'a res \<Rightarrow> 'a res" where
  "noexcept (Ret x) = Ret x"
| "noexcept (Throw e) = Abort ''std::terminate''"
| "noexcept (Abort m) = Abort m"

section \<open>Endian conversions\<close>

text \<open>
  \<^verbatim>\<open>le_bytes n x\<close> is the \<^verbatim>\<open>n\<close>-byte little endian image of \<^verbatim>\<open>x\<close>, least significant byte
  first; \<^verbatim>\<open>le_word\<close> reads one back.
\<close>

definition le_bytes :: "nat \<Rightarrow> 'a::len word \<Rightarrow> bytes" where
  "le_bytes n x = map (\<lambda>i. ucast (drop_bit (8 * i) x)) [0..<n]"

primrec le_word :: "bytes \<Rightarrow> 'a::len word" where
  "le_word [] = 0"
| "le_word (b # bs) = ucast b OR push_bit 8 (le_word bs)"

definition WriteLE16 :: "u16 \<Rightarrow> bytes" where "WriteLE16 x = le_bytes 2 x"
definition WriteLE32 :: "u32 \<Rightarrow> bytes" where "WriteLE32 x = le_bytes 4 x"
definition WriteLE64 :: "u64 \<Rightarrow> bytes" where "WriteLE64 x = le_bytes 8 x"
definition WriteBE32 :: "u32 \<Rightarrow> bytes" where "WriteBE32 x = rev (le_bytes 4 x)"
definition WriteBE64 :: "u64 \<Rightarrow> bytes" where "WriteBE64 x = rev (le_bytes 8 x)"

definition ReadLE16 :: "bytes \<Rightarrow> u16" where "ReadLE16 p = le_word (take 2 p)"
definition ReadLE32 :: "bytes \<Rightarrow> u32" where "ReadLE32 p = le_word (take 4 p)"
definition ReadLE64 :: "bytes \<Rightarrow> u64" where "ReadLE64 p = le_word (take 8 p)"
definition ReadBE32 :: "bytes \<Rightarrow> u32" where "ReadBE32 p = le_word (rev (take 4 p))"

section \<open>Facts on results\<close>

lemma res_bind_eq_Ret [res_simps]:
  "res_bind m f = Ret y \<longleftrightarrow> (\<exists>x. m = Ret x \<and> f x = Ret y)"
  by (cases m) auto

lemma res_bind_assoc [res_simps]:
  "res_bind (res_bind m f) g = res_bind m (\<lambda>x. res_bind (f x) g)"
  by (cases m) auto

lemma Assume_True [simp]: "Assume True m = Ret ()"
  by (simp add: Assume_def)

lemma Assume_eq_Ret [res_simps]: "Assume b m = Ret u \<longleftrightarrow> b"
  by (simp add: Assume_def)

lemma noexcept_eq_Ret [res_simps]: "noexcept m = Ret x \<longleftrightarrow> m = Ret x"
  by (cases m) auto

text \<open>
  \<^verbatim>\<open>ensures Q m\<close>: if \<^verbatim>\<open>m\<close> returns, its result satisfies \<^verbatim>\<open>Q\<close>. The rules \<^verbatim>\<open>ensures_intro\<close> take a
  function apart along its control flow.
\<close>

definition ensures :: "('a \<Rightarrow> bool) \<Rightarrow> 'a res \<Rightarrow> bool" where
  "ensures Q m \<longleftrightarrow> (\<forall>x. m = Ret x \<longrightarrow> Q x)"

lemma ensuresD: "ensures Q m \<Longrightarrow> m = Ret x \<Longrightarrow> Q x"
  by (simp add: ensures_def)

lemma ensures_mono: "ensures Q m \<Longrightarrow> (\<And>x. Q x \<Longrightarrow> R x) \<Longrightarrow> ensures R m"
  by (simp add: ensures_def)

lemma ensures_Ret [ensures_intro]: "Q x \<Longrightarrow> ensures Q (Ret x)"
  by (simp add: ensures_def)

lemma ensures_Throw [ensures_intro]: "ensures Q (Throw e)"
  by (simp add: ensures_def)

lemma ensures_Abort [ensures_intro]: "ensures Q (Abort m)"
  by (simp add: ensures_def)

lemma ensures_bind [ensures_intro]: "(\<And>x. m = Ret x \<Longrightarrow> ensures Q (f x)) \<Longrightarrow> ensures Q (res_bind m f)"
  by (cases m) (simp_all add: ensures_def)

lemma ensures_noexcept [ensures_intro]: "ensures Q m \<Longrightarrow> ensures Q (noexcept m)"
  by (cases m) (simp_all add: ensures_def)

lemma ensures_if [ensures_intro]:
  "(c \<Longrightarrow> ensures Q a) \<Longrightarrow> (\<not> c \<Longrightarrow> ensures Q b) \<Longrightarrow> ensures Q (if c then a else b)"
  by simp

lemma ensures_prod [ensures_intro]: "(\<And>a b. p = (a, b) \<Longrightarrow> ensures Q (f a b)) \<Longrightarrow> ensures Q (case p of (a, b) \<Rightarrow> f a b)"
  by (cases p) simp

lemma ensures_res [ensures_intro]:
  "(\<And>x. m = Ret x \<Longrightarrow> ensures Q (f x)) \<Longrightarrow> (\<And>e. m = Throw e \<Longrightarrow> ensures Q (g e)) \<Longrightarrow> (\<And>a. m = Abort a \<Longrightarrow> ensures Q (h a)) \<Longrightarrow>
   ensures Q (case m of Ret x \<Rightarrow> f x | Throw e \<Rightarrow> g e | Abort a \<Rightarrow> h a)"
  by (cases m) simp_all

lemma ensures_option [ensures_intro]:
  "(m = None \<Longrightarrow> ensures Q a) \<Longrightarrow> (\<And>x. m = Some x \<Longrightarrow> ensures Q (f x)) \<Longrightarrow>
   ensures Q (case m of None \<Rightarrow> a | Some x \<Rightarrow> f x)"
  by (cases m) simp_all

section \<open>Facts on words\<close>

lemma unat_ucast_mod:
  "unat (ucast (x :: 'a::len word) :: 'b::len word) = unat x mod 2 ^ LENGTH('b)"
  by (simp add: unsigned_ucast_eq take_bit_eq_mod)

lemma ucast_ucast_small:
  "unat x < 2 ^ LENGTH('b) \<Longrightarrow> (ucast (ucast (x :: 'a::len word) :: 'b::len word) :: 'a word) = x"
  by (simp add: word_unat_eq_iff unat_ucast_mod)

lemma unat_lt2p: "unat (x :: 'a::len word) < 2 ^ LENGTH('a)"
  by (rule unsigned_less)

lemma unat_of_nat_eq: "n < 2 ^ LENGTH('a) \<Longrightarrow> unat (of_nat n :: 'a::len word) = n"
  by (simp add: unsigned_of_nat take_bit_nat_eq_self)

lemma u64_digits: "unat (ucast n :: u32) = unat n mod 2 ^ 32" "unat (drop_bit 32 n) = unat n div 2 ^ 32" for n :: u64
proof -
  show "unat (ucast n :: u32) = unat n mod 2 ^ 32" by (simp add: unat_ucast_mod)
  have "unat (drop_bit 32 n) = drop_bit 32 (unat n)"
    using unat_lt2p [of n] by (simp add: unsigned_drop_bit_eq take_bit_nat_eq_self)
  then show "unat (drop_bit 32 n) = unat n div 2 ^ 32" by (simp add: drop_bit_eq_div)
qed

lemma unat_u64_plus: "unat a + unat b < 2 ^ 64 \<Longrightarrow> unat (a + b) = unat a + unat b" for a b :: u64
  by (simp add: unat_word_ariths)

lemma unat_u64_mult: "unat a * unat b < 2 ^ 64 \<Longrightarrow> unat (a * b) = unat a * unat b" for a b :: u64
  by (simp add: unat_word_ariths)

lemma unat_u32_ucast [simp]: "unat (ucast (x :: u32) :: u64) = unat x"
  using unat_lt2p [of x] by (simp add: unat_ucast_mod)

lemma unat_drop_bit: "unat (drop_bit k w) = unat w div 2 ^ k" for w :: "'a::len word"
proof -
  have "unat (drop_bit k w) = drop_bit k (unat w)"
    using unat_lt2p [of w] by (simp add: unsigned_drop_bit_eq take_bit_nat_eq_self)
  then show ?thesis by (simp add: drop_bit_eq_div)
qed

lemma horner_mod:
  fixes B M :: nat
  assumes "r < B" shows "r + B * (q mod M) = (r + B * q) mod (B * M)"
  using assms by (simp add: mod_mult2_eq)

section \<open>Facts on byte strings\<close>

lemma length_le_bytes [simp, byte_simps]: "length (le_bytes n x) = n"
  by (simp add: le_bytes_def)

lemma bit_le_word:
  "bit (le_word bs :: 'a::len word) k \<longleftrightarrow>
     k < LENGTH('a) \<and> k div 8 < length bs \<and> bit (bs ! (k div 8)) (k mod 8)"
proof (induction bs arbitrary: k)
  case Nil
  then show ?case by simp
next
  case (Cons b bs)
  show ?case
  proof (cases "k < 8")
    case True
    then show ?thesis
      by (auto simp: bit_or_iff bit_push_bit_iff bit_ucast_iff dest: bit_imp_le_length)
  next
    case False
    then obtain j where j: "k = 8 + j" by (metis le_add_diff_inverse not_less)
    have *: "\<not> bit b (8 + j)" using bit_imp_le_length [of b "8 + j"] by auto
    have d: "(8 + j) div 8 = Suc (j div 8)" by simp
    show ?thesis
      using Cons.IH [of j] unfolding j d
      by (auto simp: * bit_or_iff bit_push_bit_iff bit_ucast_iff)
  qed
qed

lemma bit_le_bytes_nth:
  "i < n \<Longrightarrow> bit (le_bytes n x ! i) k \<longleftrightarrow> k < 8 \<and> bit x (8 * i + k)"
  by (auto simp: le_bytes_def bit_ucast_iff bit_drop_bit_eq ac_simps dest: bit_imp_le_length)

lemma le_word_le_bytes:
  fixes x :: "'a::len word"
  assumes "LENGTH('a) \<le> 8 * n"
  shows "le_word (le_bytes n x) = x"
proof (rule bit_eqI)
  fix k
  show "bit (le_word (le_bytes n x) :: 'a word) k = bit x k"
  proof (cases "k < LENGTH('a)")
    case True
    then have "k div 8 < n" using assms by simp
    moreover have "k mod 8 < 8" "8 * (k div 8) + k mod 8 = k" by simp_all
    ultimately show ?thesis using True by (simp add: bit_le_word bit_le_bytes_nth)
  next
    case False
    then show ?thesis using bit_imp_le_length [of x k] by (auto simp: bit_le_word)
  qed
qed

lemma le_bytes_le_word:
  assumes "8 * length bs \<le> LENGTH('a::len)"
  shows "le_bytes (length bs) (le_word bs :: 'a word) = bs"
proof (rule nth_equalityI)
  fix i assume "i < length (le_bytes (length bs) (le_word bs :: 'a word))"
  then have i: "i < length bs" by simp
  show "le_bytes (length bs) (le_word bs :: 'a word) ! i = bs ! i"
  proof (rule bit_eqI)
    fix k
    show "bit (le_bytes (length bs) (le_word bs :: 'a word) ! i) k = bit (bs ! i) k"
    proof (cases "k < 8")
      case True
      have "8 * i + k < LENGTH('a)" using i True assms by simp
      then show ?thesis using i True by (simp add: bit_le_bytes_nth bit_le_word)
    next
      case False
      then show ?thesis
        using i bit_imp_le_length [of "bs ! i" k] by (auto simp: bit_le_bytes_nth)
    qed
  qed
qed simp

lemma length_Write [simp, byte_simps]:
  "length (WriteLE16 x2) = 2" "length (WriteLE32 x4) = 4" "length (WriteLE64 x8) = 8"
  "length (WriteBE32 x4) = 4" "length (WriteBE64 x8) = 8"
  by (simp_all add: WriteLE16_def WriteLE32_def WriteLE64_def WriteBE32_def WriteBE64_def)

lemma Read_Write [simp, byte_simps]:
  "ReadLE16 (WriteLE16 x2) = x2" "ReadLE32 (WriteLE32 x4) = x4"
  "ReadLE64 (WriteLE64 x8) = x8" "ReadBE32 (WriteBE32 x4) = x4"
  by (simp_all add: ReadLE16_def ReadLE32_def ReadLE64_def ReadBE32_def WriteLE16_def
      WriteLE32_def WriteLE64_def WriteBE32_def le_word_le_bytes)

lemma Write_Read [byte_simps]:
  "length p = 2 \<Longrightarrow> WriteLE16 (ReadLE16 p) = p"
  "length p = 4 \<Longrightarrow> WriteLE32 (ReadLE32 p) = p"
  "length p = 8 \<Longrightarrow> WriteLE64 (ReadLE64 p) = p"
  using le_bytes_le_word [of p, where ?'a = 16] le_bytes_le_word [of p, where ?'a = 32]
    le_bytes_le_word [of p, where ?'a = 64]
  by (simp_all add: ReadLE16_def ReadLE32_def ReadLE64_def WriteLE16_def WriteLE32_def
      WriteLE64_def)

section \<open>Facts on lists\<close>

lemma take_drop_append [list_split]:
  "n = length a \<Longrightarrow> take n (a @ b) = a" "n = length a \<Longrightarrow> drop n (a @ b) = b"
  by simp_all

lemma map_upt_add: "map f [0..<a + b] = map f [0..<a] @ map (\<lambda>i. f (a + i)) [0..<b]"
proof (rule nth_equalityI)
  fix i assume "i < length (map f [0..<a + b])"
  then show "map f [0..<a + b] ! i = (map f [0..<a] @ map (\<lambda>i. f (a + i)) [0..<b]) ! i"
    by (auto simp: nth_append)
qed simp

text \<open>Overwriting a part of a buffer in place: \<^verbatim>\<open>std::copy\<close> and \<^verbatim>\<open>memcpy\<close> into a span.\<close>

definition overwrite :: "nat \<Rightarrow> 'a list \<Rightarrow> 'a list \<Rightarrow> 'a list" where
  "overwrite pos src dst = take pos dst @ src @ drop (pos + length src) dst"

lemma length_overwrite [simp]:
  "pos + length src \<le> length dst \<Longrightarrow> length (overwrite pos src dst) = length dst"
  by (simp add: overwrite_def)

lemma overwrite_append [list_split]:
  "pos = length a \<Longrightarrow> length src = length b \<Longrightarrow> overwrite pos src (a @ b @ c) = a @ src @ c"
  by (simp add: overwrite_def)

lemma overwrite_all [list_split]:
  "length src = length dst \<Longrightarrow> overwrite 0 src dst = src"
  by (simp add: overwrite_def)

lemma overwrite_head [list_split]:
  "length src = length a \<Longrightarrow> overwrite 0 src (a @ b) = src @ b"
  by (simp add: overwrite_def)

lemma length_split3:
  assumes "length xs = a + b + c"
  obtains A B C where "xs = A @ B @ C" "length A = a" "length B = b" "length C = c"
proof
  show "xs = take a xs @ take b (drop a xs) @ drop b (drop a xs)"
    by (simp only: append_take_drop_id)
qed (use assms in simp_all)

text \<open>Byte-wise exclusive or of two strings, cut to the shorter one.\<close>

definition xor_bytes :: "bytes \<Rightarrow> bytes \<Rightarrow> bytes" where
  "xor_bytes a b = map2 (XOR) a b"

lemma length_xor_bytes [simp]: "length (xor_bytes a b) = min (length a) (length b)"
  by (simp add: xor_bytes_def)

lemma xor_bytes_Nil [simp]: "xor_bytes [] b = []" "xor_bytes a [] = []"
  by (simp_all add: xor_bytes_def)

lemma xor_bytes_commute: "xor_bytes a b = xor_bytes b a"
  by (rule nth_equalityI) (simp_all add: xor_bytes_def xor.commute)

lemma xor_bytes_append:
  "length a = length k \<Longrightarrow> xor_bytes (a @ b) (k @ l) = xor_bytes a k @ xor_bytes b l"
  by (simp add: xor_bytes_def)

lemma xor_bytes_cancel [simp]:
  "length a \<le> length k \<Longrightarrow> xor_bytes (xor_bytes a k) k = a"
proof (rule nth_equalityI)
  show "length a \<le> length k \<Longrightarrow> length (xor_bytes (xor_bytes a k) k) = length a" by simp
qed (simp add: xor_bytes_def xor.assoc)

end
