(* ===== verification/Crypto_Poly1305.thy ===== *)
theory Crypto_Poly1305
  imports Sv2_Prelude
begin

text \<open>
  The Poly1305 authenticator of \<^verbatim>\<open>src/src/crypto/poly1305.cpp\<close> (the 32-bit donna code: five
  26-bit limbs in 32-bit words, 64-bit products) with its buffering of partial blocks.
\<close>

section \<open>The context\<close>

type_synonym limbs = "u32 \<times> u32 \<times> u32 \<times> u32 \<times> u32"

record poly1305_context =
  p_r :: limbs
  p_h :: limbs
  p_pad :: "u32 \<times> u32 \<times> u32 \<times> u32"
  p_leftover :: nat
  p_buffer :: bytes
  p_final :: bool

definition poly1305_init :: "bytes \<Rightarrow> poly1305_context" where
  "poly1305_init key =
     \<lparr>p_r = (ReadLE32 key AND 0x3ffffff,
            drop_bit 2 (ReadLE32 (drop 3 key)) AND 0x3ffff03,
            drop_bit 4 (ReadLE32 (drop 6 key)) AND 0x3ffc0ff,
            drop_bit 6 (ReadLE32 (drop 9 key)) AND 0x3f03fff,
            drop_bit 8 (ReadLE32 (drop 12 key)) AND 0x00fffff),
      p_h = (0, 0, 0, 0, 0),
      p_pad = (ReadLE32 (drop 16 key), ReadLE32 (drop 20 key), ReadLE32 (drop 24 key),
               ReadLE32 (drop 28 key)),
      p_leftover = 0, p_buffer = zeros 16, p_final = False\<rparr>"

section \<open>Blocks\<close>

text \<open>\<^verbatim>\<open>h += m[i]\<close>\<close>

definition poly1305_add :: "u32 \<Rightarrow> bytes \<Rightarrow> limbs \<Rightarrow> limbs" where
  "poly1305_add hibit m = (\<lambda>(h0, h1, h2, h3, h4).
     (h0 + (ReadLE32 m AND 0x3ffffff),
      h1 + (drop_bit 2 (ReadLE32 (drop 3 m)) AND 0x3ffffff),
      h2 + (drop_bit 4 (ReadLE32 (drop 6 m)) AND 0x3ffffff),
      h3 + (drop_bit 6 (ReadLE32 (drop 9 m)) AND 0x3ffffff),
      h4 + (drop_bit 8 (ReadLE32 (drop 12 m)) OR hibit)))"

abbreviation mul64 :: "u32 \<Rightarrow> u32 \<Rightarrow> u64" where
  "mul64 a b \<equiv> ucast a * ucast b"

text \<open>\<^verbatim>\<open>h *= r\<close>, as five 64-bit sums\<close>

definition poly1305_mul :: "limbs \<Rightarrow> limbs \<Rightarrow> u64 \<times> u64 \<times> u64 \<times> u64 \<times> u64" where
  "poly1305_mul = (\<lambda>(r0, r1, r2, r3, r4) (h0, h1, h2, h3, h4).
     let s1 = r1 * 5; s2 = r2 * 5; s3 = r3 * 5; s4 = r4 * 5 in
     (mul64 h0 r0 + mul64 h1 s4 + mul64 h2 s3 + mul64 h3 s2 + mul64 h4 s1,
      mul64 h0 r1 + mul64 h1 r0 + mul64 h2 s4 + mul64 h3 s3 + mul64 h4 s2,
      mul64 h0 r2 + mul64 h1 r1 + mul64 h2 r0 + mul64 h3 s4 + mul64 h4 s3,
      mul64 h0 r3 + mul64 h1 r2 + mul64 h2 r1 + mul64 h3 r0 + mul64 h4 s4,
      mul64 h0 r4 + mul64 h1 r3 + mul64 h2 r2 + mul64 h3 r1 + mul64 h4 r0))"

text \<open>\<^verbatim>\<open>(partial) h %= p\<close>\<close>

definition poly1305_reduce :: "u64 \<times> u64 \<times> u64 \<times> u64 \<times> u64 \<Rightarrow> limbs" where
  "poly1305_reduce = (\<lambda>(d0, d1, d2, d3, d4).
     let c = ucast (drop_bit 26 d0) :: u32; h0 = ucast d0 AND 0x3ffffff;
         d1 = d1 + ucast c; c = ucast (drop_bit 26 d1) :: u32; h1 = ucast d1 AND 0x3ffffff;
         d2 = d2 + ucast c; c = ucast (drop_bit 26 d2) :: u32; h2 = ucast d2 AND 0x3ffffff;
         d3 = d3 + ucast c; c = ucast (drop_bit 26 d3) :: u32; h3 = ucast d3 AND 0x3ffffff;
         d4 = d4 + ucast c; c = ucast (drop_bit 26 d4) :: u32; h4 = ucast d4 AND 0x3ffffff;
         h0 = h0 + c * 5; c = drop_bit 26 h0; h0 = h0 AND 0x3ffffff;
         h1 = h1 + c
     in (h0, h1, h2, h3, h4))"

fun poly1305_blocks_loop :: "u32 \<Rightarrow> limbs \<Rightarrow> bytes \<Rightarrow> limbs \<Rightarrow> limbs" where
  "poly1305_blocks_loop hibit r m h =
     (if length m < 16 then h
      else poly1305_blocks_loop hibit r (drop 16 m)
             (poly1305_reduce (poly1305_mul r (poly1305_add hibit m h))))"

declare poly1305_blocks_loop.simps [simp del]

definition poly1305_blocks :: "bytes \<Rightarrow> poly1305_context \<Rightarrow> poly1305_context" where
  "poly1305_blocks m st =
     (let hibit = (if p_final st then 0 else push_bit 24 1) in
      st\<lparr>p_h := poly1305_blocks_loop hibit (p_r st) m (p_h st)\<rparr>)"

section \<open>Update and finish\<close>

definition poly1305_absorb :: "bytes \<Rightarrow> poly1305_context \<Rightarrow> poly1305_context" where
  "poly1305_absorb m st =
     (let want = length m - length m mod 16;
          st = (if length m \<ge> 16 then poly1305_blocks (take want m) st else st);
          m = (if length m \<ge> 16 then drop want m else m)
      in if m \<noteq> [] then st\<lparr>p_buffer := overwrite (p_leftover st) m (p_buffer st),
                            p_leftover := p_leftover st + length m\<rparr>
         else st)"

definition poly1305_update :: "bytes \<Rightarrow> poly1305_context \<Rightarrow> poly1305_context" where
  "poly1305_update m st =
     (if p_leftover st \<noteq> 0 then
        let want = min (16 - p_leftover st) (length m);
            st = st\<lparr>p_buffer := overwrite (p_leftover st) (take want m) (p_buffer st),
                    p_leftover := p_leftover st + want\<rparr>
        in if p_leftover st < 16 then st
           else poly1305_absorb (drop want m)
                  ((poly1305_blocks (p_buffer st) st)\<lparr>p_leftover := 0\<rparr>)
      else poly1305_absorb m st)"

definition poly1305_pad_last :: "poly1305_context \<Rightarrow> poly1305_context" where
  "poly1305_pad_last st =
     (if p_leftover st \<noteq> 0 then
        let st = st\<lparr>p_buffer := take (p_leftover st) (p_buffer st) @ [1] @ zeros (15 - p_leftover st),
                    p_final := True\<rparr>
        in poly1305_blocks (p_buffer st) st
      else st)"

definition poly1305_full_carry :: "limbs \<Rightarrow> limbs" where
  "poly1305_full_carry = (\<lambda>(h0, h1, h2, h3, h4).
     let c = drop_bit 26 h1; h1 = h1 AND 0x3ffffff;
         h2 = h2 + c; c = drop_bit 26 h2; h2 = h2 AND 0x3ffffff;
         h3 = h3 + c; c = drop_bit 26 h3; h3 = h3 AND 0x3ffffff;
         h4 = h4 + c; c = drop_bit 26 h4; h4 = h4 AND 0x3ffffff;
         h0 = h0 + c * 5; c = drop_bit 26 h0; h0 = h0 AND 0x3ffffff;
         h1 = h1 + c
     in (h0, h1, h2, h3, h4))"

definition poly1305_select :: "limbs \<Rightarrow> limbs" where
  "poly1305_select = (\<lambda>(h0, h1, h2, h3, h4).
     let g0 = h0 + 5; c = drop_bit 26 g0; g0 = g0 AND 0x3ffffff;
         g1 = h1 + c; c = drop_bit 26 g1; g1 = g1 AND 0x3ffffff;
         g2 = h2 + c; c = drop_bit 26 g2; g2 = g2 AND 0x3ffffff;
         g3 = h3 + c; c = drop_bit 26 g3; g3 = g3 AND 0x3ffffff;
         g4 = h4 + c - push_bit 26 1;
         mask = drop_bit 31 g4 - 1;
         g0 = g0 AND mask; g1 = g1 AND mask; g2 = g2 AND mask; g3 = g3 AND mask; g4 = g4 AND mask;
         mask = NOT mask
     in ((h0 AND mask) OR g0, (h1 AND mask) OR g1, (h2 AND mask) OR g2, (h3 AND mask) OR g3,
         (h4 AND mask) OR g4))"

definition poly1305_pack :: "limbs \<Rightarrow> u32 \<times> u32 \<times> u32 \<times> u32" where
  "poly1305_pack = (\<lambda>(h0, h1, h2, h3, h4).
     (h0 OR push_bit 26 h1, drop_bit 6 h1 OR push_bit 20 h2, drop_bit 12 h2 OR push_bit 14 h3,
      drop_bit 18 h3 OR push_bit 8 h4))"

definition poly1305_add_pad ::
  "u32 \<times> u32 \<times> u32 \<times> u32 \<Rightarrow> u32 \<times> u32 \<times> u32 \<times> u32 \<Rightarrow> u32 \<times> u32 \<times> u32 \<times> u32" where
  "poly1305_add_pad = (\<lambda>(p0, p1, p2, p3) (h0, h1, h2, h3).
     let f = (ucast h0 :: u64) + ucast p0; h0 = ucast f;
         f = (ucast h1 :: u64) + ucast p1 + drop_bit 32 f; h1 = ucast f;
         f = (ucast h2 :: u64) + ucast p2 + drop_bit 32 f; h2 = ucast f;
         f = (ucast h3 :: u64) + ucast p3 + drop_bit 32 f; h3 = ucast f
     in (h0, h1, h2, h3))"

definition poly1305_finish :: "poly1305_context \<Rightarrow> bytes \<times> poly1305_context" where
  "poly1305_finish st =
     (let st = poly1305_pad_last st;
          (h0, h1, h2, h3) =
             poly1305_add_pad (p_pad st) (poly1305_pack (poly1305_select (poly1305_full_carry (p_h st))))
      in (WriteLE32 h0 @ WriteLE32 h1 @ WriteLE32 h2 @ WriteLE32 h3,
          st\<lparr>p_h := (0, 0, 0, 0, 0), p_r := (0, 0, 0, 0, 0), p_pad := (0, 0, 0, 0)\<rparr>))"

lemma length_poly1305_finish [simp]: "length (fst (poly1305_finish st)) = 16"
  by (simp add: poly1305_finish_def Let_def split_beta)

end
