(* ===== verification/Crypto_Poly1305_Value.thy ===== *)
theory Crypto_Poly1305_Value
  imports Crypto_Poly1305
begin

text \<open>
  What the code of \<^verbatim>\<open>src/src/crypto/poly1305.cpp\<close> computes: the message, cut into blocks of 16 bytes with
  a one appended to each, is evaluated as a polynomial at the clamped key modulo \<^verbatim>\<open>2 ^ 130 - 5\<close>. The
  limbs stand for a number, no intermediate value leaves its word, the final selection reduces
  completely, and the buffer of partial blocks makes the result independent of how the message is
  cut.
\<close>

section \<open>The reference\<close>

primrec le_val :: "bytes \<Rightarrow> nat" where
  "le_val [] = 0"
| "le_val (b # bs) = unat b + 2 ^ 8 * le_val bs"

definition P1305 :: nat where "P1305 = 2 ^ 130 - 5"

fun poly1305_eval :: "nat \<Rightarrow> nat \<Rightarrow> bytes \<Rightarrow> nat" where
  "poly1305_eval r a m =
     (if m = [] then a
      else let block = take 16 m in
        poly1305_eval r ((a + le_val block + 2 ^ (8 * length block)) * r mod P1305) (drop 16 m))"

declare poly1305_eval.simps [simp del]

definition poly1305_mac :: "bytes \<Rightarrow> bytes \<Rightarrow> nat" where
  "poly1305_mac key m =
     (let r = le_val (take 16 key) AND 0x0ffffffc0ffffffc0ffffffc0fffffff; s = le_val (drop 16 key)
      in (poly1305_eval r 0 m + s) mod 2 ^ 128)"

section \<open>Reading numbers\<close>

lemma le_val_less: "le_val bs < 2 ^ (8 * length bs)"
proof (induction bs)
  case (Cons b bs)
  have "unat b < 2 ^ 8" using unat_lt2p [of b] by simp
  then have "unat b + 2 ^ 8 * le_val bs < 2 ^ 8 * (le_val bs + 1)" by simp
  also have "\<dots> \<le> 2 ^ 8 * 2 ^ (8 * length bs)" using Cons by (intro mult_left_mono) simp_all
  finally show ?case by (simp add: power_add)
qed simp

lemma le_val_append: "le_val (a @ b) = le_val a + 2 ^ (8 * length a) * le_val b"
  by (induction a) (simp_all add: power_add algebra_simps)

lemma or_shifted: "a < 2 ^ k \<Longrightarrow> a OR 2 ^ k * b = a + 2 ^ k * b" for a b :: nat
proof -
  assume "a < 2 ^ k"
  then have a: "take_bit k a = a" by (simp add: take_bit_nat_eq_self)
  have "\<not> bit a n \<or> \<not> bit (push_bit k b) n" for n
    by (subst a [symmetric]) (auto simp: bit_take_bit_iff bit_push_bit_iff)
  then have "a + push_bit k b = a OR push_bit k b" by (intro disjunctive_add) auto
  then show "a OR 2 ^ k * b = a + 2 ^ k * b" by (simp add: push_bit_eq_mult mult.commute)
qed

lemma unat_push_bit: "unat (push_bit k w) = 2 ^ k * unat w mod 2 ^ LENGTH('a)" for w :: "'a::len word"
  by (subst unsigned_push_bit_eq) (simp add: take_bit_eq_mod push_bit_eq_mult mult.commute)

lemma unat_le_word: "8 * length bs \<le> LENGTH('a) \<Longrightarrow> unat (le_word bs :: 'a::len word) = le_val bs"
proof (induction bs)
  case (Cons b bs)
  let ?w = "le_word bs :: 'a word"
  have w: "unat ?w = le_val bs" using Cons by simp
  have l: "8 \<le> LENGTH('a)" using Cons.prems by simp
  have b: "unat b < 2 ^ 8" using unat_lt2p [of b] by simp
  also have "\<dots> \<le> 2 ^ LENGTH('a)" using l by (intro power_increasing) simp_all
  finally have ub: "unat (ucast b :: 'a word) = unat b" by (simp add: unat_ucast_mod)
  have "2 ^ 8 * le_val bs < 2 ^ 8 * 2 ^ (8 * length bs)" using le_val_less [of bs] by simp
  also have "\<dots> = 2 ^ (8 + 8 * length bs)" by (simp only: power_add)
  also have "\<dots> \<le> 2 ^ LENGTH('a)" using Cons.prems by (intro power_increasing) simp_all
  finally have "unat (push_bit 8 ?w) = 2 ^ 8 * le_val bs" by (simp add: unat_push_bit w)
  then show ?case using or_shifted [OF b, of "le_val bs"] by (simp add: unsigned_or_eq ub)
qed simp

lemma ReadLE32_val:
  assumes "k + 4 \<le> length m"
  shows "unat (ReadLE32 (drop k m)) = le_val m div 2 ^ (8 * k) mod 2 ^ 32"
proof -
  let ?A = "take k m" and ?B = "take 4 (drop k m)" and ?C = "drop (k + 4) m"
  have "m = ?A @ ?B @ ?C" by (metis add.commute append_take_drop_id drop_drop)
  then have "le_val m = le_val (?A @ ?B @ ?C)" by (rule arg_cong)
  also have "\<dots> = le_val ?A + 2 ^ (8 * k) * (le_val ?B + 2 ^ 32 * le_val ?C)" using assms by (simp add: le_val_append)
  finally have "le_val m = le_val ?A + 2 ^ (8 * k) * (le_val ?B + 2 ^ 32 * le_val ?C)" .
  moreover have "le_val ?A < 2 ^ (8 * k)" using le_val_less [of ?A] assms by simp
  moreover have "le_val ?B < 2 ^ 32" using le_val_less [of ?B] assms by simp
  ultimately have "le_val m div 2 ^ (8 * k) mod 2 ^ 32 = le_val ?B" by simp
  then show ?thesis using unat_le_word [of ?B, where 'a = 32] assms by (simp add: ReadLE32_def)
qed

lemma unat_and_mask26: "unat (w AND 0x3ffffff) = unat w mod 2 ^ 26" for w :: u32
proof -
  have "w AND 0x3ffffff = take_bit 26 w" by (simp add: take_bit_eq_mask mask_eq_exp_minus_1)
  moreover have "unat (take_bit 26 w) = take_bit 26 (unat w)" by (rule unsigned_take_bit_eq)
  ultimately show ?thesis by (simp only: take_bit_eq_mod [of 26 "unat w"])
qed

lemma field26: "j \<le> 6 \<Longrightarrow> y mod 2 ^ 32 div 2 ^ j mod 2 ^ 26 = y div 2 ^ j mod 2 ^ 26" for y :: nat
proof -
  assume "j \<le> 6"
  then have "take_bit 26 (drop_bit j (take_bit 32 y)) = take_bit 26 (drop_bit j y)" by (simp add: drop_bit_take_bit)
  then show ?thesis by (simp add: take_bit_eq_mod drop_bit_eq_div)
qed

lemma limb_val:
  assumes "k + 4 \<le> length m" "j \<le> 6"
  shows "unat (drop_bit j (ReadLE32 (drop k m)) AND 0x3ffffff) = le_val m div 2 ^ (8 * k + j) mod 2 ^ 26"
  unfolding unat_and_mask26 unat_drop_bit ReadLE32_val [OF assms(1)] field26 [OF assms(2)]
  by (simp add: div_mult2_eq [symmetric] power_add)

lemma split_limbs:
  fixes M :: nat
  shows "M mod 2 ^ 26 + 2 ^ 26 * (M div 2 ^ 26 mod 2 ^ 26) + 2 ^ 52 * (M div 2 ^ 52 mod 2 ^ 26) +
    2 ^ 78 * (M div 2 ^ 78 mod 2 ^ 26) + 2 ^ 104 * (M div 2 ^ 104) = M"
proof -
  have d: "M div 2 ^ 52 = M div 2 ^ 26 div 2 ^ 26" "M div 2 ^ 78 = M div 2 ^ 26 div 2 ^ 26 div 2 ^ 26"
    "M div 2 ^ 104 = M div 2 ^ 26 div 2 ^ 26 div 2 ^ 26 div 2 ^ 26"
    by (simp_all add: div_mult2_eq [symmetric])
  have "a + 2 ^ 26 * x + 2 ^ 52 * y + 2 ^ 78 * z + 2 ^ 104 * u = a + 2 ^ 26 * (x + 2 ^ 26 * (y + 2 ^ 26 * (z + 2 ^ 26 * u)))"
    for a x y z u :: nat by simp
  then show ?thesis by (simp only: d mod_mult_div_eq)
qed

section \<open>Limbs\<close>

fun limbs_val :: "limbs \<Rightarrow> nat" where
  "limbs_val (h0, h1, h2, h3, h4) = unat h0 + 2 ^ 26 * unat h1 + 2 ^ 52 * unat h2 + 2 ^ 78 * unat h3 + 2 ^ 104 * unat h4"

text \<open>Between blocks one limb may be a little larger than 26 bits.\<close>

fun limbs_inv :: "limbs \<Rightarrow> bool" where
  "limbs_inv (h0, h1, h2, h3, h4) \<longleftrightarrow> unat h0 < 2 ^ 26 \<and> unat h1 < 2 ^ 26 + 64 \<and> unat h2 < 2 ^ 26 \<and> unat h3 < 2 ^ 26 \<and> unat h4 < 2 ^ 26"

fun limbs_below :: "nat \<Rightarrow> limbs \<Rightarrow> bool" where
  "limbs_below b (h0, h1, h2, h3, h4) \<longleftrightarrow> unat h0 < b \<and> unat h1 < b \<and> unat h2 < b \<and> unat h3 < b \<and> unat h4 < b"

lemma unat_add32: "unat a + unat b < 2 ^ 32 \<Longrightarrow> unat (a + b) = unat a + unat b" for a b :: u32
  by (simp add: unat_word_ariths)

lemma unat_mult32: "unat a * unat b < 2 ^ 32 \<Longrightarrow> unat (a * b) = unat a * unat b" for a b :: u32
  by (simp add: unat_word_ariths)

lemma high_limb:
  assumes "length m = 16" "hibit = 0 \<or> hibit = push_bit 24 1"
  shows "unat (drop_bit 8 (ReadLE32 (drop 12 m)) OR hibit) = le_val m div 2 ^ 104 + unat hibit" "le_val m div 2 ^ 104 < 2 ^ 24"
proof -
  have M: "le_val m < 2 ^ 128" using le_val_less [of m] assms(1) by simp
  then show l: "le_val m div 2 ^ 104 < 2 ^ 24" by (simp add: less_mult_imp_div_less)
  have "le_val m div 2 ^ 96 < 2 ^ 32" using M by (simp add: less_mult_imp_div_less)
  then have "unat (ReadLE32 (drop 12 m)) = le_val m div 2 ^ 96" using ReadLE32_val [of 12 m] assms(1) by simp
  then have d: "unat (drop_bit 8 (ReadLE32 (drop 12 m))) = le_val m div 2 ^ 104" by (simp add: unat_drop_bit div_mult2_eq [symmetric])
  have p: "unat (push_bit 24 1 :: u32) = 2 ^ 24 * 1" by (simp add: unat_push_bit)
  show "unat (drop_bit 8 (ReadLE32 (drop 12 m)) OR hibit) = le_val m div 2 ^ 104 + unat hibit"
  proof (cases "hibit = 0")
    case True
    show ?thesis unfolding True unsigned_or_eq d unsigned_0 by (simp only: or.right_neutral add_0_right)
  next
    case False
    then have hibit: "hibit = push_bit 24 1" using assms(2) by blast
    have "unat (drop_bit 8 (ReadLE32 (drop 12 m)) OR hibit) = le_val m div 2 ^ 104 OR 2 ^ 24 * 1"
      by (simp only: hibit unsigned_or_eq d p)
    also have "\<dots> = le_val m div 2 ^ 104 + 2 ^ 24 * 1" using l by (rule or_shifted)
    finally show ?thesis by (simp only: hibit p)
  qed
qed

lemma block_limbs:
  assumes "length m = 16" "hibit = 0 \<or> hibit = push_bit 24 1"
  obtains m0 m1 m2 m3 m4 where "unat (ReadLE32 m AND 0x3ffffff) = m0" "unat (drop_bit 2 (ReadLE32 (drop 3 m)) AND 0x3ffffff) = m1"
    "unat (drop_bit 4 (ReadLE32 (drop 6 m)) AND 0x3ffffff) = m2" "unat (drop_bit 6 (ReadLE32 (drop 9 m)) AND 0x3ffffff) = m3"
    "unat (drop_bit 8 (ReadLE32 (drop 12 m)) OR hibit) = m4 + unat hibit" "m0 < 2 ^ 26" "m1 < 2 ^ 26" "m2 < 2 ^ 26" "m3 < 2 ^ 26"
    "m4 < 2 ^ 24" "le_val m = m0 + 2 ^ 26 * m1 + 2 ^ 52 * m2 + 2 ^ 78 * m3 + 2 ^ 104 * m4"
proof (rule that)
  let ?M = "le_val m"
  show "unat (ReadLE32 m AND 0x3ffffff) = ?M mod 2 ^ 26"
    "unat (drop_bit 2 (ReadLE32 (drop 3 m)) AND 0x3ffffff) = ?M div 2 ^ 26 mod 2 ^ 26"
    "unat (drop_bit 4 (ReadLE32 (drop 6 m)) AND 0x3ffffff) = ?M div 2 ^ 52 mod 2 ^ 26"
    "unat (drop_bit 6 (ReadLE32 (drop 9 m)) AND 0x3ffffff) = ?M div 2 ^ 78 mod 2 ^ 26"
    using limb_val [of 0 m 0] limb_val [of 3 m 2] limb_val [of 6 m 4] limb_val [of 9 m 6] assms(1) by simp_all
  show "unat (drop_bit 8 (ReadLE32 (drop 12 m)) OR hibit) = ?M div 2 ^ 104 + unat hibit" "?M div 2 ^ 104 < 2 ^ 24"
    by (rule high_limb [OF assms])+
  show "?M = ?M mod 2 ^ 26 + 2 ^ 26 * (?M div 2 ^ 26 mod 2 ^ 26) + 2 ^ 52 * (?M div 2 ^ 52 mod 2 ^ 26) +
      2 ^ 78 * (?M div 2 ^ 78 mod 2 ^ 26) + 2 ^ 104 * (?M div 2 ^ 104)" by (rule split_limbs [symmetric])
qed simp_all

lemma poly1305_add_val:
  assumes "length m = 16" "hibit = 0 \<or> hibit = push_bit 24 1" "limbs_inv h"
  shows "limbs_val (poly1305_add hibit m h) = limbs_val h + (le_val m + 2 ^ 104 * unat hibit)"
    "limbs_below (2 ^ 27 + 64) (poly1305_add hibit m h)"
proof -
  obtain h0 h1 h2 h3 h4 where h: "h = (h0, h1, h2, h3, h4)" by (cases h)
  obtain m0 m1 m2 m3 m4 where f: "unat (ReadLE32 m AND 0x3ffffff) = m0" "unat (drop_bit 2 (ReadLE32 (drop 3 m)) AND 0x3ffffff) = m1"
    "unat (drop_bit 4 (ReadLE32 (drop 6 m)) AND 0x3ffffff) = m2" "unat (drop_bit 6 (ReadLE32 (drop 9 m)) AND 0x3ffffff) = m3"
    "unat (drop_bit 8 (ReadLE32 (drop 12 m)) OR hibit) = m4 + unat hibit" and b: "m0 < 2 ^ 26" "m1 < 2 ^ 26" "m2 < 2 ^ 26" "m3 < 2 ^ 26"
    "m4 < 2 ^ 24" and M: "le_val m = m0 + 2 ^ 26 * m1 + 2 ^ 52 * m2 + 2 ^ 78 * m3 + 2 ^ 104 * m4"
    by (rule block_limbs [OF assms(1,2)])
  have hb: "unat hibit \<le> 2 ^ 24" using assms(2) by (auto simp: unat_push_bit)
  have i: "unat h0 < 2 ^ 26" "unat h1 < 2 ^ 26 + 64" "unat h2 < 2 ^ 26" "unat h3 < 2 ^ 26" "unat h4 < 2 ^ 26"
    using assms(3) by (simp_all add: h)
  have u: "unat (h0 + (ReadLE32 m AND 0x3ffffff)) = unat h0 + m0"
    "unat (h1 + (drop_bit 2 (ReadLE32 (drop 3 m)) AND 0x3ffffff)) = unat h1 + m1"
    "unat (h2 + (drop_bit 4 (ReadLE32 (drop 6 m)) AND 0x3ffffff)) = unat h2 + m2"
    "unat (h3 + (drop_bit 6 (ReadLE32 (drop 9 m)) AND 0x3ffffff)) = unat h3 + m3"
    "unat (h4 + (drop_bit 8 (ReadLE32 (drop 12 m)) OR hibit)) = unat h4 + (m4 + unat hibit)"
    using i b hb by (subst unat_add32; simp add: f)+
  show "limbs_below (2 ^ 27 + 64) (poly1305_add hibit m h)"
    unfolding h poly1305_add_def prod.case limbs_below.simps u using i b hb by simp
  show "limbs_val (poly1305_add hibit m h) = limbs_val h + (le_val m + 2 ^ 104 * unat hibit)"
    unfolding h poly1305_add_def prod.case limbs_val.simps u M by (simp only: distrib_left distrib_right ac_simps)
qed

section \<open>The product\<close>

fun wide_val :: "u64 \<times> u64 \<times> u64 \<times> u64 \<times> u64 \<Rightarrow> nat" where
  "wide_val (d0, d1, d2, d3, d4) = unat d0 + 2 ^ 26 * unat d1 + 2 ^ 52 * unat d2 + 2 ^ 78 * unat d3 + 2 ^ 104 * unat d4"

fun wide_below :: "nat \<Rightarrow> u64 \<times> u64 \<times> u64 \<times> u64 \<times> u64 \<Rightarrow> bool" where
  "wide_below b (d0, d1, d2, d3, d4) \<longleftrightarrow> unat d0 \<le> 21 * b \<and> unat d1 \<le> 21 * b \<and> unat d2 \<le> 21 * b \<and> unat d3 \<le> 21 * b \<and> unat d4 \<le> 5 * b"

text \<open>\<^verbatim>\<open>(2 ^ 27 + 64) * 2 ^ 26\<close>\<close>

abbreviation product_bound :: nat where "product_bound \<equiv> 9007203549708288"

lemma mul64_val: "unat (mul64 a b) = unat a * unat b"
proof -
  have "unat a * unat b \<le> (2 ^ 32 - 1) * (2 ^ 32 - 1)" using unat_lt2p [of a] unat_lt2p [of b] by (intro mult_le_mono) simp_all
  also have "\<dots> < (2 ^ 64 :: nat)" by simp
  finally show ?thesis using unat_u64_mult [of "ucast a" "ucast b"] by simp
qed

lemma sum5:
  fixes a b c d e :: u64
  assumes "unat a + unat b + unat c + unat d + unat e < 2 ^ 64"
  shows "unat (a + b + c + d + e) = unat a + unat b + unat c + unat d + unat e"
  using assms by (simp add: unat_u64_plus)

lemma product_le:
  assumes "a < 2 ^ 27 + 64" "b < (2 :: nat) ^ 26"
  shows "a * b \<le> product_bound" "a * (5 * b) \<le> 5 * product_bound"
proof -
  have "a * b \<le> (2 ^ 27 + 64) * 2 ^ 26" using assms by (intro mult_le_mono) simp_all
  then show 1: "a * b \<le> product_bound" by simp
  have "a * (5 * b) = 5 * (a * b)" by simp
  then show "a * (5 * b) \<le> 5 * product_bound" using 1 by linarith
qed

lemma poly1305_mul_val:
  assumes "limbs_below (2 ^ 27 + 64) h" "limbs_below (2 ^ 26) r"
  shows "\<exists>x. limbs_val h * limbs_val r = wide_val (poly1305_mul r h) + P1305 * x" "wide_below product_bound (poly1305_mul r h)"
proof -
  obtain h0 h1 h2 h3 h4 where h: "h = (h0, h1, h2, h3, h4)" by (cases h)
  obtain r0 r1 r2 r3 r4 where r: "r = (r0, r1, r2, r3, r4)" by (cases r)
  have hb: "unat h0 < 2 ^ 27 + 64" "unat h1 < 2 ^ 27 + 64" "unat h2 < 2 ^ 27 + 64" "unat h3 < 2 ^ 27 + 64" "unat h4 < 2 ^ 27 + 64"
    using assms(1) by (simp_all add: h)
  have rb: "unat r0 < 2 ^ 26" "unat r1 < 2 ^ 26" "unat r2 < 2 ^ 26" "unat r3 < 2 ^ 26" "unat r4 < 2 ^ 26"
    using assms(2) by (simp_all add: r)
  have five: "unat (x * 5) = 5 * unat x" if "unat x < 2 ^ 26" for x :: u32
    using that unat_mult32 [of x 5] by simp
  note s = five [OF rb(2)] five [OF rb(3)] five [OF rb(4)] five [OF rb(5)]
  note q0 = product_le(1) [OF hb(1)] and q1 = product_le [OF hb(2)] and q2 = product_le [OF hb(3)]
    and q3 = product_le [OF hb(4)] and q4 = product_le [OF hb(5)]
  let ?d0 = "unat h0 * unat r0 + unat h1 * (5 * unat r4) + unat h2 * (5 * unat r3) + unat h3 * (5 * unat r2) + unat h4 * (5 * unat r1)"
    and ?d1 = "unat h0 * unat r1 + unat h1 * unat r0 + unat h2 * (5 * unat r4) + unat h3 * (5 * unat r3) + unat h4 * (5 * unat r2)"
    and ?d2 = "unat h0 * unat r2 + unat h1 * unat r1 + unat h2 * unat r0 + unat h3 * (5 * unat r4) + unat h4 * (5 * unat r3)"
    and ?d3 = "unat h0 * unat r3 + unat h1 * unat r2 + unat h2 * unat r1 + unat h3 * unat r0 + unat h4 * (5 * unat r4)"
    and ?d4 = "unat h0 * unat r4 + unat h1 * unat r3 + unat h2 * unat r2 + unat h3 * unat r1 + unat h4 * unat r0"
  have b: "?d0 \<le> 21 * product_bound" "?d1 \<le> 21 * product_bound" "?d2 \<le> 21 * product_bound" "?d3 \<le> 21 * product_bound"
    "?d4 \<le> 5 * product_bound"
    using q0 [OF rb(1)] q1(2) [OF rb(5)] q2(2) [OF rb(4)] q3(2) [OF rb(3)] q4(2) [OF rb(2)] apply linarith
    using q0 [OF rb(2)] q1(1) [OF rb(1)] q2(2) [OF rb(5)] q3(2) [OF rb(4)] q4(2) [OF rb(3)] apply linarith
    using q0 [OF rb(3)] q1(1) [OF rb(2)] q2(1) [OF rb(1)] q3(2) [OF rb(5)] q4(2) [OF rb(4)] apply linarith
    using q0 [OF rb(4)] q1(1) [OF rb(3)] q2(1) [OF rb(2)] q3(1) [OF rb(1)] q4(2) [OF rb(5)] apply linarith
    using q0 [OF rb(5)] q1(1) [OF rb(4)] q2(1) [OF rb(3)] q3(1) [OF rb(2)] q4(1) [OF rb(1)] by linarith
  have lim: "21 * product_bound < (2 :: nat) ^ 64" by simp
  note m = mul64_val s
  have v: "unat (mul64 h0 r0 + mul64 h1 (r4 * 5) + mul64 h2 (r3 * 5) + mul64 h3 (r2 * 5) + mul64 h4 (r1 * 5)) = ?d0"
    "unat (mul64 h0 r1 + mul64 h1 r0 + mul64 h2 (r4 * 5) + mul64 h3 (r3 * 5) + mul64 h4 (r2 * 5)) = ?d1"
    "unat (mul64 h0 r2 + mul64 h1 r1 + mul64 h2 r0 + mul64 h3 (r4 * 5) + mul64 h4 (r3 * 5)) = ?d2"
    "unat (mul64 h0 r3 + mul64 h1 r2 + mul64 h2 r1 + mul64 h3 r0 + mul64 h4 (r4 * 5)) = ?d3"
    "unat (mul64 h0 r4 + mul64 h1 r3 + mul64 h2 r2 + mul64 h3 r1 + mul64 h4 r0) = ?d4"
    using b lim by (subst sum5; (simp only: m; fail | simp only: m; linarith))+
  show "wide_below product_bound (poly1305_mul r h)"
    unfolding h r poly1305_mul_def prod.case Let_def wide_below.simps v using b by blast
  let ?x = "unat h1 * unat r4 + unat h2 * unat r3 + unat h3 * unat r2 + unat h4 * unat r1 +
    2 ^ 26 * (unat h2 * unat r4 + unat h3 * unat r3 + unat h4 * unat r2) + 2 ^ 52 * (unat h3 * unat r4 + unat h4 * unat r3) +
    2 ^ 78 * (unat h4 * unat r4)"
  have "limbs_val h * limbs_val r = wide_val (poly1305_mul r h) + P1305 * ?x"
    unfolding h r poly1305_mul_def prod.case Let_def wide_val.simps limbs_val.simps v P1305_def by (simp add: algebra_simps)
  then show "\<exists>x. limbs_val h * limbs_val r = wide_val (poly1305_mul r h) + P1305 * x" by blast
qed

section \<open>The partial reduction\<close>

lemma carry26:
  fixes d :: u64
  assumes "unat d < 2 ^ 58"
  shows "unat (ucast (drop_bit 26 d) :: u32) = unat d div 2 ^ 26" "unat (ucast d AND 0x3ffffff :: u32) = unat d mod 2 ^ 26"
proof -
  have "unat d div 2 ^ 26 < 2 ^ 32" using assms by (intro less_mult_imp_div_less) simp
  then show "unat (ucast (drop_bit 26 d) :: u32) = unat d div 2 ^ 26" by (simp add: unat_ucast_mod unat_drop_bit)
  have "(2 :: nat) ^ 26 dvd 2 ^ 32" by (simp add: le_imp_power_dvd)
  then show "unat (ucast d AND 0x3ffffff :: u32) = unat d mod 2 ^ 26"
    unfolding unat_and_mask26 by (simp add: unat_ucast_mod mod_mod_cancel)
qed

lemma digit26:
  fixes n :: nat
  obtains q r where "n div 2 ^ 26 = q" "n mod 2 ^ 26 = r" "n = r + 2 ^ 26 * q" "r < 2 ^ 26"
  by (rule that [OF refl refl]) simp_all

lemma add_carry:
  fixes d :: u64 and c :: u32
  assumes "unat d \<le> 21 * product_bound"
  shows "unat (d + ucast c) = unat d + unat c" "unat (d + ucast c) < 2 ^ 58"
proof -
  have "unat c < 2 ^ 32" using unat_lt2p [of c] by simp
  then show "unat (d + ucast c) = unat d + unat c" "unat (d + ucast c) < 2 ^ 58"
    using assms unat_u64_plus [of d "ucast c"] by simp_all
qed

lemma poly1305_reduce_val:
  assumes "wide_below product_bound d"
  shows "\<exists>x. wide_val d = limbs_val (poly1305_reduce d) + P1305 * x" "limbs_inv (poly1305_reduce d)"
proof -
  obtain d0 d1 d2 d3 d4 where d: "d = (d0, d1, d2, d3, d4)" by (cases d)
  have b: "unat d0 \<le> 21 * product_bound" "unat d1 \<le> 21 * product_bound" "unat d2 \<le> 21 * product_bound" "unat d3 \<le> 21 * product_bound"
    "unat d4 \<le> 5 * product_bound" using assms by (simp_all add: d)
  define c0 where "c0 = (ucast (drop_bit 26 d0) :: u32)"
  define e1 where "e1 = d1 + ucast c0"
  define c1 where "c1 = (ucast (drop_bit 26 e1) :: u32)"
  define e2 where "e2 = d2 + ucast c1"
  define c2 where "c2 = (ucast (drop_bit 26 e2) :: u32)"
  define e3 where "e3 = d3 + ucast c2"
  define c3 where "c3 = (ucast (drop_bit 26 e3) :: u32)"
  define e4 where "e4 = d4 + ucast c3"
  define c4 where "c4 = (ucast (drop_bit 26 e4) :: u32)"
  define g0 where "g0 = (ucast d0 AND 0x3ffffff) + c4 * 5"
  note e = add_carry [OF b(2), of c0, folded e1_def] add_carry [OF b(3), of c1, folded e2_def] add_carry [OF b(4), of c2, folded e3_def]
    add_carry [of d4 c3, folded e4_def]
  have e4: "unat e4 = unat d4 + unat c3" "unat e4 < 2 ^ 58" using e(7,8) b(5) by simp_all
  have d0: "unat d0 < 2 ^ 58" using b(1) by simp
  note k = carry26 [OF d0, folded c0_def] carry26 [OF e(2), folded c1_def] carry26 [OF e(4), folded c2_def]
    carry26 [OF e(6), folded c3_def] carry26 [OF e4(2), folded c4_def]
  obtain q0 r0 where 0: "unat d0 div 2 ^ 26 = q0" "unat d0 mod 2 ^ 26 = r0" "unat d0 = r0 + 2 ^ 26 * q0" "r0 < 2 ^ 26" by (rule digit26)
  obtain q1 r1 where 1: "unat e1 div 2 ^ 26 = q1" "unat e1 mod 2 ^ 26 = r1" "unat e1 = r1 + 2 ^ 26 * q1" "r1 < 2 ^ 26" by (rule digit26)
  obtain q2 r2 where 2: "unat e2 div 2 ^ 26 = q2" "unat e2 mod 2 ^ 26 = r2" "unat e2 = r2 + 2 ^ 26 * q2" "r2 < 2 ^ 26" by (rule digit26)
  obtain q3 r3 where 3: "unat e3 div 2 ^ 26 = q3" "unat e3 mod 2 ^ 26 = r3" "unat e3 = r3 + 2 ^ 26 * q3" "r3 < 2 ^ 26" by (rule digit26)
  obtain q4 r4 where 4: "unat e4 div 2 ^ 26 = q4" "unat e4 mod 2 ^ 26 = r4" "unat e4 = r4 + 2 ^ 26 * q4" "r4 < 2 ^ 26" by (rule digit26)
  obtain q5 r5 where 5: "unat g0 div 2 ^ 26 = q5" "unat g0 mod 2 ^ 26 = r5" "unat g0 = r5 + 2 ^ 26 * q5" "r5 < 2 ^ 26" by (rule digit26)
  note k = k [unfolded 0(1,2) 1(1,2) 2(1,2) 3(1,2) 4(1,2)]
  have q4: "q4 \<le> 671089024" using e4(1) 4(3) b(5) unat_lt2p [of c3] by simp
  then have c4: "unat (c4 * 5) = 5 * q4" using unat_mult32 [of c4 5] k(9) by simp
  have g0: "unat g0 = r0 + 5 * q4" using unat_add32 [of "ucast d0 AND 0x3ffffff" "c4 * 5"] k(2) c4 q4 0(4) by (simp add: g0_def)
  then have q5: "q5 < 64" using 5(3) q4 0(4) by simp
  have h1: "unat ((ucast e1 AND 0x3ffffff) + drop_bit 26 g0) = r1 + q5"
    using unat_add32 [of "ucast e1 AND 0x3ffffff" "drop_bit 26 g0"] k(4) q5 1(4) 5(1) by (simp add: unat_drop_bit)
  have red: "poly1305_reduce d = (g0 AND 0x3ffffff, (ucast e1 AND 0x3ffffff) + drop_bit 26 g0, ucast e2 AND 0x3ffffff,
      ucast e3 AND 0x3ffffff, ucast e4 AND 0x3ffffff)"
    unfolding d poly1305_reduce_def prod.case Let_def g0_def c4_def e4_def c3_def e3_def c2_def e2_def c1_def e1_def c0_def by (rule refl)
  have h0: "unat (g0 AND 0x3ffffff) = r5" unfolding unat_and_mask26 by (rule 5(2))
  show "limbs_inv (poly1305_reduce d)"
    unfolding red limbs_inv.simps h0 h1 k using 0(4) 1(4) 2(4) 3(4) 4(4) 5(4) q5 by simp
  have val: "limbs_val (poly1305_reduce d) = r5 + 2 ^ 26 * (r1 + q5) + 2 ^ 52 * r2 + 2 ^ 78 * r3 + 2 ^ 104 * r4"
    unfolding red limbs_val.simps h0 h1 k by (rule refl)
  have "wide_val d = limbs_val (poly1305_reduce d) + P1305 * q4"
    unfolding val using 0(3) 1(3) 2(3) 3(3) 4(3) 5(3) g0 e(1,3,5) e4(1) k(1,3,5,7) by (simp add: d P1305_def)
  then show "\<exists>x. wide_val d = limbs_val (poly1305_reduce d) + P1305 * x" by blast
qed

section \<open>Blocks\<close>

lemma poly1305_block_val:
  assumes "length m = 16" "hibit = 0 \<or> hibit = push_bit 24 1" "limbs_inv h" "limbs_below (2 ^ 26) r"
  shows "limbs_inv (poly1305_reduce (poly1305_mul r (poly1305_add hibit m h)))"
    "limbs_val (poly1305_reduce (poly1305_mul r (poly1305_add hibit m h))) mod P1305 =
      (limbs_val h + (le_val m + 2 ^ 104 * unat hibit)) * limbs_val r mod P1305"
proof -
  let ?a = "poly1305_add hibit m h"
  note a = poly1305_add_val [OF assms(1-3)]
  note p = poly1305_mul_val [OF a(2) assms(4)]
  note q = poly1305_reduce_val [OF p(2)]
  show "limbs_inv (poly1305_reduce (poly1305_mul r ?a))" by (rule q(2))
  obtain x y where "limbs_val ?a * limbs_val r = wide_val (poly1305_mul r ?a) + P1305 * x"
    "wide_val (poly1305_mul r ?a) = limbs_val (poly1305_reduce (poly1305_mul r ?a)) + P1305 * y"
    using p(1) q(1) by blast
  then have "limbs_val ?a * limbs_val r mod P1305 = limbs_val (poly1305_reduce (poly1305_mul r ?a)) mod P1305" by simp
  then show "limbs_val (poly1305_reduce (poly1305_mul r ?a)) mod P1305 =
      (limbs_val h + (le_val m + 2 ^ 104 * unat hibit)) * limbs_val r mod P1305" by (simp only: a(1))
qed

lemma poly1305_add_take: "poly1305_add hibit (take 16 m) h = poly1305_add hibit m h"
  by (simp add: poly1305_add_def ReadLE32_def drop_take min_def split: prod.splits)

lemma eval_Nil [simp]: "poly1305_eval r a [] = a"
  by (simp add: poly1305_eval.simps)

lemma eval_append:
  "16 dvd length a \<Longrightarrow> poly1305_eval r x (a @ b) = poly1305_eval r (poly1305_eval r x a) b"
proof (induction "length a" arbitrary: a x rule: less_induct)
  case less
  show ?case
  proof (cases "a = []")
    case False
    then have l: "16 \<le> length a" using less.prems by (simp add: dvd_imp_le)
    have "16 dvd length (drop 16 a)" using less.prems l by (simp add: dvd_minus_self)
    moreover have "length (drop 16 a) < length a" using l by simp
    ultimately show ?thesis
      using less.hyps [of "drop 16 a"] l False by (subst (1 2) poly1305_eval.simps) (simp add: Let_def)
  qed simp
qed

lemma poly1305_loop_val:
  assumes "limbs_below (2 ^ 26) r"
  shows "16 dvd length m \<Longrightarrow> limbs_inv h \<Longrightarrow> limbs_inv (poly1305_blocks_loop (push_bit 24 1) r m h) \<and>
    limbs_val (poly1305_blocks_loop (push_bit 24 1) r m h) mod P1305 = poly1305_eval (limbs_val r) (limbs_val h mod P1305) m"
proof (induction "length m" arbitrary: m h rule: less_induct)
  case less
  show ?case
  proof (cases "m = []")
    case True
    then show ?thesis using less.prems by (simp add: poly1305_blocks_loop.simps)
  next
    case False
    then have l: "16 \<le> length m" using less.prems by (simp add: dvd_imp_le)
    let ?h = "poly1305_reduce (poly1305_mul r (poly1305_add (push_bit 24 1) m h))" and ?b = "take 16 m"
    have "length ?b = 16" using l by simp
    note b = poly1305_block_val [OF this _ less.prems(2) assms, of "push_bit 24 1", unfolded poly1305_add_take]
    have "2 ^ 104 * unat (push_bit 24 1 :: u32) = 2 ^ (8 * length ?b)" using l by (simp add: unat_push_bit min_def)
    then have v: "limbs_val ?h mod P1305 = (limbs_val h mod P1305 + le_val ?b + 2 ^ (8 * length ?b)) * limbs_val r mod P1305"
      using b(2) by (simp only: add.assoc mod_mult_left_eq mod_add_left_eq) (metis mod_add_left_eq mod_mult_left_eq)
    have "16 dvd length (drop 16 m)" using less.prems l by (simp add: dvd_minus_self)
    moreover have "length (drop 16 m) < length m" using l by simp
    ultimately have "limbs_inv (poly1305_blocks_loop (push_bit 24 1) r (drop 16 m) ?h) \<and>
        limbs_val (poly1305_blocks_loop (push_bit 24 1) r (drop 16 m) ?h) mod P1305 =
          poly1305_eval (limbs_val r) (limbs_val ?h mod P1305) (drop 16 m)"
      using less.hyps [of "drop 16 m" ?h] b(1) by simp
    then show ?thesis
      using l False v by (subst (1 2) poly1305_blocks_loop.simps, subst poly1305_eval.simps) (simp add: Let_def)
  qed
qed

section \<open>The key\<close>

abbreviation clamp :: nat where "clamp \<equiv> 0x0ffffffc0ffffffc0ffffffc0fffffff"

lemma clamp_limb:
  "(x AND clamp) div 2 ^ k mod 2 ^ 26 = x div 2 ^ k mod 2 ^ 26 AND clamp div 2 ^ k mod 2 ^ 26"
  by (simp only: drop_bit_eq_div [symmetric] take_bit_eq_mod [symmetric] drop_bit_and take_bit_and)

lemma and_less: "a < 2 ^ k \<Longrightarrow> a AND b < 2 ^ k" for a b :: nat
proof -
  assume "a < 2 ^ k"
  then have a: "a = take_bit k a" by (simp add: take_bit_nat_eq_self)
  have "a AND b = take_bit k (a AND b)" by (subst (1) a) (rule bit_eqI, auto simp: bit_and_iff bit_take_bit_iff)
  then show "a AND b < 2 ^ k" by (metis take_bit_nat_less_exp)
qed

lemma masked:
  "unat (w AND 0x3ffff03) = unat (w AND 0x3ffffff) AND 0x3ffff03" "unat (w AND 0x3ffc0ff) = unat (w AND 0x3ffffff) AND 0x3ffc0ff"
  "unat (w AND 0x3f03fff) = unat (w AND 0x3ffffff) AND 0x3f03fff" for w :: u32
  by (simp_all add: unsigned_and_eq and.assoc)

lemma poly1305_init_val:
  assumes "length key = 32"
  shows "limbs_below (2 ^ 26) (p_r (poly1305_init key))" "limbs_val (p_r (poly1305_init key)) = le_val (take 16 key) AND clamp"
proof -
  let ?k = "take 16 key" and ?x = "le_val (take 16 key)"
  have rd: "ReadLE32 (drop i key) = ReadLE32 (drop i ?k)" if "i \<le> 12" for i
    using that by (simp add: ReadLE32_def drop_take min_def)
  have l: "length ?k = 16" using assms by simp
  have f: "unat (ReadLE32 key AND 0x3ffffff) = ?x mod 2 ^ 26"
    "unat (drop_bit 2 (ReadLE32 (drop 3 key)) AND 0x3ffff03) = ?x div 2 ^ 26 mod 2 ^ 26 AND 0x3ffff03"
    "unat (drop_bit 4 (ReadLE32 (drop 6 key)) AND 0x3ffc0ff) = ?x div 2 ^ 52 mod 2 ^ 26 AND 0x3ffc0ff"
    "unat (drop_bit 6 (ReadLE32 (drop 9 key)) AND 0x3f03fff) = ?x div 2 ^ 78 mod 2 ^ 26 AND 0x3f03fff"
    using limb_val [of 0 ?k 0] limb_val [of 3 ?k 2] limb_val [of 6 ?k 4] limb_val [of 9 ?k 6] l rd [of 0] rd [of 3] rd [of 6] rd [of 9]
    by (simp_all add: masked)
  note g = high_limb [OF l, of 0]
  have f4: "unat (drop_bit 8 (ReadLE32 (drop 12 key)) AND 0x00fffff) = ?x div 2 ^ 104 AND 0xfffff"
    using g(1) rd [of 12] by (simp add: unsigned_and_eq)
  have g4: "?x div 2 ^ 104 < 2 ^ 26" using g(2) by simp
  show "limbs_below (2 ^ 26) (p_r (poly1305_init key))"
    unfolding poly1305_init_def poly1305_context.simps limbs_below.simps f f4 using g4 by (intro conjI and_less) simp_all
  have c: "(?x AND clamp) mod 2 ^ 26 = ?x mod 2 ^ 26 AND 0x3ffffff"
    "(?x AND clamp) div 2 ^ 26 mod 2 ^ 26 = ?x div 2 ^ 26 mod 2 ^ 26 AND 0x3ffff03"
    "(?x AND clamp) div 2 ^ 52 mod 2 ^ 26 = ?x div 2 ^ 52 mod 2 ^ 26 AND 0x3ffc0ff"
    "(?x AND clamp) div 2 ^ 78 mod 2 ^ 26 = ?x div 2 ^ 78 mod 2 ^ 26 AND 0x3f03fff"
    using clamp_limb [of ?x 0] clamp_limb [of ?x 26] clamp_limb [of ?x 52] clamp_limb [of ?x 78] by simp_all
  have c4: "(?x AND clamp) div 2 ^ 104 = ?x div 2 ^ 104 AND 0xfffff"
    using drop_bit_and [of 104 ?x clamp] by (simp add: drop_bit_eq_div)
  have "?x mod 2 ^ 26 AND 0x3ffffff = ?x mod 2 ^ 26"
    using take_bit_eq_mask [of 26 "?x mod 2 ^ 26"] by (simp add: take_bit_eq_mod mask_eq_exp_minus_1)
  with split_limbs [of "?x AND clamp"] show "limbs_val (p_r (poly1305_init key)) = ?x AND clamp"
    unfolding poly1305_init_def poly1305_context.simps limbs_val.simps f f4 c c4 by simp
qed

section \<open>The final reduction\<close>

lemma poly1305_full_carry_val:
  assumes "limbs_inv h"
  shows "\<exists>x. limbs_val h = limbs_val (poly1305_full_carry h) + P1305 * x" "limbs_below (2 ^ 26) (poly1305_full_carry h)"
proof -
  obtain h0 h1 h2 h3 h4 where h: "h = (h0, h1, h2, h3, h4)" by (cases h)
  have i: "unat h0 < 2 ^ 26" "unat h1 < 2 ^ 26 + 64" "unat h2 < 2 ^ 26" "unat h3 < 2 ^ 26" "unat h4 < 2 ^ 26"
    using assms by (simp_all add: h)
  define c1 where "c1 = drop_bit 26 h1"
  define e2 where "e2 = h2 + c1"
  define c2 where "c2 = drop_bit 26 e2"
  define e3 where "e3 = h3 + c2"
  define c3 where "c3 = drop_bit 26 e3"
  define e4 where "e4 = h4 + c3"
  define c4 where "c4 = drop_bit 26 e4"
  define g0 where "g0 = h0 + c4 * 5"
  obtain q1 r1 where 1: "unat h1 div 2 ^ 26 = q1" "unat h1 mod 2 ^ 26 = r1" "unat h1 = r1 + 2 ^ 26 * q1" "r1 < 2 ^ 26" by (rule digit26)
  obtain q2 r2 where 2: "unat e2 div 2 ^ 26 = q2" "unat e2 mod 2 ^ 26 = r2" "unat e2 = r2 + 2 ^ 26 * q2" "r2 < 2 ^ 26" by (rule digit26)
  obtain q3 r3 where 3: "unat e3 div 2 ^ 26 = q3" "unat e3 mod 2 ^ 26 = r3" "unat e3 = r3 + 2 ^ 26 * q3" "r3 < 2 ^ 26" by (rule digit26)
  obtain q4 r4 where 4: "unat e4 div 2 ^ 26 = q4" "unat e4 mod 2 ^ 26 = r4" "unat e4 = r4 + 2 ^ 26 * q4" "r4 < 2 ^ 26" by (rule digit26)
  obtain q5 r5 where 5: "unat g0 div 2 ^ 26 = q5" "unat g0 mod 2 ^ 26 = r5" "unat g0 = r5 + 2 ^ 26 * q5" "r5 < 2 ^ 26" by (rule digit26)
  have c: "unat c1 = q1" "unat c2 = q2" "unat c3 = q3" "unat c4 = q4" "unat (drop_bit 26 g0) = q5"
    unfolding c1_def c2_def c3_def c4_def unat_drop_bit 1(1) 2(1) 3(1) 4(1) 5(1) by (rule refl)+
  have q1: "q1 \<le> 1" using 1(3) i(2) by simp
  have e2: "unat e2 = unat h2 + q1" unfolding e2_def by (subst unat_add32) (use c(1) q1 i(3) in simp_all)
  have q2: "q2 \<le> 1" using 2(3) e2 q1 i(3) by simp
  have e3: "unat e3 = unat h3 + q2" unfolding e3_def by (subst unat_add32) (use c(2) q2 i(4) in simp_all)
  have q3: "q3 \<le> 1" using 3(3) e3 q2 i(4) by simp
  have e4: "unat e4 = unat h4 + q3" unfolding e4_def by (subst unat_add32) (use c(3) q3 i(5) in simp_all)
  have q4: "q4 \<le> 1" using 4(3) e4 q3 i(5) by simp
  have "unat (c4 * 5) = 5 * q4" using unat_mult32 [of c4 5] c(4) q4 by simp
  then have g0: "unat g0 = unat h0 + 5 * q4" using unat_add32 [of h0 "c4 * 5"] q4 i(1) by (simp add: g0_def)
  have q5: "q5 \<le> 1" using 5(3) g0 q4 i(1) by simp
  have "q5 = 0 \<or> r1 < 64"
  proof (rule disjCI)
    assume "\<not> r1 < 64"
    then have "q1 = 0" using 1(3) i(2) by simp
    then have "q2 = 0" using 2(3) e2 i(3) by simp
    then have "q3 = 0" using 3(3) e3 i(4) by simp
    then have "q4 = 0" using 4(3) e4 i(5) by simp
    then show "q5 = 0" using 5(3) g0 i(1) by simp
  qed
  then have l1: "r1 + q5 < 2 ^ 26" using q5 1(4) by auto
  have m: "unat (g0 AND 0x3ffffff) = r5" "unat (h1 AND 0x3ffffff) = r1" "unat (e2 AND 0x3ffffff) = r2" "unat (e3 AND 0x3ffffff) = r3"
    "unat (e4 AND 0x3ffffff) = r4"
    unfolding unat_and_mask26 by (rule 5(2) 1(2) 2(2) 3(2) 4(2))+
  have h1: "unat ((h1 AND 0x3ffffff) + drop_bit 26 g0) = r1 + q5"
    by (subst unat_add32) (use l1 m(2) c(5) in simp_all)
  have fc: "poly1305_full_carry h = (g0 AND 0x3ffffff, (h1 AND 0x3ffffff) + drop_bit 26 g0, e2 AND 0x3ffffff, e3 AND 0x3ffffff, e4 AND 0x3ffffff)"
    unfolding h poly1305_full_carry_def prod.case Let_def g0_def c4_def e4_def c3_def e3_def c2_def e2_def c1_def by (rule refl)
  show "limbs_below (2 ^ 26) (poly1305_full_carry h)"
    unfolding fc limbs_below.simps m h1 using l1 2(4) 3(4) 4(4) 5(4) by blast
  have val: "limbs_val (poly1305_full_carry h) = r5 + 2 ^ 26 * (r1 + q5) + 2 ^ 52 * r2 + 2 ^ 78 * r3 + 2 ^ 104 * r4"
    unfolding fc limbs_val.simps m h1 by (rule refl)
  have "limbs_val h = limbs_val (poly1305_full_carry h) + P1305 * q4"
    unfolding val using 1(3) 2(3) 3(3) 4(3) 5(3) g0 e2 e3 e4 by (simp add: h P1305_def)
  then show "\<exists>x. limbs_val h = limbs_val (poly1305_full_carry h) + P1305 * x" by blast
qed

text \<open>Adding 5 carries out of the top limb exactly when the number is at least the modulus.\<close>

lemma poly1305_select_val:
  assumes "limbs_below (2 ^ 26) h"
  shows "limbs_val (poly1305_select h) = limbs_val h mod P1305" "limbs_below (2 ^ 26) (poly1305_select h)"
proof -
  obtain h0 h1 h2 h3 h4 where h: "h = (h0, h1, h2, h3, h4)" by (cases h)
  have i: "unat h0 < 2 ^ 26" "unat h1 < 2 ^ 26" "unat h2 < 2 ^ 26" "unat h3 < 2 ^ 26" "unat h4 < 2 ^ 26"
    using assms by (simp_all add: h)
  define g0 where "g0 = h0 + 5"
  define g1 where "g1 = h1 + drop_bit 26 g0"
  define g2 where "g2 = h2 + drop_bit 26 g1"
  define g3 where "g3 = h3 + drop_bit 26 g2"
  define g4 where "g4 = h4 + drop_bit 26 g3 - push_bit 26 1"
  obtain q0 r0 where 0: "unat g0 div 2 ^ 26 = q0" "unat g0 mod 2 ^ 26 = r0" "unat g0 = r0 + 2 ^ 26 * q0" "r0 < 2 ^ 26" by (rule digit26)
  obtain q1 r1 where 1: "unat g1 div 2 ^ 26 = q1" "unat g1 mod 2 ^ 26 = r1" "unat g1 = r1 + 2 ^ 26 * q1" "r1 < 2 ^ 26" by (rule digit26)
  obtain q2 r2 where 2: "unat g2 div 2 ^ 26 = q2" "unat g2 mod 2 ^ 26 = r2" "unat g2 = r2 + 2 ^ 26 * q2" "r2 < 2 ^ 26" by (rule digit26)
  obtain q3 r3 where 3: "unat g3 div 2 ^ 26 = q3" "unat g3 mod 2 ^ 26 = r3" "unat g3 = r3 + 2 ^ 26 * q3" "r3 < 2 ^ 26" by (rule digit26)
  have g0: "unat g0 = unat h0 + 5" unfolding g0_def by (subst unat_add32) (use i(1) in simp_all)
  have q0: "q0 \<le> 1" using 0(3) g0 i(1) by simp
  have g1: "unat g1 = unat h1 + q0" unfolding g1_def by (subst unat_add32) (use q0 i(2) 0(1) in \<open>simp_all add: unat_drop_bit\<close>)
  have q1: "q1 \<le> 1" using 1(3) g1 q0 i(2) by simp
  have g2: "unat g2 = unat h2 + q1" unfolding g2_def by (subst unat_add32) (use q1 i(3) 1(1) in \<open>simp_all add: unat_drop_bit\<close>)
  have q2: "q2 \<le> 1" using 2(3) g2 q1 i(3) by simp
  have g3: "unat g3 = unat h3 + q2" unfolding g3_def by (subst unat_add32) (use q2 i(4) 2(1) in \<open>simp_all add: unat_drop_bit\<close>)
  have q3: "q3 \<le> 1" using 3(3) g3 q2 i(4) by simp
  have top: "unat (h4 + drop_bit 26 g3) = unat h4 + q3" by (subst unat_add32) (use q3 i(5) 3(1) in \<open>simp_all add: unat_drop_bit\<close>)
  have v: "limbs_val h + 5 = r0 + 2 ^ 26 * r1 + 2 ^ 52 * r2 + 2 ^ 78 * r3 + 2 ^ 104 * (unat h4 + q3)"
    using 0(3) 1(3) 2(3) 3(3) g0 g1 g2 g3 by (simp add: h)
  let ?m = "drop_bit 31 g4 - 1"
  have sel: "poly1305_select h = ((h0 AND NOT ?m) OR ((g0 AND 0x3ffffff) AND ?m), (h1 AND NOT ?m) OR ((g1 AND 0x3ffffff) AND ?m),
      (h2 AND NOT ?m) OR ((g2 AND 0x3ffffff) AND ?m), (h3 AND NOT ?m) OR ((g3 AND 0x3ffffff) AND ?m), (h4 AND NOT ?m) OR (g4 AND ?m))"
    unfolding h poly1305_select_def prod.case Let_def g4_def g3_def g2_def g1_def g0_def by (rule refl)
  have "limbs_val (poly1305_select h) = limbs_val h mod P1305 \<and> limbs_below (2 ^ 26) (poly1305_select h)"
  proof (cases "unat h4 + q3 < 2 ^ 26")
    case True
    have "unat g4 = 2 ^ 32 + (unat h4 + q3) - 2 ^ 26"
      unfolding g4_def using True top by (simp add: unat_sub_if' unat_push_bit)
    then have "unat (drop_bit 31 g4) = 1" using True by (simp add: unat_drop_bit)
    then have "drop_bit 31 g4 = 1" by (simp add: word_unat_eq_iff)
    then have "?m = 0" by simp
    then have "poly1305_select h = h" unfolding sel by (simp add: h)
    moreover have "limbs_val h < P1305" using v True 0(4) 1(4) 2(4) 3(4) by (simp add: P1305_def)
    ultimately show ?thesis using assms by simp
  next
    case False
    then have t: "unat h4 + q3 = 2 ^ 26" using q3 i(5) by simp
    then have "h4 + drop_bit 26 g3 = push_bit 26 1" using top by (simp add: word_unat_eq_iff unat_push_bit)
    then have "g4 = 0" by (simp add: g4_def)
    then have "poly1305_select h = (g0 AND 0x3ffffff, g1 AND 0x3ffffff, g2 AND 0x3ffffff, g3 AND 0x3ffffff, 0)" unfolding sel by simp
    moreover have m: "unat (g0 AND 0x3ffffff) = r0" "unat (g1 AND 0x3ffffff) = r1" "unat (g2 AND 0x3ffffff) = r2" "unat (g3 AND 0x3ffffff) = r3"
      unfolding unat_and_mask26 by (rule 0(2) 1(2) 2(2) 3(2))+
    moreover have "limbs_val h = r0 + 2 ^ 26 * r1 + 2 ^ 52 * r2 + 2 ^ 78 * r3 + P1305" using v t by (simp add: P1305_def)
    moreover have "r0 + 2 ^ 26 * r1 + 2 ^ 52 * r2 + 2 ^ 78 * r3 < P1305" using 0(4) 1(4) 2(4) 3(4) by (simp add: P1305_def)
    ultimately show ?thesis using 0(4) 1(4) 2(4) 3(4) by simp
  qed
  then show "limbs_val (poly1305_select h) = limbs_val h mod P1305" "limbs_below (2 ^ 26) (poly1305_select h)" by blast+
qed

section \<open>The tag\<close>

fun words_val :: "u32 \<times> u32 \<times> u32 \<times> u32 \<Rightarrow> nat" where
  "words_val (w0, w1, w2, w3) = unat w0 + 2 ^ 32 * unat w1 + 2 ^ 64 * unat w2 + 2 ^ 96 * unat w3"

lemma packed:
  fixes a b :: u32
  assumes "unat a < 2 ^ k" "k \<le> 32"
  shows "unat (a OR push_bit k b) = unat a + 2 ^ k * (unat b mod 2 ^ (32 - k))"
proof -
  have "(2 :: nat) ^ 32 = 2 ^ k * 2 ^ (32 - k)" using assms(2) by (simp add: power_add [symmetric])
  then have "unat (push_bit k b) = 2 ^ k * (unat b mod 2 ^ (32 - k))" by (simp add: unat_push_bit mult_mod_right)
  then show ?thesis using or_shifted [OF assms(1)] by (simp add: unsigned_or_eq)
qed

lemma split_at: "x = x mod 2 ^ k + 2 ^ k * (x div 2 ^ k)" for x :: nat
  by simp

lemma poly1305_pack_val:
  assumes "limbs_below (2 ^ 26) h"
  shows "words_val (poly1305_pack h) = limbs_val h mod 2 ^ 128"
proof -
  obtain h0 h1 h2 h3 h4 where h: "h = (h0, h1, h2, h3, h4)" by (cases h)
  have i: "unat h0 < 2 ^ 26" "unat h1 < 2 ^ 26" "unat h2 < 2 ^ 26" "unat h3 < 2 ^ 26" "unat h4 < 2 ^ 26"
    using assms by (simp_all add: h)
  have d: "unat (drop_bit 6 h1) = unat h1 div 2 ^ 6" "unat (drop_bit 12 h2) = unat h2 div 2 ^ 12" "unat (drop_bit 18 h3) = unat h3 div 2 ^ 18"
    by (rule unat_drop_bit)+
  have l: "unat h1 div 2 ^ 6 < 2 ^ 20" "unat h2 div 2 ^ 12 < 2 ^ 14" "unat h3 div 2 ^ 18 < 2 ^ 8"
    using i by (simp_all add: less_mult_imp_div_less)
  have w: "unat (h0 OR push_bit 26 h1) = unat h0 + 2 ^ 26 * (unat h1 mod 2 ^ 6)"
    "unat (drop_bit 6 h1 OR push_bit 20 h2) = unat h1 div 2 ^ 6 + 2 ^ 20 * (unat h2 mod 2 ^ 12)"
    "unat (drop_bit 12 h2 OR push_bit 14 h3) = unat h2 div 2 ^ 12 + 2 ^ 14 * (unat h3 mod 2 ^ 18)"
    "unat (drop_bit 18 h3 OR push_bit 8 h4) = unat h3 div 2 ^ 18 + 2 ^ 8 * (unat h4 mod 2 ^ 24)"
    using packed [of h0 26 h1] packed [of "drop_bit 6 h1" 20 h2] packed [of "drop_bit 12 h2" 14 h3] packed [of "drop_bit 18 h3" 8 h4] i l
    by (simp_all add: d)
  let ?low = "unat h0 + 2 ^ 26 * unat h1 + 2 ^ 52 * unat h2 + 2 ^ 78 * unat h3"
  have "?low < 2 ^ 104" using i by simp
  then have "limbs_val h mod 2 ^ 128 = ?low + 2 ^ 104 * (unat h4 mod 2 ^ 24)"
    using horner_mod [of ?low "2 ^ 104" "unat h4" "2 ^ 24"] by (simp add: h)
  moreover have "words_val (poly1305_pack h) = ?low + 2 ^ 104 * (unat h4 mod 2 ^ 24)"
  proof -
    obtain a1 b1 where 1: "unat h1 mod 2 ^ 6 = a1" "unat h1 div 2 ^ 6 = b1" "unat h1 = a1 + 2 ^ 6 * b1" using split_at [of _ 6] by blast
    obtain a2 b2 where 2: "unat h2 mod 2 ^ 12 = a2" "unat h2 div 2 ^ 12 = b2" "unat h2 = a2 + 2 ^ 12 * b2" using split_at [of _ 12] by blast
    obtain a3 b3 where 3: "unat h3 mod 2 ^ 18 = a3" "unat h3 div 2 ^ 18 = b3" "unat h3 = a3 + 2 ^ 18 * b3" using split_at [of _ 18] by blast
    show ?thesis
      unfolding h poly1305_pack_def prod.case words_val.simps w 1(1,2) 2(1,2) 3(1,2) using 1(3) 2(3) 3(3) by simp
  qed
  ultimately show ?thesis by simp
qed

lemma poly1305_add_pad_val: "words_val (poly1305_add_pad p w) = (words_val w + words_val p) mod 2 ^ 128"
proof -
  obtain p0 p1 p2 p3 where p: "p = (p0, p1, p2, p3)" by (cases p)
  obtain w0 w1 w2 w3 where w: "w = (w0, w1, w2, w3)" by (cases w)
  have b: "unat x < 2 ^ 32" for x :: u32 using unat_lt2p [of x] by simp
  define f0 where "f0 = (ucast w0 :: u64) + ucast p0"
  define f1 where "f1 = (ucast w1 :: u64) + ucast p1 + drop_bit 32 f0"
  define f2 where "f2 = (ucast w2 :: u64) + ucast p2 + drop_bit 32 f1"
  define f3 where "f3 = (ucast w3 :: u64) + ucast p3 + drop_bit 32 f2"
  have c: "unat (drop_bit 32 f) < 2 ^ 32" for f :: u64
    unfolding u64_digits using unat_lt2p [of f] by (intro less_mult_imp_div_less) simp
  have s: "unat (ucast x + ucast y + drop_bit 32 f :: u64) = unat x + unat y + unat (drop_bit 32 f)" for x y :: u32 and f :: u64
    using b [of x] b [of y] c [of f] by (simp add: unat_u64_plus)
  have "unat f0 = unat w0 + unat p0" unfolding f0_def using b [of w0] b [of p0] by (simp add: unat_u64_plus)
  moreover note s [of w1 p1 f0, folded f1_def] s [of w2 p2 f1, folded f2_def] s [of w3 p3 f2, folded f3_def]
  ultimately have f: "unat f0 = unat w0 + unat p0" "unat f1 = unat w1 + unat p1 + unat (drop_bit 32 f0)"
    "unat f2 = unat w2 + unat p2 + unat (drop_bit 32 f1)" "unat f3 = unat w3 + unat p3 + unat (drop_bit 32 f2)" by blast+
  have split: "unat f = unat (ucast f :: u32) + 2 ^ 32 * unat (drop_bit 32 f)" for f :: u64
    unfolding u64_digits by (rule split_at)
  have r: "words_val (poly1305_add_pad p w) = unat (ucast f0 :: u32) + 2 ^ 32 * unat (ucast f1 :: u32) + 2 ^ 64 * unat (ucast f2 :: u32) +
      2 ^ 96 * unat (ucast f3 :: u32)" (is "_ = ?r")
    unfolding p w poly1305_add_pad_def prod.case Let_def words_val.simps f3_def f2_def f1_def f0_def by (rule refl)
  have "words_val w + words_val p = ?r + 2 ^ 128 * unat (drop_bit 32 f3)"
    using f split [of f0] split [of f1] split [of f2] split [of f3] by (simp add: p w)
  moreover have "?r < 2 ^ 128" using b [of "ucast f0"] b [of "ucast f1"] b [of "ucast f2"] b [of "ucast f3"] by simp
  ultimately show ?thesis unfolding r by simp
qed

lemma le_val_WriteLE32: "le_val (WriteLE32 x) = unat x"
  using unat_le_word [of "WriteLE32 x", where 'a = 32] by (simp add: WriteLE32_def le_word_le_bytes)

lemma le_val_words:
  "le_val (WriteLE32 w0 @ WriteLE32 w1 @ WriteLE32 w2 @ WriteLE32 w3) = words_val (w0, w1, w2, w3)"
  by (simp add: le_val_append le_val_WriteLE32)

lemma poly1305_pad_val:
  assumes "length key = 32"
  shows "words_val (p_pad (poly1305_init key)) = le_val (drop 16 key)"
proof -
  let ?k = "drop 16 key" and ?w = "\<lambda>i. ReadLE32 (drop (16 + i) key)"
  have w: "WriteLE32 (?w i) = take 4 (drop i ?k)" if "i \<le> 12" for i
    using Write_Read(2) [of "take 4 (drop (16 + i) key)"] that assms by (simp add: ReadLE32_def add.commute)
  have "take 4 ?k @ take 4 (drop 4 ?k) @ take 4 (drop 8 ?k) @ take 4 (drop 12 ?k) = take 16 ?k"
    using take_add [of 4 12 ?k] take_add [of 4 8 "drop 4 ?k"] take_add [of 4 4 "drop 8 ?k"] by simp
  then have "WriteLE32 (?w 0) @ WriteLE32 (?w 4) @ WriteLE32 (?w 8) @ WriteLE32 (?w 12) = ?k" using w [of 0] w [of 4] w [of 8] w [of 12] assms by simp
  then show ?thesis using le_val_words [of "?w 0" "?w 4" "?w 8" "?w 12"] by (simp add: poly1305_init_def)
qed

section \<open>The buffer of partial blocks\<close>

lemma loop_append:
  "16 dvd length a \<Longrightarrow> poly1305_blocks_loop hibit r (a @ b) h = poly1305_blocks_loop hibit r b (poly1305_blocks_loop hibit r a h)"
proof (induction "length a" arbitrary: a h rule: less_induct)
  case less
  show ?case
  proof (cases "a = []")
    case True
    then show ?thesis by (simp add: poly1305_blocks_loop.simps [of hibit r "[]"])
  next
    case False
    then have l: "16 \<le> length a" using less.prems by (simp add: dvd_imp_le)
    have e: "poly1305_add hibit (a @ b) h = poly1305_add hibit a h"
      using l by (subst (1 2) poly1305_add_take [symmetric]) simp
    have "16 dvd length (drop 16 a)" using less.prems l by (simp add: dvd_minus_self)
    then show ?thesis
      using less.hyps [of "drop 16 a"] l e
      by (simp add: poly1305_blocks_loop.simps [of hibit r "a @ b"] poly1305_blocks_loop.simps [of hibit r a])
  qed
qed

text \<open>What a context holds after the message \<^verbatim>\<open>m\<close>.\<close>

definition absorbed :: "bytes \<Rightarrow> bytes \<Rightarrow> bytes \<Rightarrow> poly1305_context \<Rightarrow> bool" where
  "absorbed key full part st \<longleftrightarrow> 16 dvd length full \<and> length part < 16 \<and> p_leftover st = length part \<and> length (p_buffer st) = 16 \<and>
     take (length part) (p_buffer st) = part \<and> p_r st = p_r (poly1305_init key) \<and> p_pad st = p_pad (poly1305_init key) \<and> \<not> p_final st \<and>
     p_h st = poly1305_blocks_loop (push_bit 24 1) (p_r st) full (0, 0, 0, 0, 0)"

lemma absorb_holds:
  assumes "absorbed key full [] st"
  shows "\<exists>full' part. full @ m = full' @ part \<and> absorbed key full' part (poly1305_absorb m st)"
proof -
  let ?want = "length m - length m mod 16"
  have d: "16 dvd ?want" by (rule dvd_minus_mod)
  have f: "16 dvd length full" "p_leftover st = 0" "length (p_buffer st) = 16" "\<not> p_final st"
    "p_r st = p_r (poly1305_init key)" "p_pad st = p_pad (poly1305_init key)"
    "p_h st = poly1305_blocks_loop (push_bit 24 1) (p_r st) full (0, 0, 0, 0, 0)"
    using assms by (simp_all add: absorbed_def)
  let ?st = "poly1305_blocks (take ?want m) st" and ?rest = "drop ?want m"
  have r: "length ?rest < 16" by simp
  have h: "p_h ?st = poly1305_blocks_loop (push_bit 24 1) (p_r st) (full @ take ?want m) (0, 0, 0, 0, 0)"
    using f(4,7) loop_append [OF f(1)] by (simp add: poly1305_blocks_def)
  have same: "?st = st" if "length m < 16" using that by (simp add: poly1305_blocks_def poly1305_blocks_loop.simps [of _ _ "[]"])
  have e: "poly1305_absorb m st = (if ?rest = [] then ?st else ?st\<lparr>p_buffer := overwrite 0 ?rest (p_buffer ?st), p_leftover := length ?rest\<rparr>)"
    using same f(2) by (auto simp: poly1305_absorb_def Let_def poly1305_blocks_def)
  have "length (take ?want m) = ?want" by simp
  then have "16 dvd length (full @ take ?want m)" unfolding length_append using d f(1) by (metis dvd_add)
  then have "absorbed key (full @ take ?want m) ?rest (poly1305_absorb m st)"
    unfolding absorbed_def e by (intro conjI; assumption?) (use f r h in \<open>auto simp: overwrite_def poly1305_blocks_def\<close>)
  moreover have "full @ m = (full @ take ?want m) @ ?rest" by simp
  ultimately show ?thesis by blast
qed

lemma update_holds:
  assumes "absorbed key full part st"
  shows "\<exists>full' part'. full @ part @ m = full' @ part' \<and> absorbed key full' part' (poly1305_update m st)"
proof (cases "part = []")
  case True
  then have "poly1305_update m st = poly1305_absorb m st" using assms by (simp add: absorbed_def poly1305_update_def)
  then show ?thesis using absorb_holds [of key full st m] assms True by simp
next
  case False
  have f: "16 dvd length full" "length part < 16" "p_leftover st = length part" "length (p_buffer st) = 16"
    "take (length part) (p_buffer st) = part" "\<not> p_final st" "p_r st = p_r (poly1305_init key)" "p_pad st = p_pad (poly1305_init key)"
    "p_h st = poly1305_blocks_loop (push_bit 24 1) (p_r st) full (0, 0, 0, 0, 0)"
    using assms by (simp_all add: absorbed_def)
  let ?want = "min (16 - length part) (length m)"
  let ?buf = "overwrite (length part) (take ?want m) (p_buffer st)"
  let ?st = "st\<lparr>p_buffer := ?buf, p_leftover := length part + ?want\<rparr>"
  have buf: "take (length part + ?want) ?buf = part @ take ?want m" "length ?buf = 16" using f(2,4,5) by (simp_all add: overwrite_def)
  show ?thesis
  proof (cases "length part + ?want < 16")
    case True
    then have w: "take ?want m = m" "?want = length m" by simp_all
    have "poly1305_update m st = ?st" using False True f(3) by (simp add: poly1305_update_def Let_def)
    moreover have "absorbed key full (part @ m) ?st" using f buf True w by (simp add: absorbed_def)
    ultimately show ?thesis by auto
  next
    case full: False
    then have w: "length part + ?want = 16" using f(2) by simp
    then have b: "?buf = part @ take ?want m" using buf by simp
    let ?st' = "(poly1305_blocks ?buf ?st)\<lparr>p_leftover := 0\<rparr>"
    have "poly1305_update m st = poly1305_absorb (drop ?want m) ?st'" using False full f(3) by (simp add: poly1305_update_def Let_def)
    moreover have "absorbed key (full @ ?buf) [] ?st'"
      using f buf(2) loop_append [OF f(1)] by (simp add: absorbed_def poly1305_blocks_def dvd_add)
    from absorb_holds [OF this, of "drop ?want m"] obtain full' part' where
      "(full @ ?buf) @ drop ?want m = full' @ part'" "absorbed key full' part' (poly1305_absorb (drop ?want m) ?st')" by blast
    moreover have "(full @ ?buf) @ drop ?want m = full @ part @ m" unfolding b by simp
    ultimately show ?thesis by metis
  qed
qed

lemma updates_hold:
  "absorbed key full part st \<Longrightarrow> \<exists>full' part'. full @ part @ concat ms = full' @ part' \<and> absorbed key full' part' (fold poly1305_update ms st)"
proof (induction ms arbitrary: full part st)
  case (Cons m ms)
  obtain full1 part1 where 1: "full @ part @ m = full1 @ part1" "absorbed key full1 part1 (poly1305_update m st)"
    using update_holds [OF Cons.prems] by blast
  obtain full2 part2 where "full1 @ part1 @ concat ms = full2 @ part2" "absorbed key full2 part2 (fold poly1305_update ms (poly1305_update m st))"
    using Cons.IH [OF 1(2)] by blast
  then show ?case using 1(1) by (metis append.assoc concat.simps(2) fold_simps(2))
qed (auto intro: exI [of _ full])

section \<open>Properties\<close>

lemma loop_block: "length b = 16 \<Longrightarrow> poly1305_blocks_loop hibit r b h = poly1305_reduce (poly1305_mul r (poly1305_add hibit b h))"
  by (simp add: poly1305_blocks_loop.simps [of hibit r b] poly1305_blocks_loop.simps [of hibit r "[]"])

lemma step_mod: "(a mod p + b) * r mod p = (a + b) * r mod p" for a b r p :: nat
  by (metis mod_add_left_eq mod_mult_left_eq)

lemma eval_last:
  assumes "part \<noteq> []" "length part < 16"
  shows "poly1305_eval r a part = (a + (le_val part + 2 ^ (8 * length part))) * r mod P1305"
  using assms by (subst poly1305_eval.simps) (simp add: Let_def add.assoc)

lemma le_val_padded: "le_val (part @ [1] @ zeros n) = le_val part + 2 ^ (8 * length part)"
proof -
  have "le_val (zeros n) = 0" by (induction n) simp_all
  then show ?thesis by (simp add: le_val_append)
qed

lemma poly1305_pad_last_val:
  assumes "absorbed key full part st" "limbs_below (2 ^ 26) (p_r (poly1305_init key))"
  shows "limbs_inv (p_h (poly1305_pad_last st)) \<and> p_pad (poly1305_pad_last st) = p_pad (poly1305_init key) \<and>
    limbs_val (p_h (poly1305_pad_last st)) mod P1305 = poly1305_eval (limbs_val (p_r (poly1305_init key))) 0 (full @ part)"
proof -
  define r where "r = p_r (poly1305_init key)"
  define pad where "pad = p_pad (poly1305_init key)"
  have f: "16 dvd length full" "length part < 16" "p_leftover st = length part" "take (length part) (p_buffer st) = part"
    "p_r st = r" "p_pad st = pad" "p_h st = poly1305_blocks_loop (push_bit 24 1) r full (0, 0, 0, 0, 0)"
    using assms(1) unfolding absorbed_def r_def pad_def by simp_all
  have r: "limbs_below (2 ^ 26) r" using assms(2) unfolding r_def .
  have h: "limbs_inv (p_h st)" "limbs_val (p_h st) mod P1305 = poly1305_eval (limbs_val r) 0 full"
    using poly1305_loop_val [OF r f(1), of "(0, 0, 0, 0, 0)"] f(7) by simp_all
  have e: "poly1305_eval (limbs_val r) 0 (full @ part) = poly1305_eval (limbs_val r) (limbs_val (p_h st) mod P1305) part"
    unfolding h(2) by (rule eval_append [OF f(1)])
  have "limbs_inv (p_h (poly1305_pad_last st)) \<and> p_pad (poly1305_pad_last st) = pad \<and>
    limbs_val (p_h (poly1305_pad_last st)) mod P1305 = poly1305_eval (limbs_val r) 0 (full @ part)"
  proof (cases "part = []")
    case True
    then show ?thesis unfolding e using h(1) f(3,6) by (simp add: poly1305_pad_last_def)
  next
    case False
    let ?b = "part @ [1] @ zeros (15 - length part)"
    have b: "length ?b = 16" using f(2) by simp
    have p: "p_h (poly1305_pad_last st) = poly1305_reduce (poly1305_mul r (poly1305_add 0 ?b (p_h st)))" "p_pad (poly1305_pad_last st) = pad"
      using False f(3-6) unfolding loop_block [OF b, symmetric] by (simp_all add: poly1305_pad_last_def poly1305_blocks_def Let_def)
    note q = poly1305_block_val [OF b _ h(1) r, of 0]
    have "limbs_val (p_h (poly1305_pad_last st)) mod P1305 =
        (limbs_val (p_h st) + (le_val part + 2 ^ (8 * length part))) * limbs_val r mod P1305"
      unfolding p(1) using q(2) unfolding le_val_padded by simp
    also have "\<dots> = poly1305_eval (limbs_val r) 0 (full @ part)" unfolding e eval_last [OF False f(2)] step_mod by (rule refl)
    finally show ?thesis using q(1) p by simp
  qed
  then show ?thesis unfolding r_def pad_def .
qed

lemma poly1305_finish_val:
  assumes "limbs_inv (p_h (poly1305_pad_last st))"
  shows "le_val (fst (poly1305_finish st)) =
    (limbs_val (p_h (poly1305_pad_last st)) mod P1305 + words_val (p_pad (poly1305_pad_last st))) mod 2 ^ 128"
proof -
  let ?st = "poly1305_pad_last st" and ?h = "p_h (poly1305_pad_last st)"
  note c = poly1305_full_carry_val [OF assms]
  note s = poly1305_select_val [OF c(2)]
  have e: "limbs_val (poly1305_full_carry ?h) mod P1305 = limbs_val ?h mod P1305" using c(1) by auto
  have "le_val (fst (poly1305_finish st)) = words_val (poly1305_add_pad (p_pad ?st) (poly1305_pack (poly1305_select (poly1305_full_carry ?h))))"
    by (simp add: poly1305_finish_def Let_def split_beta le_val_words)
  then show ?thesis unfolding poly1305_add_pad_val poly1305_pack_val [OF s(2)] s(1) e by (simp add: mod_add_left_eq)
qed

text \<open>
  C7. The authenticator computes Poly1305: for every key of 32 bytes and every message, however it is cut
  into pieces, the tag is the little endian form of the message's polynomial at the clamped first half
  of the key modulo \<^verbatim>\<open>2 ^ 130 - 5\<close>, plus the second half of the key, modulo \<^verbatim>\<open>2 ^ 128\<close>.
\<close>

theorem poly1305_correct:
  assumes "length key = 32"
  shows "length (fst (poly1305_finish (fold poly1305_update ms (poly1305_init key)))) = 16 \<and>
    le_val (fst (poly1305_finish (fold poly1305_update ms (poly1305_init key)))) = poly1305_mac key (concat ms)"
proof -
  have "absorbed key [] [] (poly1305_init key)"
    by (simp add: absorbed_def poly1305_init_def poly1305_blocks_loop.simps)
  from updates_hold [OF this, of ms] obtain full part where
    m: "concat ms = full @ part" "absorbed key full part (fold poly1305_update ms (poly1305_init key))" by auto
  let ?st = "fold poly1305_update ms (poly1305_init key)"
  note p = poly1305_pad_last_val [OF m(2) poly1305_init_val(1) [OF assms], unfolded poly1305_init_val(2) [OF assms]]
  have "le_val (fst (poly1305_finish ?st)) =
      (poly1305_eval (le_val (take 16 key) AND clamp) 0 (concat ms) + le_val (drop 16 key)) mod 2 ^ 128"
    using poly1305_finish_val [OF p [THEN conjunct1]] p unfolding m(1) poly1305_pad_val [OF assms, symmetric] by metis
  then show ?thesis unfolding poly1305_mac_def Let_def by (intro conjI length_poly1305_finish)
qed

theorem poly1305_correct_witness:
  "le_val (fst (poly1305_finish (fold poly1305_update [[1, 2], [3]] (poly1305_init (replicate 32 7))))) =
    poly1305_mac (replicate 32 7) [1, 2, 3]"
  using poly1305_correct [of "replicate 32 7" "[[1, 2], [3]]"] by simp

end
