(* ===== verification/Sv2_Streams.thy ===== *)
theory Sv2_Streams
  imports Sv2_Prelude
begin

text \<open>
  The byte streams of \<^verbatim>\<open>src/src/streams.h\<close> and the serialization primitives of
  \<^verbatim>\<open>src/src/serialize.h\<close>. A \<^verbatim>\<open>DataStream\<close> is a record of its buffer and read position, with
  the clearing of a fully read buffer; positions are naturals and the 64-bit overflow check of
  \<^verbatim>\<open>CheckedAdd\<close> is written out. Writing appends, so the serialization of an object is the byte
  string it hands to \<^verbatim>\<open>write\<close>; reading is a function of the stream that returns a value and
  the advanced stream or throws.

  The locale \<^verbatim>\<open>codec\<close> is the contract between an object's two directions: what was written is
  read back, and what is read is what would be written. It is interpreted for the primitives
  here and for the consensus and Stratum v2 objects in the theories that define them.
\<close>

named_theorems reads_intro
named_theorems canon_intro

section \<open>Streams\<close>

record data_stream =
  vch :: bytes
  m_read_pos :: nat

type_synonym 'a reader = "data_stream \<Rightarrow> ('a \<times> data_stream) res"

definition CheckedAdd :: "nat \<Rightarrow> nat \<Rightarrow> nat option" where
  "CheckedAdd i j = (if 2 ^ 64 - 1 - i < j then None else Some (i + j))"

definition DataStream :: "bytes \<Rightarrow> data_stream" where
  "DataStream sp = \<lparr>vch = sp, m_read_pos = 0\<rparr>"

definition DataStream_size :: "data_stream \<Rightarrow> nat" where
  "DataStream_size s = length (vch s) - m_read_pos s"

definition DataStream_clear :: "data_stream \<Rightarrow> data_stream" where
  "DataStream_clear s = s\<lparr>vch := [], m_read_pos := 0\<rparr>"

definition DataStream_read :: "nat \<Rightarrow> bytes reader" where
  "DataStream_read n s =
     (if n = 0 then Ret ([], s)
      else case CheckedAdd (m_read_pos s) n of
        None \<Rightarrow> Throw (ios_failure ''DataStream::read(): end of data'')
      | Some next_read_pos \<Rightarrow>
          if next_read_pos > length (vch s)
          then Throw (ios_failure ''DataStream::read(): end of data'')
          else (let dst = take n (drop (m_read_pos s) (vch s)) in
            if next_read_pos = length (vch s) then Ret (dst, DataStream_clear s)
            else Ret (dst, s\<lparr>m_read_pos := next_read_pos\<rparr>)))"

definition DataStream_ignore :: "nat \<Rightarrow> unit reader" where
  "DataStream_ignore num_ignore s =
     (case CheckedAdd (m_read_pos s) num_ignore of
        None \<Rightarrow> Throw (ios_failure ''DataStream::ignore(): end of data'')
      | Some next_read_pos \<Rightarrow>
          if next_read_pos > length (vch s)
          then Throw (ios_failure ''DataStream::ignore(): end of data'')
          else if next_read_pos = length (vch s) then Ret ((), DataStream_clear s)
          else Ret ((), s\<lparr>m_read_pos := next_read_pos\<rparr>))"

definition DataStream_write :: "bytes \<Rightarrow> data_stream \<Rightarrow> data_stream" where
  "DataStream_write src s = s\<lparr>vch := vch s @ src\<rparr>"

definition DataStream_Rewind :: "nat option \<Rightarrow> data_stream \<Rightarrow> bool \<times> data_stream" where
  "DataStream_Rewind n s =
     (case n of
        None \<Rightarrow> (True, s\<lparr>m_read_pos := 0\<rparr>)
      | Some k \<Rightarrow> if k > m_read_pos s then (False, s)
                  else (True, s\<lparr>m_read_pos := m_read_pos s - k\<rparr>))"

definition DataStream_Compact :: "data_stream \<Rightarrow> data_stream" where
  "DataStream_Compact s = s\<lparr>vch := drop (m_read_pos s) (vch s), m_read_pos := 0\<rparr>"

record vector_writer =
  vchData :: bytes
  nPos :: nat

definition VectorWriter :: "bytes \<Rightarrow> nat \<Rightarrow> vector_writer" where
  "VectorWriter vchDataIn nPosIn =
     \<lparr>vchData = (if nPosIn > length vchDataIn
                 then vchDataIn @ zeros (nPosIn - length vchDataIn) else vchDataIn),
      nPos = nPosIn\<rparr>"

definition VectorWriter_write :: "bytes \<Rightarrow> vector_writer \<Rightarrow> vector_writer res" where
  "VectorWriter_write src w =
     res_bind (Assume (nPos w \<le> length (vchData w)) ''nPos <= vchData.size()'') (\<lambda>_.
     let nOverwrite = min (length src) (length (vchData w) - nPos w);
         d1 = (if nOverwrite \<noteq> 0 then overwrite (nPos w) (take nOverwrite src) (vchData w)
               else vchData w);
         d2 = (if nOverwrite < length src then d1 @ drop nOverwrite src else d1)
     in Ret (w\<lparr>vchData := d2, nPos := nPos w + length src\<rparr>))"

definition SpanReader_read :: "nat \<Rightarrow> bytes \<Rightarrow> (bytes \<times> bytes) res" where
  "SpanReader_read n m_data =
     (if n = 0 then Ret ([], m_data)
      else if n > length m_data
      then Throw (ios_failure ''SpanReader::read(): end of data'')
      else Ret (take n m_data, drop n m_data))"

section \<open>Composing reads\<close>

definition rd_return :: "'a \<Rightarrow> 'a reader" where
  "rd_return x s = Ret (x, s)"

definition rd_bind :: "'a reader \<Rightarrow> ('a \<Rightarrow> 'b reader) \<Rightarrow> 'b reader" where
  "rd_bind m k s = res_bind (m s) (\<lambda>(x, s'). k x s')"

definition rd_throw :: "exn \<Rightarrow> 'a reader" where
  "rd_throw e s = Throw e"

section \<open>Integers, CompactSize, strings and vectors\<close>

definition ser_writedata8 :: "u8 \<Rightarrow> bytes" where "ser_writedata8 obj = [obj]"
definition ser_writedata16 :: "u16 \<Rightarrow> bytes" where "ser_writedata16 obj = WriteLE16 obj"
definition ser_writedata32 :: "u32 \<Rightarrow> bytes" where "ser_writedata32 obj = WriteLE32 obj"
definition ser_writedata64 :: "u64 \<Rightarrow> bytes" where "ser_writedata64 obj = WriteLE64 obj"

definition ser_readdata8 :: "u8 reader" where
  "ser_readdata8 = rd_bind (DataStream_read 1) (\<lambda>b. rd_return (hd b))"
definition ser_readdata16 :: "u16 reader" where
  "ser_readdata16 = rd_bind (DataStream_read 2) (\<lambda>b. rd_return (ReadLE16 b))"
definition ser_readdata32 :: "u32 reader" where
  "ser_readdata32 = rd_bind (DataStream_read 4) (\<lambda>b. rd_return (ReadLE32 b))"
definition ser_readdata64 :: "u64 reader" where
  "ser_readdata64 = rd_bind (DataStream_read 8) (\<lambda>b. rd_return (ReadLE64 b))"

definition Serialize_bool :: "bool \<Rightarrow> bytes" where
  "Serialize_bool a = ser_writedata8 (if a then 1 else 0)"

definition Unserialize_bool :: "bool reader" where
  "Unserialize_bool = rd_bind ser_readdata8 (\<lambda>f. rd_return (f \<noteq> 0))"

definition MAX_SIZE :: u64 where "MAX_SIZE = 0x02000000"

definition GetSizeOfCompactSize :: "u64 \<Rightarrow> nat" where
  "GetSizeOfCompactSize nSize =
     (if nSize < 253 then 1 else if nSize \<le> 0xFFFF then 1 + 2
      else if nSize \<le> 0xFFFFFFFF then 1 + 4 else 1 + 8)"

definition WriteCompactSize :: "u64 \<Rightarrow> bytes" where
  "WriteCompactSize nSize =
     (if nSize < 253 then ser_writedata8 (ucast nSize)
      else if nSize \<le> 0xFFFF then ser_writedata8 253 @ ser_writedata16 (ucast nSize)
      else if nSize \<le> 0xFFFFFFFF then ser_writedata8 254 @ ser_writedata32 (ucast nSize)
      else ser_writedata8 255 @ ser_writedata64 nSize)"

definition non_canonical :: "u64 reader" where
  "non_canonical = rd_throw (ios_failure ''non-canonical ReadCompactSize()'')"

definition ReadCompactSize_body :: "u8 \<Rightarrow> u64 reader" where
  "ReadCompactSize_body chSize =
     (if chSize < 253 then rd_return (ucast chSize)
      else if chSize = 253 then
        rd_bind ser_readdata16 (\<lambda>v.
          if (ucast v :: u64) < 253 then non_canonical else rd_return (ucast v))
      else if chSize = 254 then
        rd_bind ser_readdata32 (\<lambda>v.
          if (ucast v :: u64) < 0x10000 then non_canonical else rd_return (ucast v))
      else
        rd_bind ser_readdata64 (\<lambda>v.
          if v < 0x100000000 then non_canonical else rd_return v))"

definition ReadCompactSize :: "bool \<Rightarrow> u64 reader" where
  "ReadCompactSize range_check =
     rd_bind ser_readdata8 (\<lambda>chSize.
     rd_bind (ReadCompactSize_body chSize) (\<lambda>nSizeRet.
       if range_check \<and> nSizeRet > MAX_SIZE
       then rd_throw (ios_failure ''ReadCompactSize(): size too large'')
       else rd_return nSizeRet))"

definition Serialize_string :: "bytes \<Rightarrow> bytes" where
  "Serialize_string str = WriteCompactSize (of_nat (length str)) @ str"

definition Unserialize_string :: "bytes reader" where
  "Unserialize_string =
     rd_bind (ReadCompactSize True) (\<lambda>n.
       let nSize = unat (ucast n :: u32) in
       if nSize \<noteq> 0 then DataStream_read nSize else rd_return [])"

text \<open>Byte vectors are read in blocks of at most 5000000 bytes.\<close>

fun read_blocks :: "nat \<Rightarrow> bytes reader" where
  "read_blocks n =
     (if n = 0 then rd_return []
      else let blk = min n (Suc 4999999) in
        rd_bind (DataStream_read blk) (\<lambda>b.
        rd_bind (read_blocks (n - blk)) (\<lambda>r. rd_return (b @ r))))"

declare read_blocks.simps [simp del]

definition Serialize_bytevec :: "bytes \<Rightarrow> bytes" where
  "Serialize_bytevec v = WriteCompactSize (of_nat (length v)) @ v"

definition Unserialize_bytevec :: "bytes reader" where
  "Unserialize_bytevec =
     rd_bind (ReadCompactSize True) (\<lambda>n. read_blocks (unat (ucast n :: u32)))"

primrec Unser_elems :: "'a reader \<Rightarrow> nat \<Rightarrow> 'a list reader" where
  "Unser_elems un 0 = rd_return []"
| "Unser_elems un (Suc n) =
     rd_bind un (\<lambda>x. rd_bind (Unser_elems un n) (\<lambda>xs. rd_return (x # xs)))"

definition VectorFormatter_Ser :: "('a \<Rightarrow> bytes) \<Rightarrow> 'a list \<Rightarrow> bytes" where
  "VectorFormatter_Ser ser v = WriteCompactSize (of_nat (length v)) @ concat (map ser v)"

definition VectorFormatter_Unser :: "'a reader \<Rightarrow> 'a list reader" where
  "VectorFormatter_Unser un =
     rd_bind (ReadCompactSize True) (\<lambda>size. Unser_elems un (unat size))"

section \<open>What a stream still holds\<close>

text \<open>
  The abstract view of a stream is the list of its unread bytes; \<^verbatim>\<open>ds_wf\<close> is the class
  invariant: the read position is inside the buffer, whose size fits \<^verbatim>\<open>size_t\<close>.
\<close>

definition ds_rest :: "data_stream \<Rightarrow> bytes" where
  "ds_rest s = drop (m_read_pos s) (vch s)"

definition ds_wf :: "data_stream \<Rightarrow> bool" where
  "ds_wf s \<longleftrightarrow> m_read_pos s \<le> length (vch s) \<and> length (vch s) < 2 ^ 64"

definition reads :: "'a reader \<Rightarrow> bytes \<Rightarrow> 'a \<Rightarrow> bool" where
  "reads m bs x \<longleftrightarrow>
     (\<forall>s r. ds_wf s \<longrightarrow> ds_rest s = bs @ r \<longrightarrow>
        (\<exists>s'. m s = Ret (x, s') \<and> ds_wf s' \<and> ds_rest s' = r))"

definition canon :: "'a reader \<Rightarrow> ('a \<Rightarrow> bytes) \<Rightarrow> bool" where
  "canon m ser \<longleftrightarrow>
     (\<forall>s x s'. ds_wf s \<longrightarrow> m s = Ret (x, s') \<longrightarrow> ds_wf s' \<and> ds_rest s = ser x @ ds_rest s')"

lemma ds_wf_DataStream [simp]: "ds_wf (DataStream b) \<longleftrightarrow> length b < 2 ^ 64"
  by (simp add: ds_wf_def DataStream_def)

lemma ds_rest_DataStream [simp]: "ds_rest (DataStream b) = b"
  by (simp add: ds_rest_def DataStream_def)

lemma ds_wf_clear [simp]: "ds_wf (DataStream_clear s)" "ds_rest (DataStream_clear s) = []"
  by (simp_all add: ds_wf_def ds_rest_def DataStream_clear_def)

lemma DataStream_size_rest: "DataStream_size s = length (ds_rest s)"
  by (simp add: DataStream_size_def ds_rest_def)

lemma CheckedAdd_fits:
  "i \<le> l \<Longrightarrow> l < 2 ^ 64 \<Longrightarrow> i + j \<le> l \<Longrightarrow> CheckedAdd i j = Some (i + j)"
  by (simp add: CheckedAdd_def)

lemma DataStream_read_ok:
  assumes "ds_wf s" and "n \<le> length (ds_rest s)"
  obtains s' where "DataStream_read n s = Ret (take n (ds_rest s), s')"
    and "ds_wf s'" and "ds_rest s' = drop n (ds_rest s)"
proof (cases "n = 0")
  case True
  then show ?thesis using assms that by (auto simp: DataStream_read_def)
next
  case False
  have le: "m_read_pos s + n \<le> length (vch s)"
    using assms by (auto simp: ds_wf_def ds_rest_def)
  then have c: "CheckedAdd (m_read_pos s) n = Some (m_read_pos s + n)"
    using assms by (intro CheckedAdd_fits [of _ "length (vch s)"]) (auto simp: ds_wf_def)
  show ?thesis
    using assms le that [of "DataStream_clear s"] that [of "s\<lparr>m_read_pos := m_read_pos s + n\<rparr>"]
    by (cases "m_read_pos s + n = length (vch s)")
      (auto simp: DataStream_read_def c False Let_def ds_rest_def [of s] ds_rest_def [of "_\<lparr>m_read_pos := _\<rparr>"]
        ds_wf_def [of s] ds_wf_def [of "_\<lparr>m_read_pos := _\<rparr>"] add.commute)
qed

lemma DataStream_read_short:
  assumes "ds_wf s" and "length (ds_rest s) < n"
  shows "DataStream_read n s = Throw (ios_failure ''DataStream::read(): end of data'')"
  using assms by (auto simp: DataStream_read_def ds_wf_def ds_rest_def CheckedAdd_def)

lemma DataStream_ignore_read:
  assumes "ds_wf s"
  shows "DataStream_ignore n s = Ret ((), s') \<longleftrightarrow>
           n \<le> length (ds_rest s) \<and>
           s' = (if n = length (ds_rest s) then DataStream_clear s
                 else s\<lparr>m_read_pos := m_read_pos s + n\<rparr>)"
  using assms by (auto simp: DataStream_ignore_def ds_wf_def ds_rest_def CheckedAdd_def)

section \<open>Reading back what was written\<close>

lemma readsD:
  assumes "reads m bs x" "ds_wf s" "ds_rest s = bs @ r"
  obtains s' where "m s = Ret (x, s')" "ds_wf s'" "ds_rest s' = r"
  using assms unfolding reads_def by blast

lemma reads_DataStream:
  assumes "reads m bs x" "length bs < 2 ^ 64"
  shows "\<exists>s'. m (DataStream bs) = Ret (x, s') \<and> ds_rest s' = []"
  by (rule readsD [OF assms(1), of "DataStream bs" "[]"]) (use assms(2) in auto)

lemma reads_return [reads_intro]: "reads (rd_return x) [] x"
  by (simp add: reads_def rd_return_def)

lemma reads_bind [reads_intro]:
  assumes "reads m b x" "reads (k x) c y" "bs = b @ c"
  shows "reads (rd_bind m k) bs y"
  unfolding reads_def
proof (intro allI impI)
  fix s r assume "ds_wf s" "ds_rest s = bs @ r"
  then obtain s' where s': "m s = Ret (x, s')" "ds_wf s'" "ds_rest s' = c @ r"
    using assms by (auto elim: readsD [where r = "c @ r"])
  show "\<exists>s'. rd_bind m k s = Ret (y, s') \<and> ds_wf s' \<and> ds_rest s' = r"
    using readsD [OF assms(2) s'(2,3)] s'(1) by (metis (no_types, lifting) rd_bind_def res_bind.simps(1) case_prod_conv)
qed

lemma reads_read [reads_intro]: "n = length b \<Longrightarrow> reads (DataStream_read n) b b"
  unfolding reads_def
proof (intro allI impI)
  fix s r assume "n = length b" "ds_wf s" "ds_rest s = b @ r"
  then show "\<exists>s'. DataStream_read n s = Ret (b, s') \<and> ds_wf s' \<and> ds_rest s' = r"
    using DataStream_read_ok [of s n] by fastforce
qed

lemma reads_ignore [reads_intro]: "n = length b \<Longrightarrow> reads (DataStream_ignore n) b ()"
  unfolding reads_def
proof (intro allI impI)
  fix s r assume *: "n = length b" "ds_wf s" "ds_rest s = b @ r"
  let ?s' = "if n = length (ds_rest s) then DataStream_clear s
             else s\<lparr>m_read_pos := m_read_pos s + n\<rparr>"
  have len: "length (ds_rest s) = length (vch s) - m_read_pos s"
    by (simp add: ds_rest_def)
  have "DataStream_ignore n s = Ret ((), ?s')" using * by (simp add: DataStream_ignore_read)
  moreover have "ds_wf ?s'" using * len by (auto simp: ds_wf_def DataStream_clear_def)
  moreover have "drop (m_read_pos s + n) (vch s) = drop n (ds_rest s)"
    by (simp add: ds_rest_def add.commute)
  then have "ds_rest ?s' = r" using * by (auto simp: ds_rest_def [of "_\<lparr>m_read_pos := _\<rparr>"])
  ultimately show "\<exists>s'. DataStream_ignore n s = Ret ((), s') \<and> ds_wf s' \<and> ds_rest s' = r"
    by blast
qed

lemma reads_fixed:
  "n = length b \<Longrightarrow> f b = x \<Longrightarrow> reads (rd_bind (DataStream_read n) (\<lambda>b. rd_return (f b))) b x"
  by (rule reads_bind [OF reads_read, where c = "[]"]) (auto intro: reads_return)

lemma reads_data [reads_intro]:
  "reads ser_readdata8 (ser_writedata8 x1) x1"
  "reads ser_readdata16 (ser_writedata16 x2) x2"
  "reads ser_readdata32 (ser_writedata32 x4) x4"
  "reads ser_readdata64 (ser_writedata64 x8) x8"
  unfolding ser_readdata8_def ser_readdata16_def ser_readdata32_def ser_readdata64_def
    ser_writedata8_def ser_writedata16_def ser_writedata32_def ser_writedata64_def
  by (simp_all add: reads_fixed)

lemma reads_bool [reads_intro]: "reads Unserialize_bool (Serialize_bool b) b"
  unfolding Unserialize_bool_def Serialize_bool_def
  by (rule reads_bind [OF reads_data(1), where c = "[]"]) (auto intro: reads_return)

lemma reads_if [reads_intro]:
  "(c \<Longrightarrow> reads m b x) \<Longrightarrow> (\<not> c \<Longrightarrow> reads n b x) \<Longrightarrow> reads (if c then m else n) b x"
  by simp

section \<open>Reading only what would have been written\<close>

lemma canonD:
  "canon m ser \<Longrightarrow> ds_wf s \<Longrightarrow> m s = Ret (x, s') \<Longrightarrow> ds_wf s' \<and> ds_rest s = ser x @ ds_rest s'"
  unfolding canon_def by blast

lemma canon_read [canon_intro]: "canon (DataStream_read n) id"
  unfolding canon_def
proof (intro allI impI)
  fix s x s' assume wf: "ds_wf s" and r: "DataStream_read n s = Ret (x, s')"
  then have "n \<le> length (ds_rest s)" using DataStream_read_short [OF wf, of n] by fastforce
  then show "ds_wf s' \<and> ds_rest s = id x @ ds_rest s'"
    using DataStream_read_ok [OF wf, of n] r by (metis append_take_drop_id id_apply prod.inject res.inject(1))
qed

lemma DataStream_read_length:
  "ds_wf s \<Longrightarrow> DataStream_read n s = Ret (x, s') \<Longrightarrow> length x = n"
  by (auto simp: DataStream_read_def CheckedAdd_def Let_def ds_wf_def split: if_splits option.splits)

lemma rd_bind_Ret:
  "rd_bind m k s = Ret (y, s'') \<longleftrightarrow> (\<exists>x s'. m s = Ret (x, s') \<and> k x s' = Ret (y, s''))"
  by (auto simp: rd_bind_def res_simps split: prod.splits)

lemma rd_return_Ret [simp]: "rd_return x s = Ret (y, s') \<longleftrightarrow> y = x \<and> s' = s"
  by (auto simp: rd_return_def)

lemma rd_throw_Ret [simp]: "rd_throw e s \<noteq> Ret y"
  by (simp add: rd_throw_def)

lemma canon_fixed:
  assumes "\<And>b. length b = n \<Longrightarrow> g (f b) = b"
  shows "canon (rd_bind (DataStream_read n) (\<lambda>b. rd_return (f b))) g"
  unfolding canon_def rd_bind_Ret
  using assms canonD [OF canon_read] DataStream_read_length by fastforce

lemma canon_data [canon_intro]:
  "canon ser_readdata8 ser_writedata8" "canon ser_readdata16 ser_writedata16"
  "canon ser_readdata32 ser_writedata32" "canon ser_readdata64 ser_writedata64"
  unfolding ser_readdata8_def ser_readdata16_def ser_readdata32_def ser_readdata64_def
  by (rule canon_fixed;
      auto simp: ser_writedata8_def ser_writedata16_def ser_writedata32_def ser_writedata64_def
        byte_simps length_Suc_conv)+

section \<open>CompactSize\<close>

lemma u64_ucast_small:
  "x < 253 \<Longrightarrow> (ucast (ucast x :: u8) :: u64) = x"
  "x < 253 \<Longrightarrow> (ucast x :: u8) < 253"
  "x \<le> 0xFFFF \<Longrightarrow> (ucast (ucast x :: u16) :: u64) = x"
  "x \<le> 0xFFFFFFFF \<Longrightarrow> (ucast (ucast x :: u32) :: u64) = x"
  for x :: u64
  by (simp_all add: word_less_nat_alt word_le_nat_alt ucast_ucast_small unat_ucast_mod)

lemma reads_CompactSize:
  assumes "\<not> range_check \<or> n \<le> MAX_SIZE"
  shows "reads (ReadCompactSize range_check) (WriteCompactSize n) n"
proof -
  have pre: "reads (ReadCompactSize range_check) (ser_writedata8 c @ b) n"
    if "reads (ReadCompactSize_body c) b n" for c b
    unfolding ReadCompactSize_def using assms
    by (auto intro!: reads_bind [OF reads_data(1)] reads_bind [OF that, where c = "[]"] reads_return)
  note small = u64_ucast_small [of n]
  consider "n < 253" | "\<not> n < 253" "n \<le> 0xFFFF" | "\<not> n < 253" "\<not> n \<le> 0xFFFF" "n \<le> 0xFFFFFFFF"
    | "\<not> n < 253" "\<not> n \<le> 0xFFFF" "\<not> n \<le> 0xFFFFFFFF" by blast
  then show ?thesis
  proof cases
    case 1
    then show ?thesis using small pre [of "ucast n" "[]"]
      by (simp add: WriteCompactSize_def ReadCompactSize_body_def reads_return)
  next
    case 2
    then show ?thesis using small
      by (auto simp: WriteCompactSize_def ReadCompactSize_body_def
          intro!: pre reads_bind [OF reads_data(2) [of "ucast n"], where c = "[]"] reads_return)
  next
    case 3
    then have "\<not> n < 0x10000" by (simp add: word_less_nat_alt word_le_nat_alt)
    with 3 show ?thesis using small
      by (auto simp: WriteCompactSize_def ReadCompactSize_body_def
          intro!: pre reads_bind [OF reads_data(3) [of "ucast n"], where c = "[]"] reads_return)
  next
    case 4
    then have "\<not> n < 0x100000000" by (simp add: word_less_nat_alt word_le_nat_alt)
    with 4 show ?thesis
      by (auto simp: WriteCompactSize_def ReadCompactSize_body_def
          intro!: pre reads_bind [OF reads_data(4) [of n], where c = "[]"] reads_return)
  qed
qed

lemma WriteCompactSize_tags:
  "(c :: u8) < 253 \<Longrightarrow> WriteCompactSize (ucast c) = ser_writedata8 c"
  "\<not> (ucast v2 :: u64) < 253 \<Longrightarrow>
     WriteCompactSize (ucast v2) = ser_writedata8 253 @ ser_writedata16 v2"
  "\<not> (ucast v4 :: u64) < 0x10000 \<Longrightarrow>
     WriteCompactSize (ucast v4) = ser_writedata8 254 @ ser_writedata32 v4"
  "\<not> v8 < 0x100000000 \<Longrightarrow> WriteCompactSize v8 = ser_writedata8 255 @ ser_writedata64 v8"
  using unat_lt2p [of c] unat_lt2p [of v2] unat_lt2p [of v4]
  by (auto simp: WriteCompactSize_def word_less_nat_alt word_le_nat_alt unat_ucast_mod
      word_unat_eq_iff intro!: arg_cong [where f = ser_writedata8] arg_cong [where f = ser_writedata16] arg_cong [where f = ser_writedata32])

lemma u8_tag_cases: "\<not> (c :: u8) < 253 \<Longrightarrow> c \<noteq> 253 \<Longrightarrow> c \<noteq> 254 \<Longrightarrow> c = 255"
  using unat_lt2p [of c] by (auto simp: word_less_nat_alt word_unat_eq_iff)

lemma canon_CompactSize [canon_intro]: "canon (ReadCompactSize range_check) WriteCompactSize"
  unfolding canon_def
proof (intro allI impI)
  fix s n s' assume wf: "ds_wf s" and r: "ReadCompactSize range_check s = Ret (n, s')"
  then obtain c s1 where c: "ser_readdata8 s = Ret (c, s1)"
    and b: "ReadCompactSize_body c s1 = Ret (n, s')"
    by (auto simp: ReadCompactSize_def rd_bind_Ret split: if_splits)
  have s: "ds_wf s1" "ds_rest s = ser_writedata8 c @ ds_rest s1"
    using canonD [OF canon_data(1) wf c] by auto
  note d = canonD [OF canon_data(2) s(1)] canonD [OF canon_data(3) s(1)] canonD [OF canon_data(4) s(1)]
  show "ds_wf s' \<and> ds_rest s = WriteCompactSize n @ ds_rest s'"
    using b s d u8_tag_cases [of c] WriteCompactSize_tags
    by (auto simp: ReadCompactSize_body_def rd_bind_Ret non_canonical_def split: if_splits)
qed

lemma length_WriteCompactSize: "length (WriteCompactSize n) = GetSizeOfCompactSize n"
  by (simp add: WriteCompactSize_def GetSizeOfCompactSize_def ser_writedata8_def
      ser_writedata16_def ser_writedata32_def ser_writedata64_def)

lemma ReadCompactSize_MAX_SIZE: "ReadCompactSize True s = Ret (n, s') \<Longrightarrow> n \<le> MAX_SIZE"
  by (auto simp: ReadCompactSize_def rd_bind_Ret not_less split: if_splits)

section \<open>Strings and vectors\<close>

lemma unat_u32_of_size:
  assumes "n \<le> MAX_SIZE" shows "unat (ucast n :: u32) = unat n"
  using assms by (simp add: MAX_SIZE_def word_le_nat_alt unat_ucast_mod)

lemma of_nat_size:
  assumes "n \<le> unat MAX_SIZE"
  shows "(of_nat n :: u64) \<le> MAX_SIZE" "unat (of_nat n :: u64) = n"
    "unat (ucast (of_nat n :: u64) :: u32) = n"
proof -
  have "n < 2 ^ 64" using assms by (simp add: MAX_SIZE_def)
  then show u: "unat (of_nat n :: u64) = n" by (simp add: unat_of_nat_eq)
  then show "(of_nat n :: u64) \<le> MAX_SIZE" using assms by (simp add: word_le_nat_alt)
  then show "unat (ucast (of_nat n :: u64) :: u32) = n" using u by (simp add: unat_u32_of_size)
qed

lemma reads_blocks: "reads (read_blocks (length b)) b b"
proof (induction "length b" arbitrary: b rule: less_induct)
  case less
  let ?blk = "min (length b) (Suc 4999999)"
  show ?case
  proof (cases "b = []")
    case True
    then show ?thesis by (simp add: read_blocks.simps reads_return)
  next
    case False
    have "reads (read_blocks (length (drop ?blk b))) (drop ?blk b) (drop ?blk b)"
      using False by (intro less) auto
    then have IH: "reads (read_blocks (length b - ?blk)) (drop ?blk b) (drop ?blk b)"
      by simp
    have A: "reads (DataStream_read ?blk) (take ?blk b) (take ?blk b)"
      by (rule reads_read) simp
    have "reads (rd_bind (read_blocks (length b - ?blk)) (\<lambda>r. rd_return (take ?blk b @ r)))
        (drop ?blk b) (take ?blk b @ drop ?blk b)"
      by (rule reads_bind [OF IH reads_return]) simp
    then have "reads (rd_bind (read_blocks (length b - ?blk)) (\<lambda>r. rd_return (take ?blk b @ r)))
        (drop ?blk b) b"
      by (simp only: append_take_drop_id)
    then have "reads (rd_bind (DataStream_read ?blk) (\<lambda>c.
        rd_bind (read_blocks (length b - ?blk)) (\<lambda>r. rd_return (c @ r)))) b b"
      by (intro reads_bind [OF A _ append_take_drop_id [symmetric]])
    then show ?thesis using False by (simp add: read_blocks.simps [of "length b"] Let_def)
  qed
qed

lemma canon_blocks: "ds_wf s \<Longrightarrow> read_blocks n s = Ret (b, s') \<Longrightarrow>
    ds_wf s' \<and> ds_rest s = b @ ds_rest s' \<and> length b = n"
proof (induction n arbitrary: s b s' rule: less_induct)
  case (less n)
  show ?case
  proof (cases "n = 0")
    case True
    then show ?thesis using less.prems by (auto simp: read_blocks.simps)
  next
    case False
    let ?blk = "min n (Suc 4999999)"
    from less.prems False obtain c s1 d where
      c: "DataStream_read ?blk s = Ret (c, s1)" and
      d: "read_blocks (n - ?blk) s1 = Ret (d, s')" and b: "b = c @ d"
      by (auto simp: read_blocks.simps [of n] Let_def rd_bind_Ret)
    have s1: "ds_wf s1 \<and> ds_rest s = c @ ds_rest s1" "length c = ?blk"
      using canonD [OF canon_read less.prems(1) c] DataStream_read_length [OF less.prems(1) c]
      by auto
    then show ?thesis using less.IH [OF _ _ d] False b by auto
  qed
qed


section \<open>The contract of a serializable type\<close>

locale codec =
  fixes ser :: "'a \<Rightarrow> bytes" and un :: "'a reader" and wf :: "'a \<Rightarrow> bool"
  assumes reads_un: "wf x \<Longrightarrow> reads un (ser x) x"
    and canon_un: "canon un ser"
    and wf_un: "ds_wf s \<Longrightarrow> un s = Ret (x, s') \<Longrightarrow> wf x"
begin

lemma unserialize_serialize:
  "wf x \<Longrightarrow> length (ser x) < 2 ^ 64 \<Longrightarrow>
     \<exists>s'. un (DataStream (ser x)) = Ret (x, s') \<and> ds_rest s' = []"
  by (rule reads_DataStream [OF reads_un])

lemma prefix_free:
  assumes "wf x" "wf y" "ser x @ r = ser y @ r'" "length (ser x @ r) < 2 ^ 64"
  shows "x = y \<and> r = r'"
  using readsD [OF reads_un [OF assms(1)], of "DataStream (ser x @ r)" r]
    readsD [OF reads_un [OF assms(2)], of "DataStream (ser x @ r)" r'] assms(3,4)
  by (metis ds_rest_DataStream ds_wf_DataStream prod.inject res.inject(1))

lemma reads_elems: "\<forall>x \<in> set xs. wf x \<Longrightarrow> reads (Unser_elems un (length xs)) (concat (map ser xs)) xs"
proof (induction xs)
  case Nil
  then show ?case by (simp add: reads_return)
next
  case (Cons x xs)
  then show ?case
    by (auto intro!: reads_bind [OF reads_un [of x]] reads_bind [OF Cons.IH reads_return])
qed

lemma canon_elems:
  "ds_wf s \<Longrightarrow> Unser_elems un n s = Ret (xs, s') \<Longrightarrow>
     ds_wf s' \<and> ds_rest s = concat (map ser xs) @ ds_rest s' \<and> length xs = n \<and> (\<forall>x \<in> set xs. wf x)"
proof (induction n arbitrary: s xs s')
  case 0
  then show ?case by auto
next
  case (Suc n)
  from Suc.prems obtain x s1 ys where x: "un s = Ret (x, s1)"
    and ys: "Unser_elems un n s1 = Ret (ys, s')" and xs: "xs = x # ys"
    by (auto simp: rd_bind_Ret)
  have "ds_wf s1" "ds_rest s = ser x @ ds_rest s1" "wf x"
    using canonD [OF canon_un Suc.prems(1) x] wf_un [OF Suc.prems(1) x] by auto
  then show ?case using Suc.IH [OF _ ys] xs by auto
qed

lemma vec_Ret:
  assumes "ds_wf s" "VectorFormatter_Unser un s = Ret (v, s')"
  shows "ds_wf s' \<and> ds_rest s = VectorFormatter_Ser ser v @ ds_rest s' \<and>
    length v \<le> unat MAX_SIZE \<and> (\<forall>x \<in> set v. wf x)"
proof -
  obtain n s1 where n: "ReadCompactSize True s = Ret (n, s1)"
    and v: "Unser_elems un (unat n) s1 = Ret (v, s')"
    using assms(2) by (auto simp: VectorFormatter_Unser_def rd_bind_Ret)
  have s1: "ds_wf s1" "ds_rest s = WriteCompactSize n @ ds_rest s1" and m: "n \<le> MAX_SIZE"
    using canonD [OF canon_CompactSize assms(1) n] ReadCompactSize_MAX_SIZE [OF n] by auto
  show ?thesis using canon_elems [OF s1(1) v] s1(2) m
    by (auto simp: VectorFormatter_Ser_def word_le_nat_alt)
qed

lemma vec_codec:
  "codec (VectorFormatter_Ser ser) (VectorFormatter_Unser un)
     (\<lambda>v. length v \<le> unat MAX_SIZE \<and> (\<forall>x \<in> set v. wf x))"
proof
  fix v assume v: "length v \<le> unat MAX_SIZE \<and> (\<forall>x \<in> set v. wf x)"
  then show "reads (VectorFormatter_Unser un) (VectorFormatter_Ser ser v) v"
    unfolding VectorFormatter_Ser_def VectorFormatter_Unser_def
    by (auto intro!: reads_bind [OF reads_CompactSize [of _ "of_nat (length v)"]]
        simp: of_nat_size reads_elems)
next
  show "canon (VectorFormatter_Unser un) (VectorFormatter_Ser ser)"
    unfolding canon_def using vec_Ret by blast
next
  fix s v s' assume "ds_wf s" "VectorFormatter_Unser un s = Ret (v, s')"
  then show "length v \<le> unat MAX_SIZE \<and> (\<forall>x \<in> set v. wf x)" using vec_Ret by blast
qed

end

interpretation u8_codec: codec ser_writedata8 ser_readdata8 "\<lambda>_. True"
  by unfold_locales (simp_all add: reads_data canon_data)

interpretation u16_codec: codec ser_writedata16 ser_readdata16 "\<lambda>_. True"
  by unfold_locales (simp_all add: reads_data canon_data)

interpretation u32_codec: codec ser_writedata32 ser_readdata32 "\<lambda>_. True"
  by unfold_locales (simp_all add: reads_data canon_data)

interpretation u64_codec: codec ser_writedata64 ser_readdata64 "\<lambda>_. True"
  by unfold_locales (simp_all add: reads_data canon_data)

interpretation size_codec: codec WriteCompactSize "ReadCompactSize True" "\<lambda>n. n \<le> MAX_SIZE"
  by unfold_locales (simp_all add: reads_CompactSize canon_CompactSize ReadCompactSize_MAX_SIZE)

lemma Unserialize_bytevec_Ret:
  assumes "ds_wf s" "Unserialize_bytevec s = Ret (v, s')"
  shows "ds_wf s' \<and> ds_rest s = Serialize_bytevec v @ ds_rest s' \<and> length v \<le> unat MAX_SIZE"
proof -
  obtain n s1 where n: "ReadCompactSize True s = Ret (n, s1)"
    and v: "read_blocks (unat (ucast n :: u32)) s1 = Ret (v, s')"
    using assms(2) by (auto simp: Unserialize_bytevec_def rd_bind_Ret)
  have s1: "ds_wf s1" "ds_rest s = WriteCompactSize n @ ds_rest s1" and m: "n \<le> MAX_SIZE"
    using canonD [OF canon_CompactSize assms(1) n] ReadCompactSize_MAX_SIZE [OF n] by auto
  show ?thesis using canon_blocks [OF s1(1) v] s1(2) m
    by (auto simp: Serialize_bytevec_def unat_u32_of_size word_le_nat_alt)
qed

interpretation bytevec_codec: codec Serialize_bytevec Unserialize_bytevec
  "\<lambda>v. length v \<le> unat MAX_SIZE"
proof
  fix v :: bytes assume "length v \<le> unat MAX_SIZE"
  then show "reads Unserialize_bytevec (Serialize_bytevec v) v"
    unfolding Serialize_bytevec_def Unserialize_bytevec_def
    by (auto intro!: reads_bind [OF reads_CompactSize [of _ "of_nat (length v)"]]
        simp: of_nat_size reads_blocks)
next
  show "canon Unserialize_bytevec Serialize_bytevec"
    unfolding canon_def using Unserialize_bytevec_Ret by blast
next
  fix s v s' assume "ds_wf s" "Unserialize_bytevec s = Ret (v, s')"
  then show "length v \<le> unat MAX_SIZE" using Unserialize_bytevec_Ret by blast
qed

lemma Unserialize_string_Ret:
  assumes "ds_wf s" "Unserialize_string s = Ret (v, s')"
  shows "ds_wf s' \<and> ds_rest s = Serialize_string v @ ds_rest s' \<and> length v \<le> unat MAX_SIZE"
proof -
  obtain n s1 where n: "ReadCompactSize True s = Ret (n, s1)"
    and v: "(let nSize = unat (ucast n :: u32) in
       if nSize \<noteq> 0 then DataStream_read nSize else rd_return []) s1 = Ret (v, s')"
    using assms(2) by (auto simp: Unserialize_string_def rd_bind_Ret)
  have s1: "ds_wf s1" "ds_rest s = WriteCompactSize n @ ds_rest s1" and m: "n \<le> MAX_SIZE"
    using canonD [OF canon_CompactSize assms(1) n] ReadCompactSize_MAX_SIZE [OF n] by auto
  have "ds_wf s' \<and> ds_rest s1 = v @ ds_rest s' \<and> length v = unat n"
    using v s1(1) canonD [OF canon_read s1(1), of "unat n"] DataStream_read_length [OF s1(1), of "unat n"]
    by (auto simp: Let_def unat_u32_of_size [OF m] split: if_splits)
  then show ?thesis using s1(2) m by (auto simp: Serialize_string_def word_le_nat_alt)
qed

interpretation string_codec: codec Serialize_string Unserialize_string
  "\<lambda>v. length v \<le> unat MAX_SIZE"
proof
  fix v :: bytes assume v: "length v \<le> unat MAX_SIZE"
  let ?n = "of_nat (length v) :: u64"
  have k: "reads (let nSize = unat (ucast ?n :: u32) in
       if nSize \<noteq> 0 then DataStream_read nSize else rd_return []) v v"
    by (cases "v = []") (simp_all add: of_nat_size [OF v] reads_return reads_read)
  have "reads (ReadCompactSize True) (WriteCompactSize ?n) ?n"
    using of_nat_size(1) [OF v] by (simp add: reads_CompactSize)
  then show "reads Unserialize_string (Serialize_string v) v"
    unfolding Serialize_string_def Unserialize_string_def by (rule reads_bind [OF _ _ refl]) (rule k)
next
  show "canon Unserialize_string Serialize_string"
    unfolding canon_def using Unserialize_string_Ret by blast
next
  fix s v s' assume "ds_wf s" "Unserialize_string s = Ret (v, s')"
  then show "length v \<le> unat MAX_SIZE" using Unserialize_string_Ret by blast
qed

section \<open>Fixed-size byte arrays\<close>

lemma array_codec: "codec id (DataStream_read n) (\<lambda>b. length b = n)"
  by unfold_locales (simp_all add: reads_read canon_read DataStream_read_length)

section \<open>Codecs of records\<close>

text \<open>
  A record is written and read field by field. \<^verbatim>\<open>codec_field\<close> takes the first field off:
  reading it fixes that field of the record, and the rest of the reader is a codec for the
  records with that field. \<^verbatim>\<open>codec_last\<close> ends the chain.
\<close>

lemma codecI:
  assumes "\<And>x. w x \<Longrightarrow> reads u (s x) x"
    and "\<And>st x st'. ds_wf st \<Longrightarrow> u st = Ret (x, st') \<Longrightarrow> ds_wf st' \<and> ds_rest st = s x @ ds_rest st' \<and> w x"
  shows "codec s u w"
  using assms by (auto simp: codec_def canon_def)

lemma codec_Ret:
  assumes "codec s u w" "ds_wf st" "u st = Ret (x, st')"
  shows "ds_wf st' \<and> ds_rest st = s x @ ds_rest st' \<and> w x"
  using canonD [OF codec.canon_un [OF assms(1)] assms(2,3)] codec.wf_un [OF assms] by blast

lemma codec_field:
  assumes c: "codec s1 u1 w1" and r: "\<And>a. w1 a \<Longrightarrow> codec s2 (k a) (\<lambda>x. w x \<and> f x = a)"
    and w: "\<And>x. w x \<Longrightarrow> w1 (f x)"
  shows "codec (\<lambda>x. s1 (f x) @ s2 x) (rd_bind u1 k) w"
proof (rule codecI)
  fix x assume x: "w x"
  have "reads (k (f x)) (s2 x) x" using codec.reads_un [OF r [OF w [OF x]]] x by blast
  then show "reads (rd_bind u1 k) (s1 (f x) @ s2 x) x"
    by (rule reads_bind [OF codec.reads_un [OF c w [OF x]] _ refl])
next
  fix st x st' assume st: "ds_wf st" "rd_bind u1 k st = Ret (x, st')"
  then obtain a st1 where a: "u1 st = Ret (a, st1)" and k: "k a st1 = Ret (x, st')"
    by (auto simp: rd_bind_Ret)
  note 1 = codec_Ret [OF c st(1) a]
  then have "ds_wf st' \<and> ds_rest st1 = s2 x @ ds_rest st' \<and> w x \<and> f x = a"
    using codec_Ret [OF r _ k] by blast
  then show "ds_wf st' \<and> ds_rest st = (s1 (f x) @ s2 x) @ ds_rest st' \<and> w x" using 1 by auto
qed

lemma codec_last:
  assumes c: "codec s1 u1 w1" and r: "\<And>a x. w1 a \<Longrightarrow> w x \<and> f x = a \<longleftrightarrow> x = F a"
    and w: "\<And>x. w x \<Longrightarrow> w1 (f x)"
  shows "codec (\<lambda>x. s1 (f x)) (rd_bind u1 (\<lambda>a. rd_return (F a))) w"
proof (rule codecI)
  fix x assume x: "w x"
  then have F: "F (f x) = x" using r [OF w [OF x], of x] by simp
  have "reads (rd_return (F (f x))) [] x" unfolding F by (rule reads_return)
  then show "reads (rd_bind u1 (\<lambda>a. rd_return (F a))) (s1 (f x)) x"
    by (intro reads_bind [OF codec.reads_un [OF c w [OF x]], where c = "[]"]) simp_all
next
  fix st x st' assume st: "ds_wf st" "rd_bind u1 (\<lambda>a. rd_return (F a)) st = Ret (x, st')"
  then obtain a where a: "u1 st = Ret (a, st')" "x = F a" by (auto simp: rd_bind_Ret)
  note 1 = codec_Ret [OF c st(1) a(1)]
  then have 2: "w x" "f x = a" using r [of a x] a(2) by simp_all
  show "ds_wf st' \<and> ds_rest st = s1 (f x) @ ds_rest st' \<and> w x" unfolding 2(2) using 1 2(1) by simp
qed

section \<open>Vector writer\<close>

text \<open>Appending with a \<^verbatim>\<open>VectorWriter\<close> placed at the end of a vector appends the bytes.\<close>

lemma VectorWriter_append:
  "VectorWriter_write src (VectorWriter v (length v)) =
     Ret \<lparr>vchData = v @ src, nPos = length v + length src\<rparr>"
  by (simp add: VectorWriter_def VectorWriter_write_def)

lemma VectorWriter_append_more:
  "VectorWriter_write src \<lparr>vchData = v, nPos = length v\<rparr> =
     Ret \<lparr>vchData = v @ src, nPos = length (v @ src)\<rparr>"
  by (simp add: VectorWriter_write_def)

lemma VectorWriter_overwrite:
  assumes "pos + length src \<le> length v"
  shows "VectorWriter_write src (VectorWriter v pos) =
    Ret \<lparr>vchData = overwrite pos src v, nPos = pos + length src\<rparr>"
  using assms by (auto simp: VectorWriter_def VectorWriter_write_def Let_def overwrite_def)

lemma SpanReader_refines:
  assumes "ds_wf s"
  shows "SpanReader_read n (ds_rest s) = Ret (b, r) \<longleftrightarrow>
    (\<exists>s'. DataStream_read n s = Ret (b, s') \<and> ds_rest s' = r)"
proof (cases "n \<le> length (ds_rest s)")
  case True
  show ?thesis
    by (rule DataStream_read_ok [OF assms True]) (use True in \<open>auto simp: SpanReader_read_def\<close>)
next
  case False
  then show ?thesis
    using DataStream_read_short [OF assms, of n] by (simp add: SpanReader_read_def)
qed

end
