(* ===== verification/Crypto_ChaCha20.thy ===== *)
theory Crypto_ChaCha20
  imports Sv2_Prelude
begin

text \<open>
  The ChaCha20 stream cipher of \<^verbatim>\<open>src/src/crypto/chacha20.cpp\<close>: the block function, the
  block-aligned cipher, the buffered cipher for arbitrary lengths, and its rekeying variant.
  The optimised \<^verbatim>\<open>Crypt\<close> and \<^verbatim>\<open>Keystream\<close> are related to one abstract keystream, the
  function from positions to bytes \<^verbatim>\<open>cc_stream\<close>.
\<close>

section \<open>The block function\<close>

definition QUARTERROUND :: "u32 \<Rightarrow> u32 \<Rightarrow> u32 \<Rightarrow> u32 \<Rightarrow> u32 \<times> u32 \<times> u32 \<times> u32" where
  "QUARTERROUND a b c d =
     (let a = a + b; d = word_rotl 16 (d XOR a);
          c = c + d; b = word_rotl 12 (b XOR c);
          a = a + b; d = word_rotl 8 (d XOR a);
          c = c + d; b = word_rotl 7 (b XOR c)
      in (a, b, c, d))"

definition quarterround_at :: "nat \<Rightarrow> nat \<Rightarrow> nat \<Rightarrow> nat \<Rightarrow> u32 list \<Rightarrow> u32 list" where
  "quarterround_at i j k l x =
     (let (a, b, c, d) = QUARTERROUND (x ! i) (x ! j) (x ! k) (x ! l)
      in x[i := a, j := b, k := c, l := d])"

definition double_round :: "u32 list \<Rightarrow> u32 list" where
  "double_round x =
     (let x = quarterround_at 0 4 8 12 x;
          x = quarterround_at 1 5 9 13 x;
          x = quarterround_at 2 6 10 14 x;
          x = quarterround_at 3 7 11 15 x;
          x = quarterround_at 0 5 10 15 x;
          x = quarterround_at 1 6 11 12 x;
          x = quarterround_at 2 7 8 13 x;
          x = quarterround_at 3 4 9 14 x
      in x)"

definition chacha_init :: "u32 list \<Rightarrow> u32 list" where
  "chacha_init j = [0x61707865, 0x3320646e, 0x79622d32, 0x6b206574] @ j"

definition chacha_words :: "u32 list \<Rightarrow> u32 list" where
  "chacha_words j = map2 (+) ((double_round ^^ 10) (chacha_init j)) (chacha_init j)"

text \<open>The counter: \<^verbatim>\<open>++j12; if (!j12) ++j13;\<close>\<close>

definition bump_counter :: "u32 list \<Rightarrow> u32 list" where
  "bump_counter j =
     (let j12 = j ! 8 + 1; j13 = (if j12 = 0 then j ! 9 + 1 else j ! 9) in j[8 := j12, 9 := j13])"

section \<open>The block-aligned cipher\<close>

definition ChaCha20Aligned_SetKey :: "bytes \<Rightarrow> u32 list" where
  "ChaCha20Aligned_SetKey key = map (\<lambda>i. ReadLE32 (drop (4 * i) key)) [0..<8] @ [0, 0, 0, 0]"

definition ChaCha20Aligned_Seek :: "u32 \<times> u64 \<Rightarrow> u32 \<Rightarrow> u32 list \<Rightarrow> u32 list" where
  "ChaCha20Aligned_Seek nonce block_counter input =
     input[8 := block_counter, 9 := fst nonce, 10 := ucast (snd nonce),
           11 := ucast (drop_bit 32 (snd nonce))]"

fun ChaCha20Aligned_Keystream :: "nat \<Rightarrow> u32 list \<Rightarrow> bytes \<times> u32 list" where
  "ChaCha20Aligned_Keystream 0 j = ([], j)"
| "ChaCha20Aligned_Keystream (Suc blocks) j =
     (let x = chacha_words j; (c, j') = ChaCha20Aligned_Keystream blocks (bump_counter j)
      in (concat (map WriteLE32 x) @ c, j'))"

definition xor_words :: "u32 list \<Rightarrow> bytes \<Rightarrow> u32 list" where
  "xor_words x m = map (\<lambda>i. (x ! i) XOR ReadLE32 (drop (4 * i) m)) [0..<16]"

fun ChaCha20Aligned_Crypt :: "nat \<Rightarrow> bytes \<Rightarrow> u32 list \<Rightarrow> bytes \<times> u32 list" where
  "ChaCha20Aligned_Crypt 0 m j = ([], j)"
| "ChaCha20Aligned_Crypt (Suc blocks) m j =
     (let x = xor_words (chacha_words j) m;
          (c, j') = ChaCha20Aligned_Crypt blocks (drop 64 m) (bump_counter j)
      in (concat (map WriteLE32 x) @ c, j'))"

section \<open>The cipher for arbitrary lengths\<close>

record chacha20 =
  m_aligned :: "u32 list"
  m_buffer :: bytes
  m_bufleft :: nat

definition ChaCha20 :: "bytes \<Rightarrow> chacha20" where
  "ChaCha20 key = \<lparr>m_aligned = ChaCha20Aligned_SetKey key, m_buffer = zeros 64, m_bufleft = 0\<rparr>"

definition ChaCha20_SetKey :: "bytes \<Rightarrow> chacha20 \<Rightarrow> chacha20" where
  "ChaCha20_SetKey key c =
     c\<lparr>m_aligned := ChaCha20Aligned_SetKey key, m_buffer := zeros 64, m_bufleft := 0\<rparr>"

definition ChaCha20_Seek :: "u32 \<times> u64 \<Rightarrow> u32 \<Rightarrow> chacha20 \<Rightarrow> chacha20" where
  "ChaCha20_Seek nonce block_counter c =
     c\<lparr>m_aligned := ChaCha20Aligned_Seek nonce block_counter (m_aligned c), m_bufleft := 0\<rparr>"

text \<open>
  \<^verbatim>\<open>Keystream\<close> and \<^verbatim>\<open>Crypt\<close> work in three stages: what the buffer still holds, whole blocks,
  and a last partial block through the buffer. A stage returns its output, the new state and
  what is left to do.
\<close>

definition ks_reuse :: "nat \<Rightarrow> chacha20 \<Rightarrow> bytes \<times> chacha20" where
  "ks_reuse n c =
     (if m_bufleft c \<noteq> 0 then
        let reuse = min (m_bufleft c) n in
        (take reuse (drop (64 - m_bufleft c) (m_buffer c)), c\<lparr>m_bufleft := m_bufleft c - reuse\<rparr>)
      else ([], c))"

definition ks_blocks :: "nat \<Rightarrow> chacha20 \<Rightarrow> bytes \<times> chacha20" where
  "ks_blocks n c =
     (if n \<ge> 64 then
        let (out, j) = ChaCha20Aligned_Keystream (n div 64) (m_aligned c)
        in (out, c\<lparr>m_aligned := j\<rparr>)
      else ([], c))"

definition ks_tail :: "nat \<Rightarrow> chacha20 \<Rightarrow> bytes \<times> chacha20" where
  "ks_tail n c =
     (if n \<noteq> 0 then
        let (buf, j) = ChaCha20Aligned_Keystream 1 (m_aligned c)
        in (take n buf, c\<lparr>m_aligned := j, m_buffer := buf, m_bufleft := 64 - n\<rparr>)
      else ([], c))"

definition ChaCha20_Keystream :: "nat \<Rightarrow> chacha20 \<Rightarrow> bytes \<times> chacha20" where
  "ChaCha20_Keystream n c =
     (if n = 0 then ([], c)
      else let (o1, c) = ks_reuse n c; n = n - length o1;
               (o2, c) = ks_blocks n c; n = n - length o2;
               (o3, c) = ks_tail n c
           in (o1 @ o2 @ o3, c))"

definition crypt_reuse :: "bytes \<Rightarrow> chacha20 \<Rightarrow> bytes \<times> chacha20" where
  "crypt_reuse inp c =
     (if m_bufleft c \<noteq> 0 then
        let reuse = min (m_bufleft c) (length inp) in
        (map (\<lambda>i. (inp ! i) XOR (m_buffer c ! (64 - m_bufleft c + i))) [0..<reuse],
         c\<lparr>m_bufleft := m_bufleft c - reuse\<rparr>)
      else ([], c))"

definition crypt_blocks :: "bytes \<Rightarrow> chacha20 \<Rightarrow> bytes \<times> chacha20" where
  "crypt_blocks inp c =
     (if length inp \<ge> 64 then
        let blocks = length inp div 64;
            (out, j) = ChaCha20Aligned_Crypt blocks (take (blocks * 64) inp) (m_aligned c)
        in (out, c\<lparr>m_aligned := j\<rparr>)
      else ([], c))"

definition crypt_tail :: "bytes \<Rightarrow> chacha20 \<Rightarrow> bytes \<times> chacha20" where
  "crypt_tail inp c =
     (if inp \<noteq> [] then
        let (buf, j) = ChaCha20Aligned_Keystream 1 (m_aligned c)
        in (map (\<lambda>i. (inp ! i) XOR (buf ! i)) [0..<length inp],
            c\<lparr>m_aligned := j, m_buffer := buf, m_bufleft := 64 - length inp\<rparr>)
      else ([], c))"

definition ChaCha20_Crypt :: "bytes \<Rightarrow> chacha20 \<Rightarrow> bytes \<times> chacha20" where
  "ChaCha20_Crypt inp c =
     (if inp = [] then ([], c)
      else let (o1, c) = crypt_reuse inp c; inp = drop (length o1) inp;
               (o2, c) = crypt_blocks inp c; inp = drop (length o2) inp;
               (o3, c) = crypt_tail inp c
           in (o1 @ o2 @ o3, c))"

section \<open>The rekeying cipher\<close>

record fs_chacha20 =
  m_chacha20 :: chacha20
  m_rekey_interval :: u32
  m_chunk_counter :: u32
  m_rekey_counter :: u64

definition FSChaCha20_Crypt :: "bytes \<Rightarrow> fs_chacha20 \<Rightarrow> bytes \<times> fs_chacha20" where
  "FSChaCha20_Crypt inp f =
     (let (out, c) = ChaCha20_Crypt inp (m_chacha20 f); n = m_chunk_counter f + 1 in
      if n = m_rekey_interval f then
        let (new_key, c) = ChaCha20_Keystream 32 c;
            c = ChaCha20_SetKey new_key c;
            k = m_rekey_counter f + 1
        in (out, f\<lparr>m_chacha20 := ChaCha20_Seek (0, k) 0 c, m_rekey_counter := k,
                    m_chunk_counter := 0\<rparr>)
      else (out, f\<lparr>m_chacha20 := c, m_chunk_counter := n\<rparr>))"

section \<open>The abstract keystream\<close>

text \<open>
  Byte \<^verbatim>\<open>i\<close> of the aligned cipher is byte \<^verbatim>\<open>i mod 64\<close> of the block whose counter is
  \<^verbatim>\<open>i div 64\<close> steps ahead; the buffered cipher first yields what its buffer still holds.
\<close>

definition block_byte :: "u32 list \<Rightarrow> nat \<Rightarrow> u8" where
  "block_byte j i =
     concat (map WriteLE32 (chacha_words ((bump_counter ^^ (i div 64)) j))) ! (i mod 64)"

definition cc_stream :: "chacha20 \<Rightarrow> nat \<Rightarrow> u8" where
  "cc_stream c i =
     (if i < m_bufleft c then m_buffer c ! (64 - m_bufleft c + i)
      else block_byte (m_aligned c) (i - m_bufleft c))"

definition cc_wf :: "chacha20 \<Rightarrow> bool" where
  "cc_wf c \<longleftrightarrow> length (m_aligned c) = 12 \<and> length (m_buffer c) = 64 \<and> m_bufleft c \<le> 64"

section \<open>Shapes\<close>

lemma length_quarterround_at [simp]: "length (quarterround_at i j k l x) = length x"
  by (simp add: quarterround_at_def split: prod.splits)

lemma length_double_round [simp]: "length (double_round x) = length x"
  by (simp add: double_round_def)

lemma length_double_rounds [simp]: "length ((double_round ^^ n) x) = length x"
  by (induction n) simp_all

lemma length_chacha_words [simp]: "length (chacha_words j) = length j + 4"
  by (simp add: chacha_words_def chacha_init_def)

lemma length_bump [simp]: "length (bump_counter j) = length j"
  by (simp add: bump_counter_def Let_def)

lemma length_bumps [simp]: "length ((bump_counter ^^ n) j) = length j"
  by (induction n) simp_all

lemma length_SetKey [simp]: "length (ChaCha20Aligned_SetKey key) = 12"
  by (simp add: ChaCha20Aligned_SetKey_def)

lemma length_Seek [simp]: "length (ChaCha20Aligned_Seek n b j) = length j"
  by (simp add: ChaCha20Aligned_Seek_def)

lemma length_concat_WriteLE32 [simp]: "length (concat (map WriteLE32 x)) = 4 * length x"
  by (induction x) simp_all

lemma cc_wf_intros [simp]:
  "cc_wf (ChaCha20 key)" "cc_wf c \<Longrightarrow> cc_wf (ChaCha20_SetKey key c)"
  "cc_wf c \<Longrightarrow> cc_wf (ChaCha20_Seek nonce b c)"
  by (simp_all add: cc_wf_def ChaCha20_def ChaCha20_SetKey_def ChaCha20_Seek_def)

section \<open>The aligned cipher yields the abstract keystream\<close>

lemma block_byte_bumps: "block_byte ((bump_counter ^^ k) j) i = block_byte j (64 * k + i)"
proof -
  have "(bump_counter ^^ (i div 64)) ((bump_counter ^^ k) j) = (bump_counter ^^ (k + i div 64)) j"
    by (metis add.commute comp_apply funpow_add)
  then show ?thesis by (simp add: block_byte_def)
qed

lemma block_byte_first:
  assumes "length j = 12"
  shows "map (block_byte j) [0..<64] = concat (map WriteLE32 (chacha_words j))"
  by (rule nth_equalityI) (simp_all add: assms block_byte_def)

lemma Aligned_Keystream_stream:
  assumes "length j = 12"
  shows "ChaCha20Aligned_Keystream n j =
    (map (block_byte j) [0..<64 * n], (bump_counter ^^ n) j)"
  using assms
proof (induction n arbitrary: j)
  case 0
  then show ?case by simp
next
  case (Suc n)
  have *: "block_byte (bump_counter j) = (\<lambda>i. block_byte j (64 + i))"
    using block_byte_bumps [of 1 j] by (intro ext) simp
  have "map (block_byte j) [0..<64 * Suc n] =
      map (block_byte j) [0..<64] @ map (\<lambda>i. block_byte j (64 + i)) [0..<64 * n]"
    using map_upt_add [of "block_byte j" 64 "64 * n"] by simp
  then show ?case
    using Suc.IH [of "bump_counter j"] Suc.prems
    by (simp add: block_byte_first * funpow_swap1)
qed

lemma xor_WriteLE32: "WriteLE32 (x XOR y) = xor_bytes (WriteLE32 x) (WriteLE32 y)"
proof (rule nth_equalityI)
  fix i assume "i < length (WriteLE32 (x XOR y))"
  then show "WriteLE32 (x XOR y) ! i = xor_bytes (WriteLE32 x) (WriteLE32 y) ! i"
    by (auto simp: WriteLE32_def le_bytes_def xor_bytes_def intro!: bit_eqI
        simp: bit_ucast_iff bit_xor_iff bit_drop_bit_eq)
qed simp

lemma concat_xor_WriteLE32:
  "length m = 4 * length x \<Longrightarrow>
     concat (map WriteLE32 (map (\<lambda>i. (x ! i) XOR ReadLE32 (drop (4 * i) m)) [0..<length x])) =
       xor_bytes m (concat (map WriteLE32 x))"
proof (induction x arbitrary: m)
  case Nil
  then show ?case by simp
next
  case (Cons a x)
  have len: "length (drop 4 m) = 4 * length x" "length (take 4 m) = 4" using Cons.prems by simp_all
  have r: "WriteLE32 (ReadLE32 m) = take 4 m"
    using Write_Read(2) [OF len(2)] by (simp add: ReadLE32_def)
  have up: "[0..<length (a # x)] = 0 # map Suc [0..<length x]"
    by (simp add: map_Suc_upt upt_conv_Cons del: upt_Suc)
  have sh: "(\<lambda>i. (x ! i) XOR ReadLE32 (drop (4 * i) (drop 4 m))) =
      (\<lambda>i. ((a # x) ! Suc i) XOR ReadLE32 (drop (4 * Suc i) m))"
    by (simp add: add.commute)
  have "xor_bytes m (concat (map WriteLE32 (a # x))) =
      xor_bytes (take 4 m @ drop 4 m) (WriteLE32 a @ concat (map WriteLE32 x))" by simp
  also have "\<dots> = xor_bytes (take 4 m) (WriteLE32 a) @ xor_bytes (drop 4 m) (concat (map WriteLE32 x))"
    using len by (intro xor_bytes_append) simp
  finally show ?case
    using Cons.IH [OF len(1)] r unfolding up sh [symmetric]
    by (simp add: xor_WriteLE32 xor_bytes_commute comp_def add.commute)
qed

lemma Aligned_Crypt_xor:
  assumes "length j = 12" "length m = 64 * n"
  shows "ChaCha20Aligned_Crypt n m j =
    (xor_bytes m (fst (ChaCha20Aligned_Keystream n j)), snd (ChaCha20Aligned_Keystream n j))"
  using assms
proof (induction n arbitrary: j m)
  case 0
  then show ?case by simp
next
  case (Suc n)
  let ?w = "chacha_words j" and ?k = "fst (ChaCha20Aligned_Keystream n (bump_counter j))"
  have w: "xor_words ?w m = xor_words ?w (take 64 m)"
    by (simp add: xor_words_def ReadLE32_def drop_take)
  have "concat (map WriteLE32 (xor_words ?w m)) = xor_bytes (take 64 m) (concat (map WriteLE32 ?w))"
    unfolding w
    using concat_xor_WriteLE32 [of "take 64 m" ?w] Suc.prems by (simp add: xor_words_def)
  moreover have "xor_bytes m (concat (map WriteLE32 ?w) @ ?k) =
      xor_bytes (take 64 m) (concat (map WriteLE32 ?w)) @ xor_bytes (drop 64 m) ?k"
    using xor_bytes_append [of "take 64 m" "concat (map WriteLE32 ?w)" "drop 64 m" ?k] Suc.prems
    by simp
  ultimately show ?case using Suc.IH [of "bump_counter j" "drop 64 m"] Suc.prems
    by (simp add: split_beta Let_def)
qed

section \<open>The buffered cipher yields the abstract keystream\<close>

text \<open>\<^verbatim>\<open>yields c n r\<close>: the result \<^verbatim>\<open>r\<close> holds the next \<^verbatim>\<open>n\<close> keystream bytes and the state after them.\<close>

definition yields :: "chacha20 \<Rightarrow> nat \<Rightarrow> bytes \<times> chacha20 \<Rightarrow> bool" where
  "yields c n r \<longleftrightarrow> fst r = map (cc_stream c) [0..<n] \<and> cc_wf (snd r) \<and>
     (\<forall>i. cc_stream (snd r) i = cc_stream c (n + i))"

lemma yields_none: "cc_wf c \<Longrightarrow> yields c 0 ([], c)"
  by (simp add: yields_def)

lemma yields_append:
  assumes "yields c m (o1, c1)" "yields c1 n (o2, c2)"
  shows "yields c (m + n) (o1 @ o2, c2)"
  using assms by (simp add: yields_def map_upt_add add.assoc)

lemma yields_reuse:
  assumes "cc_wf c"
  shows "yields c (min (m_bufleft c) n) (ks_reuse n c)"
proof -
  let ?r = "min (m_bufleft c) n"
  have "take ?r (drop (64 - m_bufleft c) (m_buffer c)) = map (cc_stream c) [0..<?r]"
    using assms by (intro nth_equalityI) (auto simp: cc_wf_def cc_stream_def)
  then show ?thesis
    using assms by (auto simp: yields_def ks_reuse_def Let_def cc_wf_def cc_stream_def ac_simps)
qed

lemma yields_aligned:
  assumes "cc_wf c" "m_bufleft c = 0"
  shows "yields c (64 * k) (fst (ChaCha20Aligned_Keystream k (m_aligned c)),
           c\<lparr>m_aligned := snd (ChaCha20Aligned_Keystream k (m_aligned c))\<rparr>)"
  using assms
  by (auto simp: yields_def Aligned_Keystream_stream cc_wf_def cc_stream_def block_byte_bumps)

lemma yields_blocks:
  assumes "cc_wf c" "m_bufleft c = 0 \<or> n < 64"
  shows "yields c (64 * (n div 64)) (ks_blocks n c)"
  using assms yields_aligned [of c "n div 64"] yields_none [of c]
  by (auto simp: ks_blocks_def Let_def split_beta)

lemma yields_tail:
  assumes "cc_wf c" "m_bufleft c = 0 \<or> n = 0" "n < 64"
  shows "yields c n (ks_tail n c)"
proof (cases "n = 0")
  case True
  then show ?thesis using assms by (simp add: ks_tail_def yields_none)
next
  case False
  with assms have z: "m_bufleft c = 0" "length (m_aligned c) = 12"
    by (simp_all add: cc_wf_def)
  have "take n (map (block_byte (m_aligned c)) [0..<64]) = map (block_byte (m_aligned c)) [0..<n]"
    using assms(3) by (simp add: take_map take_upt)
  moreover have "block_byte (bump_counter (m_aligned c)) i = block_byte (m_aligned c) (64 + i)" for i
    using block_byte_bumps [of 1 "m_aligned c" i] by simp
  ultimately show ?thesis
    using False assms(1,3) z Aligned_Keystream_stream [OF z(2), of 1]
    by (auto simp: yields_def ks_tail_def cc_wf_def cc_stream_def [abs_def] add.commute)
qed

lemma ks_state:
  "m_bufleft (snd (ks_reuse n c)) = m_bufleft c - min (m_bufleft c) n"
  "m_bufleft (snd (ks_blocks n c)) = m_bufleft c"
  by (auto simp: ks_reuse_def ks_blocks_def Let_def split_beta)

lemma yields_length: "yields c n r \<Longrightarrow> length (fst r) = n"
  by (simp add: yields_def)

lemma Keystream_yields:
  assumes "cc_wf c"
  shows "yields c n (ChaCha20_Keystream n c)"
proof (cases "n = 0")
  case True
  then show ?thesis using assms by (simp add: ChaCha20_Keystream_def yields_none)
next
  case False
  let ?r = "min (m_bufleft c) n"
  obtain o1 c1 where 1: "ks_reuse n c = (o1, c1)" by fastforce
  then have y1: "yields c ?r (o1, c1)" using yields_reuse [OF assms, of n] by simp
  let ?n1 = "n - ?r"
  have l1: "m_bufleft c1 = 0 \<or> ?n1 = 0" "cc_wf c1"
    using ks_state(1) [of n c] 1 y1 by (auto simp: yields_def)
  obtain o2 c2 where 2: "ks_blocks ?n1 c1 = (o2, c2)" by fastforce
  then have y2: "yields c1 (64 * (?n1 div 64)) (o2, c2)"
    using yields_blocks [of c1 ?n1] l1 by auto
  let ?n2 = "?n1 - 64 * (?n1 div 64)"
  have mod: "?n2 = ?n1 mod 64" by (simp add: minus_mult_div_eq_mod)
  then have l2: "m_bufleft c2 = 0 \<or> ?n2 = 0" "cc_wf c2" "?n2 < 64"
    using ks_state(2) [of ?n1 c1] 2 l1 y2 by (auto simp: yields_def)
  obtain o3 c3 where 3: "ks_tail ?n2 c2 = (o3, c3)" by fastforce
  then have y3: "yields c2 ?n2 (o3, c3)" using yields_tail [of c2 ?n2] l2 by simp
  have len: "length o1 = ?r" "length o2 = 64 * (?n1 div 64)"
    using yields_length [OF y1] yields_length [OF y2] by simp_all
  have "yields c (?r + (64 * (?n1 div 64) + ?n2)) (o1 @ o2 @ o3, c3)"
    by (intro yields_append [OF y1] yields_append [OF y2] y3)
  moreover have "?r + (64 * (?n1 div 64) + ?n2) = n" by simp
  ultimately show ?thesis using False 1 2 3 len by (simp add: ChaCha20_Keystream_def)
qed

section \<open>Crypt is exclusive or with the keystream\<close>

lemma crypt_reuse_xor:
  assumes "cc_wf c"
  shows "crypt_reuse inp c = (xor_bytes inp (fst (ks_reuse (length inp) c)), snd (ks_reuse (length inp) c))"
  using assms
  by (auto simp: crypt_reuse_def ks_reuse_def Let_def xor_bytes_def cc_wf_def intro!: nth_equalityI)

lemma crypt_blocks_xor:
  assumes "cc_wf c"
  shows "crypt_blocks inp c =
    (xor_bytes inp (fst (ks_blocks (length inp) c)), snd (ks_blocks (length inp) c))"
proof -
  let ?n = "length inp div 64"
  have "length (m_aligned c) = 12" using assms by (simp add: cc_wf_def)
  moreover have "?n * 64 \<le> length inp" by simp
  then have len: "length (take (?n * 64) inp) = 64 * ?n" by simp
  ultimately have "ChaCha20Aligned_Crypt ?n (take (?n * 64) inp) (m_aligned c) =
      (xor_bytes (take (?n * 64) inp) (fst (ChaCha20Aligned_Keystream ?n (m_aligned c))),
       snd (ChaCha20Aligned_Keystream ?n (m_aligned c)))"
    by (intro Aligned_Crypt_xor)
  moreover have "xor_bytes (take (?n * 64) inp) (fst (ChaCha20Aligned_Keystream ?n (m_aligned c))) =
      xor_bytes inp (fst (ChaCha20Aligned_Keystream ?n (m_aligned c)))"
    using \<open>length (m_aligned c) = 12\<close>
    by (auto simp: xor_bytes_def Aligned_Keystream_stream intro!: nth_equalityI)
  ultimately show ?thesis
    by (simp add: crypt_blocks_def ks_blocks_def Let_def split_beta)
qed

lemma crypt_tail_xor:
  assumes "cc_wf c" "length inp < 64"
  shows "crypt_tail inp c =
    (xor_bytes inp (fst (ks_tail (length inp) c)), snd (ks_tail (length inp) c))"
proof -
  have "length (fst (ChaCha20Aligned_Keystream 1 (m_aligned c))) = 64"
    using assms(1) by (simp add: cc_wf_def)
  then show ?thesis
    using assms(2)
    by (auto simp: crypt_tail_def ks_tail_def Let_def split_beta xor_bytes_def intro!: nth_equalityI)
qed

lemma xor_bytes_take: "length k \<le> length inp \<Longrightarrow> xor_bytes (take (length k) inp) k = xor_bytes inp k"
  by (auto simp: xor_bytes_def intro!: nth_equalityI)

lemma xor_bytes_append_drop:
  assumes "length k \<le> length inp"
  shows "xor_bytes inp (k @ l) = xor_bytes inp k @ xor_bytes (drop (length k) inp) l"
  using xor_bytes_append [of "take (length k) inp" k "drop (length k) inp" l] assms
  by (simp add: xor_bytes_take)

lemma Crypt_Keystream:
  assumes wf: "cc_wf c"
  shows "ChaCha20_Crypt inp c =
    (xor_bytes inp (fst (ChaCha20_Keystream (length inp) c)), snd (ChaCha20_Keystream (length inp) c))"
proof (cases "inp = []")
  case True
  then show ?thesis by (simp add: ChaCha20_Crypt_def ChaCha20_Keystream_def)
next
  case False
  let ?n = "length inp"
  obtain o1 c1 where 1: "ks_reuse ?n c = (o1, c1)" by fastforce
  then have y1: "yields c (min (m_bufleft c) ?n) (o1, c1)" using yields_reuse [OF wf, of ?n] by simp
  have l1: "length o1 = min (m_bufleft c) ?n" "cc_wf c1" and
    e1: "m_bufleft c1 = 0 \<or> ?n - length o1 = 0"
    using y1 ks_state(1) [of ?n c] 1 by (auto simp: yields_def)
  let ?i1 = "drop (length o1) inp"
  obtain o2 c2 where 2: "ks_blocks (length ?i1) c1 = (o2, c2)" by fastforce
  then have y2: "yields c1 (64 * (length ?i1 div 64)) (o2, c2)"
    using yields_blocks [of c1 "length ?i1"] l1 e1 by auto
  have l2: "length o2 = 64 * (length ?i1 div 64)" "cc_wf c2"
    using y2 by (auto simp: yields_def)
  let ?i2 = "drop (length o2) ?i1"
  have small: "length ?i2 < 64" using l2 by (simp add: minus_mult_div_eq_mod)
  obtain o3 c3 where 3: "ks_tail (length ?i2) c2 = (o3, c3)" by fastforce
  have x: "crypt_reuse inp c = (xor_bytes inp o1, c1)" "crypt_blocks ?i1 c1 = (xor_bytes ?i1 o2, c2)"
    "crypt_tail ?i2 c2 = (xor_bytes ?i2 o3, c3)"
    using crypt_reuse_xor [OF wf, of inp] crypt_blocks_xor [OF l1(2), of ?i1]
      crypt_tail_xor [OF l2(2) small] 1 2 3 by simp_all
  have le: "length o1 \<le> ?n" "length o2 \<le> length ?i1" using l1 l2 by simp_all
  have "xor_bytes inp (o1 @ o2 @ o3) = xor_bytes inp o1 @ xor_bytes ?i1 o2 @ xor_bytes ?i2 o3"
    by (simp only: xor_bytes_append_drop [OF le(1)] xor_bytes_append_drop [OF le(2)])
  then show ?thesis
    using False 1 2 3 x le
    by (simp add: ChaCha20_Crypt_def ChaCha20_Keystream_def min_absorb2 add.commute)
qed

lemma Crypt_stream:
  assumes "cc_wf c"
  shows "fst (ChaCha20_Crypt inp c) = xor_bytes inp (map (cc_stream c) [0..<length inp])"
    "cc_wf (snd (ChaCha20_Crypt inp c))"
    "cc_stream (snd (ChaCha20_Crypt inp c)) = (\<lambda>i. cc_stream c (length inp + i))"
  using Crypt_Keystream [OF assms, of inp] Keystream_yields [OF assms, of "length inp"]
  by (simp_all add: yields_def fun_eq_iff)

lemma length_Crypt [simp]:
  "cc_wf c \<Longrightarrow> length (fst (ChaCha20_Crypt inp c)) = length inp"
  by (simp add: Crypt_stream)

lemma Crypt_Crypt:
  "cc_wf c \<Longrightarrow> fst (ChaCha20_Crypt (fst (ChaCha20_Crypt inp c)) c) = inp"
  by (simp add: Crypt_stream)

lemma FSChaCha20_state:
  "length a = length b \<Longrightarrow> cc_wf (m_chacha20 f) \<Longrightarrow>
     snd (FSChaCha20_Crypt a f) = snd (FSChaCha20_Crypt b f)"
  by (simp add: FSChaCha20_Crypt_def Crypt_Keystream Let_def split_beta)

lemma FSChaCha20_fst: "fst (FSChaCha20_Crypt a f) = fst (ChaCha20_Crypt a (m_chacha20 f))"
  by (simp add: FSChaCha20_Crypt_def Let_def split_beta)

text \<open>
  C28. The ChaCha20 cipher is a stream cipher whatever the lengths of the calls: enciphering a
  message in two calls yields the bytes of one call, and leaves the cipher at the same place of
  its keystream. The buffer of \<^verbatim>\<open>m_bufleft\<close> unused bytes, the block-aligned fast path and the
  carry of the block counter are all inside this statement.
\<close>

theorem ChaCha20_Crypt_split:
  assumes "cc_wf c"
  shows "fst (ChaCha20_Crypt (a @ b) c) =
      fst (ChaCha20_Crypt a c) @ fst (ChaCha20_Crypt b (snd (ChaCha20_Crypt a c)))
    \<and> cc_stream (snd (ChaCha20_Crypt (a @ b) c)) i =
      cc_stream (snd (ChaCha20_Crypt b (snd (ChaCha20_Crypt a c)))) i"
  using assms by (simp add: Crypt_stream map_upt_add xor_bytes_append add.assoc)

theorem ChaCha20_Crypt_split_witness:
  "fst (ChaCha20_Crypt (zeros 5 @ zeros 70) (ChaCha20 (zeros 32))) =
      fst (ChaCha20_Crypt (zeros 5) (ChaCha20 (zeros 32))) @
      fst (ChaCha20_Crypt (zeros 70) (snd (ChaCha20_Crypt (zeros 5) (ChaCha20 (zeros 32)))))"
  using ChaCha20_Crypt_split [of "ChaCha20 (zeros 32)" "zeros 5" "zeros 70" 0] by simp

lemma QUARTERROUND_rfc8439:
  "QUARTERROUND 0x11111111 0x01020304 0x9b8d6f43 0x01234567 =
     (0xea2a92f4, 0xcb1cf8ce, 0x4581472e, 0x5881c4bb)"
  by code_simp

end
