(* ===== verification/Crypto_AEAD.thy ===== *)
theory Crypto_AEAD
  imports Crypto_ChaCha20 Crypto_Poly1305
begin

text \<open>
  The authenticated cipher of \<^verbatim>\<open>src/src/crypto/chacha20poly1305.cpp\<close>, and the contract the
  Noise layer relies on as the locale \<^verbatim>\<open>aead\<close>, interpreted on the model of that file.
\<close>

type_synonym nonce96 = "u32 \<times> u64"

definition EXPANSION :: nat where "EXPANSION = 16"

section \<open>Operations\<close>

definition timingsafe_bcmp_internal :: "bytes \<Rightarrow> bytes \<Rightarrow> bool" where
  "timingsafe_bcmp_internal b1 b2 = (foldl (OR) 0 (map2 (XOR) b1 b2) \<noteq> 0)"

definition ComputeTag :: "chacha20 \<Rightarrow> bytes \<Rightarrow> bytes \<Rightarrow> bytes \<times> chacha20" where
  "ComputeTag c aad cipher =
     (let (first_block, c) = ChaCha20_Keystream 64 c;
          p = poly1305_init (take 32 first_block);
          aad_padding_length = (16 - length aad mod 16) mod 16;
          p = poly1305_update (zeros aad_padding_length) (poly1305_update aad p);
          cipher_padding_length = (16 - length cipher mod 16) mod 16;
          p = poly1305_update (zeros cipher_padding_length) (poly1305_update cipher p);
          length_desc = WriteLE64 (of_nat (length aad)) @ WriteLE64 (of_nat (length cipher));
          p = poly1305_update length_desc p
      in (fst (poly1305_finish p), c))"

definition AEAD_Encrypt ::
  "bytes \<Rightarrow> bytes \<Rightarrow> bytes \<Rightarrow> nonce96 \<Rightarrow> chacha20 \<Rightarrow> bytes \<times> chacha20" where
  "AEAD_Encrypt plain1 plain2 aad nonce c =
     (let c = ChaCha20_Seek nonce 1 c;
          (o1, c) = ChaCha20_Crypt plain1 c;
          (o2, c) = ChaCha20_Crypt plain2 c;
          c = ChaCha20_Seek nonce 0 c;
          (tag, c) = ComputeTag c aad (o1 @ o2)
      in (o1 @ o2 @ tag, c))"

text \<open>
  \<^verbatim>\<open>Decrypt\<close> is called with the sizes of the two output spans; it returns them filled, or
  nothing and leaves them alone.
\<close>

definition AEAD_Decrypt ::
  "bytes \<Rightarrow> bytes \<Rightarrow> nonce96 \<Rightarrow> nat \<Rightarrow> nat \<Rightarrow> chacha20 \<Rightarrow> (bytes \<times> bytes) option \<times> chacha20" where
  "AEAD_Decrypt cipher aad nonce n1 n2 c =
     (let c = ChaCha20_Seek nonce 0 c;
          body = take (length cipher - EXPANSION) cipher;
          (expected_tag, c) = ComputeTag c aad body
      in if timingsafe_bcmp_internal expected_tag (drop (length cipher - EXPANSION) cipher)
         then (None, c)
         else let (plain1, c) = ChaCha20_Crypt (take n1 cipher) c;
                  (plain2, c) = ChaCha20_Crypt (take n2 (drop n1 cipher)) c
              in (Some (plain1, plain2), c))"

definition AEAD_Keystream :: "nonce96 \<Rightarrow> nat \<Rightarrow> chacha20 \<Rightarrow> bytes \<times> chacha20" where
  "AEAD_Keystream nonce n c = ChaCha20_Keystream n (ChaCha20_Seek nonce 1 c)"

text \<open>The overloads for a single plaintext, on a cipher freshly keyed as the Noise layer does it.\<close>

definition aead_seal :: "bytes \<Rightarrow> bytes \<Rightarrow> nonce96 \<Rightarrow> bytes \<Rightarrow> bytes" where
  "aead_seal key aad nonce plain = fst (AEAD_Encrypt plain [] aad nonce (ChaCha20 key))"

definition aead_open :: "bytes \<Rightarrow> bytes \<Rightarrow> nonce96 \<Rightarrow> bytes \<Rightarrow> bytes option" where
  "aead_open key aad nonce cipher =
     map_option fst (fst (AEAD_Decrypt cipher aad nonce (length cipher - EXPANSION) 0 (ChaCha20 key)))"

record fs_aead =
  fs_aead_cipher :: chacha20
  fs_rekey_interval :: u32
  fs_packet_counter :: u32
  fs_rekey_counter :: u64

definition FSChaCha20Poly1305_NextPacket :: "fs_aead \<Rightarrow> fs_aead" where
  "FSChaCha20Poly1305_NextPacket f =
     (let n = fs_packet_counter f + 1 in
      if n = fs_rekey_interval f then
        let (one_block, c) = AEAD_Keystream (0xFFFFFFFF, fs_rekey_counter f) 64 (fs_aead_cipher f)
        in f\<lparr>fs_aead_cipher := ChaCha20_SetKey (take 32 one_block) c, fs_packet_counter := 0,
             fs_rekey_counter := fs_rekey_counter f + 1\<rparr>
      else f\<lparr>fs_packet_counter := n\<rparr>)"

definition FSChaCha20Poly1305_Encrypt ::
  "bytes \<Rightarrow> bytes \<Rightarrow> bytes \<Rightarrow> fs_aead \<Rightarrow> bytes \<times> fs_aead" where
  "FSChaCha20Poly1305_Encrypt plain1 plain2 aad f =
     (let (out, c) = AEAD_Encrypt plain1 plain2 aad (fs_packet_counter f, fs_rekey_counter f) (fs_aead_cipher f)
      in (out, FSChaCha20Poly1305_NextPacket (f\<lparr>fs_aead_cipher := c\<rparr>)))"

definition FSChaCha20Poly1305_Decrypt ::
  "bytes \<Rightarrow> bytes \<Rightarrow> nat \<Rightarrow> nat \<Rightarrow> fs_aead \<Rightarrow> (bytes \<times> bytes) option \<times> fs_aead" where
  "FSChaCha20Poly1305_Decrypt cipher aad n1 n2 f =
     (let (out, c) = AEAD_Decrypt cipher aad (fs_packet_counter f, fs_rekey_counter f) n1 n2 (fs_aead_cipher f)
      in (out, FSChaCha20Poly1305_NextPacket (f\<lparr>fs_aead_cipher := c\<rparr>)))"

section \<open>Comparison of tags\<close>

lemma foldl_or_zero: "foldl (OR) (a :: u8) xs = 0 \<longleftrightarrow> a = 0 \<and> (\<forall>x \<in> set xs. x = 0)"
  by (induction xs arbitrary: a) (auto simp: or_eq_0_iff)

lemma bcmp_iff:
  "length a = length b \<Longrightarrow> timingsafe_bcmp_internal a b \<longleftrightarrow> a \<noteq> b"
proof (induction a b rule: list_induct2)
  case Nil
  then show ?case by (simp add: timingsafe_bcmp_internal_def)
next
  case (Cons x xs y ys)
  have "x XOR y = 0 \<longleftrightarrow> x = y" by (metis xor.assoc xor.right_neutral xor_self_eq)
  then show ?case using Cons by (auto simp: timingsafe_bcmp_internal_def foldl_or_zero)
qed

section \<open>Positions of the keystream\<close>

text \<open>
  \<^verbatim>\<open>aead_ks\<close> is the keystream used for the data, from block 1 on. Encryption seeks to it;
  decryption arrives at it after drawing block 0 for the tag.
\<close>

definition aead_ks :: "nonce96 \<Rightarrow> u32 list \<Rightarrow> nat \<Rightarrow> u8" where
  "aead_ks nonce j = block_byte (ChaCha20Aligned_Seek nonce 1 j)"

definition poly_tag :: "bytes \<Rightarrow> bytes \<Rightarrow> bytes \<Rightarrow> bytes" where
  "poly_tag first_block aad cipher =
     (let p = poly1305_init (take 32 first_block);
          p = poly1305_update (zeros ((16 - length aad mod 16) mod 16)) (poly1305_update aad p);
          p = poly1305_update (zeros ((16 - length cipher mod 16) mod 16)) (poly1305_update cipher p);
          p = poly1305_update (WriteLE64 (of_nat (length aad)) @ WriteLE64 (of_nat (length cipher))) p
      in fst (poly1305_finish p))"

definition aead_tag :: "nonce96 \<Rightarrow> u32 list \<Rightarrow> bytes \<Rightarrow> bytes \<Rightarrow> bytes" where
  "aead_tag nonce j aad body = poly_tag (map (block_byte (ChaCha20Aligned_Seek nonce 0 j)) [0..<64]) aad body"

lemma length_aead_tag [simp]: "length (aead_tag nonce j aad body) = 16"
  by (simp add: aead_tag_def poly_tag_def Let_def)

lemma cc_stream_Seek: "cc_stream (ChaCha20_Seek nonce b c) = block_byte (ChaCha20Aligned_Seek nonce b (m_aligned c))"
  by (auto simp: cc_stream_def ChaCha20_Seek_def)

lemma bump_Seek:
  "length j = 12 \<Longrightarrow> bump_counter (ChaCha20Aligned_Seek nonce 0 j) = ChaCha20Aligned_Seek nonce 1 j"
  by (simp add: bump_counter_def ChaCha20Aligned_Seek_def Let_def list_update_swap)

lemma Seek_advance:
  assumes "length j = 12"
  shows "block_byte (ChaCha20Aligned_Seek nonce 0 j) (64 + i) = aead_ks nonce j i"
  using block_byte_bumps [of 1 "ChaCha20Aligned_Seek nonce 0 j" i] bump_Seek [OF assms]
  by (simp add: aead_ks_def)

text \<open>
  The key schedule: only the first eight words of the aligned state survive a \<^verbatim>\<open>Seek\<close>, and the
  stream operations never change them.
\<close>

lemma Seek_key_only:
  assumes "length j = 12" "length j' = 12" "take 8 j = take 8 j'"
  shows "ChaCha20Aligned_Seek nonce b j = ChaCha20Aligned_Seek nonce b j'"
proof (rule nth_equalityI)
  fix i assume i: "i < length (ChaCha20Aligned_Seek nonce b j)"
  have "i < 8 \<Longrightarrow> j ! i = j' ! i" using assms by (metis nth_take)
  moreover have "i < 8 \<or> i = 8 \<or> i = 9 \<or> i = 10 \<or> i = 11" using i assms by auto
  ultimately show "ChaCha20Aligned_Seek nonce b j ! i = ChaCha20Aligned_Seek nonce b j' ! i"
    using assms by (auto simp: ChaCha20Aligned_Seek_def)
qed (use assms in simp)

lemma take8_bump [simp]: "take 8 (bump_counter j) = take 8 j"
  by (simp add: bump_counter_def Let_def)

lemma take8_bumps [simp]: "take 8 ((bump_counter ^^ n) j) = take 8 j"
  by (induction n) simp_all

lemma take8_Seek [simp]: "take 8 (ChaCha20Aligned_Seek nonce b j) = take 8 j"
  by (simp add: ChaCha20Aligned_Seek_def)

lemma take8_ChaCha20_Seek [simp]: "take 8 (m_aligned (ChaCha20_Seek nonce b c)) = take 8 (m_aligned c)"
  by (simp add: ChaCha20_Seek_def)

lemma take8_Aligned [simp]:
  "take 8 (snd (ChaCha20Aligned_Keystream n j)) = take 8 j"
  by (induction n j rule: ChaCha20Aligned_Keystream.induct) (simp_all add: Let_def split_beta)

lemma take8_stages [simp]:
  "take 8 (m_aligned (snd (ks_reuse n c))) = take 8 (m_aligned c)"
  "take 8 (m_aligned (snd (ks_blocks n c))) = take 8 (m_aligned c)"
  "take 8 (m_aligned (snd (ks_tail n c))) = take 8 (m_aligned c)"
  using take8_Aligned [of 1 "m_aligned c"]
  by (simp_all add: ks_reuse_def ks_blocks_def ks_tail_def Let_def split_beta del: ChaCha20Aligned_Keystream.simps One_nat_def)

lemma take8_Keystream [simp]: "take 8 (m_aligned (snd (ChaCha20_Keystream n c))) = take 8 (m_aligned c)"
  by (simp add: ChaCha20_Keystream_def Let_def split_beta)

lemma take8_Crypt [simp]:
  "cc_wf c \<Longrightarrow> take 8 (m_aligned (snd (ChaCha20_Crypt inp c))) = take 8 (m_aligned c)"
  by (simp add: Crypt_Keystream)

section \<open>What the operations compute\<close>

lemma ComputeTag_Seek:
  assumes "cc_wf c" "take 8 (m_aligned c) = take 8 j" "length j = 12"
  shows "fst (ComputeTag (ChaCha20_Seek nonce 0 c) aad body) = aead_tag nonce j aad body"
    "cc_wf (snd (ComputeTag (ChaCha20_Seek nonce 0 c) aad body))"
    "cc_stream (snd (ComputeTag (ChaCha20_Seek nonce 0 c) aad body)) = aead_ks nonce j"
    "take 8 (m_aligned (snd (ComputeTag (ChaCha20_Seek nonce 0 c) aad body))) = take 8 j"
proof -
  let ?c = "ChaCha20_Seek nonce 0 c"
  have k: "ChaCha20Aligned_Seek nonce 0 (m_aligned c) = ChaCha20Aligned_Seek nonce 0 j"
    using assms by (intro Seek_key_only) (simp_all add: cc_wf_def)
  have y: "yields ?c 64 (ChaCha20_Keystream 64 ?c)"
    using assms by (intro Keystream_yields) simp
  have t: "ComputeTag ?c aad body =
      (poly_tag (fst (ChaCha20_Keystream 64 ?c)) aad body, snd (ChaCha20_Keystream 64 ?c))"
    by (simp add: ComputeTag_def poly_tag_def Let_def split_beta)
  show "fst (ComputeTag ?c aad body) = aead_tag nonce j aad body"
    "cc_wf (snd (ComputeTag ?c aad body))"
    "cc_stream (snd (ComputeTag ?c aad body)) = aead_ks nonce j"
    using y k Seek_advance [OF assms(3), of nonce]
    by (simp_all add: t aead_tag_def yields_def cc_stream_Seek fun_eq_iff)
  show "take 8 (m_aligned (snd (ComputeTag ?c aad body))) = take 8 j"
    using assms by (simp add: t)
qed

lemma AEAD_Encrypt_eq:
  assumes "cc_wf c" "take 8 (m_aligned c) = take 8 j" "length j = 12"
  shows "fst (AEAD_Encrypt p1 p2 aad nonce c) =
    (let body = xor_bytes (p1 @ p2) (map (aead_ks nonce j) [0..<length (p1 @ p2)])
     in body @ aead_tag nonce j aad body)"
    "cc_wf (snd (AEAD_Encrypt p1 p2 aad nonce c))"
    "take 8 (m_aligned (snd (AEAD_Encrypt p1 p2 aad nonce c))) = take 8 j"
proof -
  let ?c1 = "ChaCha20_Seek nonce 1 c"
  let ?c2 = "snd (ChaCha20_Crypt p1 ?c1)"
  let ?c3 = "snd (ChaCha20_Crypt p2 ?c2)"
  let ?body = "fst (ChaCha20_Crypt p1 ?c1) @ fst (ChaCha20_Crypt p2 ?c2)"
  have k: "ChaCha20Aligned_Seek nonce 1 (m_aligned c) = ChaCha20Aligned_Seek nonce 1 j"
    using assms by (intro Seek_key_only) (simp_all add: cc_wf_def)
  have wf: "cc_wf ?c1" "cc_wf ?c2" "cc_wf ?c3" using assms by (simp_all add: Crypt_stream)
  have t8: "take 8 (m_aligned ?c3) = take 8 j"
    using assms wf by simp
  have s: "cc_stream ?c1 = aead_ks nonce j"
    by (simp add: cc_stream_Seek k aead_ks_def)
  have b: "?body = xor_bytes (p1 @ p2) (map (aead_ks nonce j) [0..<length (p1 @ p2)])"
    using wf s by (simp add: Crypt_stream map_upt_add xor_bytes_append)
  have e: "AEAD_Encrypt p1 p2 aad nonce c =
      (?body @ fst (ComputeTag (ChaCha20_Seek nonce 0 ?c3) aad ?body),
       snd (ComputeTag (ChaCha20_Seek nonce 0 ?c3) aad ?body))"
    by (simp add: AEAD_Encrypt_def Let_def split_beta)
  show "fst (AEAD_Encrypt p1 p2 aad nonce c) =
    (let body = xor_bytes (p1 @ p2) (map (aead_ks nonce j) [0..<length (p1 @ p2)])
     in body @ aead_tag nonce j aad body)"
    unfolding e using ComputeTag_Seek(1) [OF wf(3) t8 assms(3)] b by (simp add: Let_def)
  show "cc_wf (snd (AEAD_Encrypt p1 p2 aad nonce c))"
    "take 8 (m_aligned (snd (AEAD_Encrypt p1 p2 aad nonce c))) = take 8 j"
    unfolding e using ComputeTag_Seek(2,4) [OF wf(3) t8 assms(3)] by simp_all
qed

lemma AEAD_Decrypt_eq:
  assumes "cc_wf c" "take 8 (m_aligned c) = take 8 j" "length j = 12"
    and len: "length cipher = n1 + n2 + EXPANSION"
  shows "fst (AEAD_Decrypt cipher aad nonce n1 n2 c) =
    (let body = take (n1 + n2) cipher; plain = xor_bytes body (map (aead_ks nonce j) [0..<n1 + n2])
     in if drop (n1 + n2) cipher = aead_tag nonce j aad body
        then Some (take n1 plain, drop n1 plain) else None)"
proof -
  let ?body = "take (n1 + n2) cipher"
  let ?t = "ComputeTag (ChaCha20_Seek nonce 0 c) aad ?body"
  have t: "fst ?t = aead_tag nonce j aad ?body" and wf: "cc_wf (snd ?t)"
    and s: "cc_stream (snd ?t) = aead_ks nonce j"
    using ComputeTag_Seek [OF assms(1,2,3)] by auto
  have body: "?body = take n1 cipher @ take n2 (drop n1 cipher)"
    by (simp add: take_add)
  have lens: "length (take n1 cipher) = n1" "length (take n2 (drop n1 cipher)) = n2"
    using len by simp_all
  have "xor_bytes ?body (map (aead_ks nonce j) [0..<n1 + n2]) =
      xor_bytes (take n1 cipher) (map (aead_ks nonce j) [0..<n1]) @
      xor_bytes (take n2 (drop n1 cipher)) (map (\<lambda>i. aead_ks nonce j (n1 + i)) [0..<n2])"
    using lens by (simp add: body map_upt_add xor_bytes_append)
  then have pl: "fst (ChaCha20_Crypt (take n1 cipher) (snd ?t)) =
        take n1 (xor_bytes ?body (map (aead_ks nonce j) [0..<n1 + n2]))"
    "fst (ChaCha20_Crypt (take n2 (drop n1 cipher)) (snd (ChaCha20_Crypt (take n1 cipher) (snd ?t)))) =
        drop n1 (xor_bytes ?body (map (aead_ks nonce j) [0..<n1 + n2]))"
    using wf s lens by (simp_all add: Crypt_stream)
  have "timingsafe_bcmp_internal (fst ?t) (drop (n1 + n2) cipher) \<longleftrightarrow>
      drop (n1 + n2) cipher \<noteq> aead_tag nonce j aad ?body"
    using len bcmp_iff [of "fst ?t" "drop (n1 + n2) cipher"] by (auto simp: t EXPANSION_def)
  then show ?thesis
    using pl len by (simp add: AEAD_Decrypt_def Let_def split_beta EXPANSION_def)
qed

lemma key_shape: "cc_wf (ChaCha20 key)" "length (ChaCha20Aligned_SetKey key) = 12"
  "take 8 (m_aligned (ChaCha20 key)) = take 8 (ChaCha20Aligned_SetKey key)"
  by (simp_all add: ChaCha20_def cc_wf_def)

lemma aead_seal_eq:
  "aead_seal key aad nonce plain =
    (let body = xor_bytes plain (map (aead_ks nonce (ChaCha20Aligned_SetKey key)) [0..<length plain])
     in body @ aead_tag nonce (ChaCha20Aligned_SetKey key) aad body)"
  using AEAD_Encrypt_eq(1) [OF key_shape(1,3,2), of plain "[]"] by (simp add: aead_seal_def)

lemma aead_open_eq:
  assumes "EXPANSION \<le> length cipher"
  shows "aead_open key aad nonce cipher =
    (let n = length cipher - EXPANSION; body = take n cipher in
     if drop n cipher = aead_tag nonce (ChaCha20Aligned_SetKey key) aad body
     then Some (xor_bytes body (map (aead_ks nonce (ChaCha20Aligned_SetKey key)) [0..<n])) else None)"
  using AEAD_Decrypt_eq [OF key_shape(1,3,2), of cipher "length cipher - EXPANSION" 0 aad nonce key] assms
  by (simp add: aead_open_def Let_def)

section \<open>The contract of an authenticated cipher\<close>

text \<open>
  What the Noise layer relies on: the ciphertext is the plaintext and a tag of sixteen bytes
  longer; opening a sealed message gives it back; and opening succeeds only on the sealed form
  of what it returns, so a modified ciphertext, nonce or associated data that does not carry
  the tag of its own content is refused.
\<close>

locale aead =
  fixes seal :: "bytes \<Rightarrow> bytes \<Rightarrow> nonce96 \<Rightarrow> bytes \<Rightarrow> bytes"
    and opn :: "bytes \<Rightarrow> bytes \<Rightarrow> nonce96 \<Rightarrow> bytes \<Rightarrow> bytes option"
    and tag_len :: nat
  assumes length_seal: "length (seal k ad n p) = length p + tag_len"
    and open_seal: "opn k ad n (seal k ad n p) = Some p"
    and open_only_sealed: "tag_len \<le> length c \<Longrightarrow> opn k ad n c = Some p \<Longrightarrow> c = seal k ad n p"
begin

lemma open_iff:
  "tag_len \<le> length c \<Longrightarrow> opn k ad n c = Some p \<longleftrightarrow> c = seal k ad n p"
  using open_seal open_only_sealed by blast

lemma seal_inj: "seal k ad n p = seal k ad n q \<Longrightarrow> p = q"
  by (metis open_seal option.inject)

lemma open_length: "tag_len \<le> length c \<Longrightarrow> opn k ad n c = Some p \<Longrightarrow> length c = length p + tag_len"
  using open_only_sealed length_seal by blast

end

interpretation chachapoly: aead aead_seal aead_open EXPANSION
proof
  fix k ad n p
  show "length (aead_seal k ad n p) = length p + EXPANSION"
    by (simp add: aead_seal_eq Let_def EXPANSION_def)
  show "aead_open k ad n (aead_seal k ad n p) = Some p"
    by (subst aead_open_eq) (simp_all add: aead_seal_eq Let_def EXPANSION_def)
next
  fix c k ad n p
  assume len: "EXPANSION \<le> length c" and o: "aead_open k ad n c = Some p"
  let ?n = "length c - EXPANSION"
  have tag: "drop ?n c = aead_tag n (ChaCha20Aligned_SetKey k) ad (take ?n c)"
    and p: "p = xor_bytes (take ?n c) (map (aead_ks n (ChaCha20Aligned_SetKey k)) [0..<?n])"
    using o by (auto simp: aead_open_eq [OF len] Let_def split: if_splits)
  have "xor_bytes p (map (aead_ks n (ChaCha20Aligned_SetKey k)) [0..<length p]) = take ?n c"
    using len by (simp add: p)
  then show "c = aead_seal k ad n p"
    unfolding aead_seal_eq Let_def by (metis append_take_drop_id tag)
qed

end
