(* ===== verification/Sv2_CipherState.thy ===== *)
theory Sv2_CipherState
  imports Sv2_Prelude Crypto_AEAD
begin

text \<open>
  The cipher state of \<^verbatim>\<open>src/src/sv2/noise.cpp\<close>: encryption and decryption of one Noise message
  under a key and a counting nonce, and of application messages of any length in chunks of at
  most 65535 bytes. A span argument that is written to is passed as the buffer's content and
  returned updated.
\<close>

section \<open>Sizes\<close>

definition NOISE_MAX_CHUNK_SIZE :: nat where "NOISE_MAX_CHUNK_SIZE = 65535"
definition TAGLEN :: nat where "TAGLEN = 16"
definition SIGNATURE_NOISE_MESSAGE_SIZE :: nat where "SIGNATURE_NOISE_MESSAGE_SIZE = 2 + 4 + 4 + 64"
definition ELLSWIFT_PUB_KEY_SIZE :: nat where "ELLSWIFT_PUB_KEY_SIZE = 64"
definition HANDSHAKE_STEP2_SIZE :: nat where
  "HANDSHAKE_STEP2_SIZE =
     ELLSWIFT_PUB_KEY_SIZE + ELLSWIFT_PUB_KEY_SIZE + TAGLEN + SIGNATURE_NOISE_MESSAGE_SIZE + TAGLEN"

lemmas noise_sizes = NOISE_MAX_CHUNK_SIZE_def TAGLEN_def SIGNATURE_NOISE_MESSAGE_SIZE_def
  ELLSWIFT_PUB_KEY_SIZE_def HANDSHAKE_STEP2_SIZE_def EXPANSION_def

text \<open>Arithmetic on \<^verbatim>\<open>size_t\<close> wraps at 64 bits.\<close>

definition EncryptedMessageSize :: "nat \<Rightarrow> nat" where
  "EncryptedMessageSize msg_len =
     (let chunk_size = NOISE_MAX_CHUNK_SIZE - TAGLEN;
          num_chunks = ((msg_len + chunk_size - 1) mod 2 ^ 64) div chunk_size
      in (msg_len + num_chunks * TAGLEN) mod 2 ^ 64)"

section \<open>The cipher state\<close>

record cipher_state =
  cs_key :: bytes
  cs_nonce :: u64

abbreviation UINT64_MAX :: u64 where "UINT64_MAX \<equiv> - 1"

definition Sv2CipherState :: "bytes \<Rightarrow> cipher_state" where
  "Sv2CipherState key = \<lparr>cs_key = key, cs_nonce = 0\<rparr>"

definition DecryptWithAd ::
  "bytes \<Rightarrow> bytes \<Rightarrow> bytes \<Rightarrow> cipher_state \<Rightarrow> (bool \<times> bytes \<times> cipher_state) res" where
  "DecryptWithAd associated_data ciphertext plain cs =
     res_bind (Assume (EncryptedMessageSize (length plain) = length ciphertext) ''DecryptWithAd sizes'') (\<lambda>_.
     if cs_nonce cs = UINT64_MAX then Ret (False, plain, cs)
     else
       res_bind (Assume (length ciphertext = length plain + EXPANSION) ''cipher.size()'') (\<lambda>_.
       case aead_open (cs_key cs) associated_data (0, cs_nonce cs) ciphertext of
         None \<Rightarrow> Ret (False, plain, cs)
       | Some p \<Rightarrow> Ret (True, p, cs\<lparr>cs_nonce := cs_nonce cs + 1\<rparr>)))"

definition EncryptWithAd ::
  "bytes \<Rightarrow> bytes \<Rightarrow> bytes \<Rightarrow> cipher_state \<Rightarrow> (bool \<times> bytes \<times> cipher_state) res" where
  "EncryptWithAd associated_data plain ciphertext cs =
     res_bind (Assume (EncryptedMessageSize (length plain) = length ciphertext) ''EncryptWithAd sizes'') (\<lambda>_.
     if cs_nonce cs = UINT64_MAX then Ret (False, ciphertext, cs)
     else
       res_bind (Assume (length ciphertext = length plain + EXPANSION) ''cipher.size()'') (\<lambda>_.
       Ret (True, aead_seal (cs_key cs) associated_data (0, cs_nonce cs) plain,
            cs\<lparr>cs_nonce := cs_nonce cs + 1\<rparr>)))"

text \<open>\<^verbatim>\<open>EncryptMessage\<close>: first the plain chunks are spread over the output buffer, then each is encrypted in place.\<close>

definition max_chunk_size :: nat where "max_chunk_size = NOISE_MAX_CHUNK_SIZE - TAGLEN"

definition num_chunks :: "nat \<Rightarrow> nat" where
  "num_chunks n = ((n + max_chunk_size - 1) mod 2 ^ 64) div max_chunk_size"

definition copy_chunk :: "bytes \<Rightarrow> nat \<Rightarrow> bytes \<Rightarrow> bytes" where
  "copy_chunk plain i ciphertext =
     (let chunk_start = i * max_chunk_size;
          chunk_end = min (chunk_start + max_chunk_size) (length plain);
          chunk_size = chunk_end - chunk_start;
          encrypted_chunk_start = i * NOISE_MAX_CHUNK_SIZE;
          c1 = overwrite encrypted_chunk_start (take chunk_size (drop chunk_start plain)) ciphertext
      in overwrite (encrypted_chunk_start + chunk_size) (zeros TAGLEN) c1)"

fun encrypt_chunks :: "nat \<Rightarrow> nat \<Rightarrow> bytes \<Rightarrow> cipher_state \<Rightarrow> (bool \<times> nat \<times> bytes \<times> cipher_state) res" where
  "encrypt_chunks 0 bytes_written ciphertext cs = Ret (True, bytes_written, ciphertext, cs)"
| "encrypt_chunks (Suc n) bytes_written ciphertext cs =
     (let chunk_size = min (length ciphertext - bytes_written) NOISE_MAX_CHUNK_SIZE;
          chunk = take chunk_size (drop bytes_written ciphertext);
          chunk_plain = take (chunk_size - TAGLEN) (drop bytes_written ciphertext)
      in res_bind (EncryptWithAd [] chunk_plain chunk cs) (\<lambda>(ok, chunk', cs').
         if \<not> ok then Ret (False, bytes_written, ciphertext, cs')
         else encrypt_chunks n (bytes_written + length chunk')
                (overwrite bytes_written chunk' ciphertext) cs'))"

definition CipherState_EncryptMessage ::
  "bytes \<Rightarrow> bytes \<Rightarrow> cipher_state \<Rightarrow> (bool \<times> bytes \<times> cipher_state) res" where
  "CipherState_EncryptMessage plain ciphertext cs =
     res_bind (Assume (length ciphertext = EncryptedMessageSize (length plain)) ''EncryptMessage sizes'') (\<lambda>_.
     let n = num_chunks (length plain);
         c1 = fold (copy_chunk plain) [0..<n] ciphertext
     in res_bind (encrypt_chunks n 0 c1 cs) (\<lambda>(ok, bytes_written, c2, cs').
        if \<not> ok then Ret (False, c2, cs')
        else res_bind (Assume (bytes_written = length c2) ''bytes_written'') (\<lambda>_. Ret (True, c2, cs'))))"

function (sequential) decrypt_chunks ::
  "bytes \<Rightarrow> nat \<Rightarrow> nat \<Rightarrow> bytes \<Rightarrow> cipher_state \<Rightarrow> (bool \<times> bytes \<times> cipher_state) res" where
  "decrypt_chunks ciphertext processed plain_position plain cs =
     (if processed < length ciphertext then
        let chunk_size = min (length ciphertext - processed) NOISE_MAX_CHUNK_SIZE;
            chunk_cipher = take chunk_size (drop processed ciphertext)
        in if chunk_size < TAGLEN \<or> plain_position + (chunk_size - TAGLEN) > length plain
           then Abort ''subspan''
           else let chunk_plain = take (chunk_size - TAGLEN) (drop plain_position plain)
                in res_bind (DecryptWithAd [] chunk_cipher chunk_plain cs) (\<lambda>(ok, p, cs').
                   if \<not> ok then Ret (False, plain, cs')
                   else decrypt_chunks ciphertext (processed + chunk_size)
                          (plain_position + (chunk_size - TAGLEN)) (overwrite plain_position p plain) cs')
      else Ret (True, plain, cs))"
  by pat_completeness auto
termination
  by (relation "measure (\<lambda>(c, n, _, _, _). length c - n)")
    (auto simp: NOISE_MAX_CHUNK_SIZE_def)

declare decrypt_chunks.simps [simp del]

definition CipherState_DecryptMessage ::
  "bytes \<Rightarrow> bytes \<Rightarrow> cipher_state \<Rightarrow> (bool \<times> bytes \<times> cipher_state) res" where
  "CipherState_DecryptMessage ciphertext plain cs =
     res_bind (Assume (EncryptedMessageSize (length plain) = length ciphertext) ''DecryptMessage sizes'') (\<lambda>_.
     decrypt_chunks ciphertext 0 0 plain cs)"

section \<open>Facts on sizes\<close>

lemma num_chunks_eq: "n < 2 ^ 60 \<Longrightarrow> num_chunks n = (n + 65518) div 65519"
  by (simp add: num_chunks_def max_chunk_size_def noise_sizes)

lemma EncryptedMessageSize_num_chunks:
  "EncryptedMessageSize n = (n + num_chunks n * 16) mod 2 ^ 64"
  by (simp add: EncryptedMessageSize_def num_chunks_def max_chunk_size_def noise_sizes Let_def)

lemma EncryptedMessageSize_eq:
  assumes "n < 2 ^ 60"
  shows "EncryptedMessageSize n = n + 16 * num_chunks n"
proof -
  have "num_chunks n * 65519 \<le> n + 65518"
    unfolding num_chunks_eq [OF assms] by (rule div_times_less_eq_dividend)
  then have "n + num_chunks n * 16 < 2 ^ 64" using assms by simp
  then show ?thesis by (simp add: EncryptedMessageSize_num_chunks)
qed

lemma num_chunks_small: "0 < n \<Longrightarrow> n \<le> 65519 \<Longrightarrow> num_chunks n = 1"
proof -
  assume n: "0 < n" "n \<le> 65519"
  then have "(n + 65518) div 65519 = 1" by (intro div_nat_eqI) simp_all
  then show "num_chunks n = 1" using n by (simp add: num_chunks_eq)
qed

lemma EncryptedMessageSize_small: "0 < n \<Longrightarrow> n \<le> 65519 \<Longrightarrow> EncryptedMessageSize n = n + 16"
  by (simp add: EncryptedMessageSize_eq num_chunks_small)

section \<open>Single chunks\<close>

definition bump_nonce :: "cipher_state \<Rightarrow> cipher_state" where
  "bump_nonce cs = cs\<lparr>cs_nonce := cs_nonce cs + 1\<rparr>"

abbreviation seal_cs :: "bytes \<Rightarrow> cipher_state \<Rightarrow> bytes \<Rightarrow> bytes" where
  "seal_cs ad cs p \<equiv> aead_seal (cs_key cs) ad (0, cs_nonce cs) p"

lemma bump_nonce_key [simp]: "cs_key (bump_nonce cs) = cs_key cs"
  by (simp add: bump_nonce_def)

lemma nonce_lt_max: "x \<noteq> UINT64_MAX \<longleftrightarrow> unat x < 2 ^ 64 - 1"
proof -
  have "unat UINT64_MAX = 2 ^ 64 - 1" by (simp add: unsigned_minus_1_eq_mask mask_eq_exp_minus_1)
  then show ?thesis using unat_lt2p [of x] by (auto simp: word_unat_eq_iff)
qed

lemma unat_bump_nonce:
  "cs_nonce cs \<noteq> UINT64_MAX \<Longrightarrow> unat (cs_nonce (bump_nonce cs)) = unat (cs_nonce cs) + 1"
  unfolding nonce_lt_max by (simp add: bump_nonce_def unat_word_ariths)

lemma EncryptWithAd_ok:
  assumes "0 < length p" "length p \<le> 65519" "length c = length p + 16" "cs_nonce cs \<noteq> UINT64_MAX"
  shows "EncryptWithAd ad p c cs = Ret (True, seal_cs ad cs p, bump_nonce cs)"
  using assms by (simp add: EncryptWithAd_def EncryptedMessageSize_small EXPANSION_def bump_nonce_def)

lemma EncryptWithAd_exhausted:
  assumes "0 < length p" "length p \<le> 65519" "length c = length p + 16" "cs_nonce cs = UINT64_MAX"
  shows "EncryptWithAd ad p c cs = Ret (False, c, cs)"
  using assms by (simp add: EncryptWithAd_def EncryptedMessageSize_small)

lemma length_seal: "length (seal_cs ad cs p) = length p + 16"
  by (simp add: chachapoly.length_seal EXPANSION_def)

lemma DecryptWithAd_ok:
  assumes "0 < length q" "length q \<le> 65519" "length c = length q + 16" "cs_nonce cs \<noteq> UINT64_MAX"
  shows "DecryptWithAd ad c q cs =
    (case aead_open (cs_key cs) ad (0, cs_nonce cs) c of
       None \<Rightarrow> Ret (False, q, cs) | Some p \<Rightarrow> Ret (True, p, bump_nonce cs))"
  using assms
  by (simp add: DecryptWithAd_def EncryptedMessageSize_small EXPANSION_def bump_nonce_def
      split: option.split)

lemma DecryptWithAd_seal:
  assumes "0 < length p" "length p \<le> 65519" "length q = length p" "cs_nonce cs \<noteq> UINT64_MAX"
  shows "DecryptWithAd ad (seal_cs ad cs p) q cs = Ret (True, p, bump_nonce cs)"
  using assms by (simp add: DecryptWithAd_ok length_seal chachapoly.open_seal)

lemma DecryptWithAd_True:
  assumes "DecryptWithAd ad c q cs = Ret (True, p, cs')"
  shows "c = seal_cs ad cs p" "cs' = bump_nonce cs" "cs_nonce cs \<noteq> UINT64_MAX" "length p = length q"
proof -
  have len: "EXPANSION \<le> length c" "length c = length q + EXPANSION"
    and n: "cs_nonce cs \<noteq> UINT64_MAX"
    and o: "aead_open (cs_key cs) ad (0, cs_nonce cs) c = Some p" "cs' = bump_nonce cs"
    using assms by (auto simp: DecryptWithAd_def res_simps bump_nonce_def split: if_splits option.splits)
  show "c = seal_cs ad cs p" using chachapoly.open_only_sealed [OF len(1) o(1)] .
  then show "length p = length q" using len(2) by (simp add: length_seal EXPANSION_def)
  show "cs' = bump_nonce cs" "cs_nonce cs \<noteq> UINT64_MAX" using o n by auto
qed

lemma DecryptWithAd_total:
  assumes "0 < length q" "length q \<le> 65519" "length c = length q + 16"
  shows "\<exists>ok p cs'. DecryptWithAd ad c q cs = Ret (ok, p, cs') \<and> length p = length q"
proof (cases "cs_nonce cs = UINT64_MAX")
  case True
  then show ?thesis using assms by (auto simp: DecryptWithAd_def EncryptedMessageSize_small)
next
  case False
  show ?thesis using DecryptWithAd_ok [OF assms False, of ad] DecryptWithAd_True(4) [of ad c q cs]
    by (cases "aead_open (cs_key cs) ad (0, cs_nonce cs) c") auto
qed

section \<open>Chunks\<close>

text \<open>
  The reference for a long message: cut it into pieces of at most 65519 bytes and seal the
  pieces under consecutive nonces.
\<close>

function chunks :: "bytes \<Rightarrow> bytes list" where
  "chunks p = (if p = [] then [] else take max_chunk_size p # chunks (drop max_chunk_size p))"
  by pat_completeness auto
termination by (relation "measure length") (auto simp: max_chunk_size_def noise_sizes)

declare chunks.simps [simp del]

fun seal_chunks :: "cipher_state \<Rightarrow> bytes list \<Rightarrow> bytes \<times> cipher_state" where
  "seal_chunks cs [] = ([], cs)"
| "seal_chunks cs (p # ps) =
     (let (r, cs') = seal_chunks (bump_nonce cs) ps in (seal_cs [] cs p @ r, cs'))"

text \<open>Every piece is full except the last, which is not empty.\<close>

fun chunked :: "bytes list \<Rightarrow> bool" where
  "chunked [] = True"
| "chunked (c # L) =
     (if L = [] then 0 < length c \<and> length c \<le> 65519 else length c = 65519 \<and> chunked L)"

lemma max_chunk_size_eq: "max_chunk_size = 65519"
  by (simp add: max_chunk_size_def noise_sizes)

lemma chunks_Nil [simp]: "chunks [] = []" by (simp add: chunks.simps)

lemma chunks_eq_Nil [simp]: "chunks p = [] \<longleftrightarrow> p = []" by (subst chunks.simps) simp

lemma concat_chunks [simp]: "concat (chunks p) = p"
  by (induction p rule: chunks.induct) (subst chunks.simps, simp)

lemma chunked_chunks: "chunked (chunks p)"
proof (induction p rule: chunks.induct)
  case (1 p)
  then show ?case by (subst chunks.simps) (auto simp: max_chunk_size_eq)
qed

lemma chunked_length: "chunked L \<Longrightarrow> length (concat L) = 0 \<and> L = [] \<or>
    65519 * (length L - 1) < length (concat L) \<and> length (concat L) \<le> 65519 * length L \<and> L \<noteq> []"
  by (induction L) (auto simp: Suc_diff_1 split: if_splits)

lemma chunked_num_chunks:
  assumes "chunked L" "length (concat L) < 2 ^ 60"
  shows "num_chunks (length (concat L)) = length L"
proof (cases "L = []")
  case True
  then show ?thesis by (simp add: num_chunks_eq)
next
  case False
  then have "65519 * (length L - 1) < length (concat L)" "length (concat L) \<le> 65519 * length L"
    using chunked_length [OF assms(1)] by auto
  then have "(length (concat L) + 65518) div 65519 = length L"
    using False by (intro div_nat_eqI) (cases L; simp)+
  then show ?thesis using assms(2) by (simp only: num_chunks_eq)
qed

lemma length_seal_chunks: "length (fst (seal_chunks cs L)) = length (concat L) + 16 * length L"
  by (induction L arbitrary: cs) (auto simp: split_beta Let_def length_seal)

section \<open>Encrypting a message chunk by chunk\<close>

abbreviation pad_tag :: "bytes \<Rightarrow> bytes" where "pad_tag c \<equiv> c @ zeros 16"

lemma length_padded: "length (concat (map pad_tag L)) = length (concat L) + 16 * length L"
  by (induction L) simp_all

lemma chunked_take: "chunked L \<Longrightarrow> i < length L \<Longrightarrow> length (concat (take i L)) = i * 65519"
proof (induction L arbitrary: i)
  case (Cons c L)
  then show ?case by (cases i) (auto split: if_splits)
qed simp

lemma chunked_nth: "chunked L \<Longrightarrow> c \<in> set L \<Longrightarrow> 0 < length c \<and> length c \<le> 65519"
  by (induction L) (auto split: if_splits)

lemma concat_split_nth: "i < length L \<Longrightarrow> concat L = concat (take i L) @ L ! i @ concat (drop (Suc i) L)"
  by (metis append_take_drop_id concat.simps(2) concat_append Cons_nth_drop_Suc)

lemma chunked_nth_min:
  assumes "chunked L" "i < length L"
  shows "min (i * 65519 + 65519) (length (concat L)) - i * 65519 = length (L ! i)"
proof (cases "Suc i < length L")
  case True
  have "length (concat (take (Suc i) L)) = Suc i * 65519" using chunked_take [OF assms(1) True] .
  moreover have "length (concat (take (Suc i) L)) = i * 65519 + length (L ! i)"
    using chunked_take [OF assms] assms(2) by (simp add: take_Suc_conv_app_nth)
  moreover have "length (concat (take (Suc i) L)) \<le> length (concat L)"
    using concat_split_nth [OF True] by (metis length_append le_add1)
  ultimately show ?thesis by simp
next
  case False
  then have "drop (Suc i) L = []" by simp
  then have "length (concat L) = i * 65519 + length (L ! i)"
    using concat_split_nth [OF assms(2)] chunked_take [OF assms]
    by (metis append_Nil2 concat.simps(1) length_append)
  moreover have "length (L ! i) \<le> 65519" using chunked_nth [OF assms(1)] assms(2) by simp
  ultimately show ?thesis by simp
qed

lemma copy_chunk_step:
  assumes "chunked L" "i < length L" "length A = i * 65535" "length B = length (L ! i)" "length Z = 16"
  shows "copy_chunk (concat L) i (A @ B @ Z @ C) = A @ pad_tag (L ! i) @ C"
proof -
  have m: "min (i * 65519 + 65519) (length (concat L)) - i * 65519 = length (L ! i)"
    by (rule chunked_nth_min [OF assms(1,2)])
  have d: "take (length (L ! i)) (drop (i * 65519) (concat L)) = L ! i"
    using concat_split_nth [OF assms(2)] chunked_take [OF assms(1,2)]
    by (metis append_eq_conv_conj)
  have "copy_chunk (concat L) i (A @ B @ Z @ C) =
      overwrite (i * 65535 + length (L ! i)) (zeros 16) (overwrite (i * 65535) (L ! i) (A @ B @ Z @ C))"
    by (simp only: copy_chunk_def max_chunk_size_eq Let_def m d NOISE_MAX_CHUNK_SIZE_def TAGLEN_def)
  also have "overwrite (i * 65535) (L ! i) (A @ B @ Z @ C) = (A @ L ! i) @ Z @ C"
    using assms by (simp add: overwrite_append)
  also have "overwrite (i * 65535 + length (L ! i)) (zeros 16) \<dots> = (A @ L ! i) @ zeros 16 @ C"
    using assms by (intro overwrite_append) simp_all
  finally show ?thesis by simp
qed

lemma copy_chunks:
  assumes "chunked L" "length ct = length (concat L) + 16 * length L" "i \<le> length L"
  shows "fold (copy_chunk (concat L)) [0..<i] ct =
    concat (map pad_tag (take i L)) @ drop (length (concat (map pad_tag (take i L)))) ct"
  using assms(3)
proof (induction i)
  case 0
  then show ?case by simp
next
  case (Suc i)
  then have i: "i < length L" by simp
  let ?A = "concat (map pad_tag (take i L))"
  let ?l = "length (L ! i)"
  let ?D = "drop (length ?A) ct"
  have lA: "length ?A = i * 65535"
    using chunked_take [OF assms(1) i] i by (simp add: length_padded)
  have tk: "concat (map pad_tag (take (Suc i) L)) = ?A @ pad_tag (L ! i)"
    using i by (simp add: take_Suc_conv_app_nth)
  have "length (concat (map pad_tag (take (Suc i) L))) \<le> length (concat (map pad_tag L))"
    by (metis append_take_drop_id concat_append length_append le_add1 map_append)
  then have lD: "?l + 16 \<le> length ?D"
    using tk lA assms(2) by (simp add: length_padded)
  let ?B = "take ?l ?D" and ?Z = "take 16 (drop ?l ?D)" and ?C = "drop 16 (drop ?l ?D)"
  have D: "?D = ?B @ ?Z @ ?C"
    by (simp only: append_take_drop_id)
  have IH: "fold (copy_chunk (concat L)) [0..<i] ct = ?A @ ?D" using Suc.IH i by simp
  have "fold (copy_chunk (concat L)) [0..<Suc i] ct = copy_chunk (concat L) i (?A @ ?D)"
    using IH by (simp only: upt_Suc zero_le if_True fold_append comp_apply fold_simps)
  also have "\<dots> = copy_chunk (concat L) i (?A @ ?B @ ?Z @ ?C)" by (simp only: D [symmetric])
  also have "\<dots> = ?A @ pad_tag (L ! i) @ ?C"
    using lD lA by (intro copy_chunk_step [OF assms(1) i]) simp_all
  finally show ?case
    unfolding tk by (simp only: drop_drop length_append length_replicate append_assoc ac_simps)
qed

lemma chunked_head:
  assumes "chunked (c # L)"
  shows "min (length (pad_tag c @ concat (map pad_tag L))) 65535 = length c + 16"
    "0 < length c" "length c \<le> 65519" "chunked L"
  using assms by (auto split: if_splits)

lemma encrypt_chunks_step:
  assumes "chunked (c # L)"
  shows "encrypt_chunks (Suc n) (length A) (A @ concat (map pad_tag (c # L))) cs =
    (if cs_nonce cs = UINT64_MAX
     then Ret (False, length A, A @ concat (map pad_tag (c # L)), cs)
     else encrypt_chunks n (length (A @ seal_cs [] cs c))
            ((A @ seal_cs [] cs c) @ concat (map pad_tag L)) (bump_nonce cs))"
proof -
  let ?R = "concat (map pad_tag L)"
  note h = chunked_head [OF assms]
  have sz: "min (length (A @ pad_tag c @ ?R) - length A) NOISE_MAX_CHUNK_SIZE = length c + 16"
    using h(1) by (simp add: NOISE_MAX_CHUNK_SIZE_def)
  have ch: "take (length c + 16) (drop (length A) (A @ pad_tag c @ ?R)) = pad_tag c"
    "take (length c + 16 - TAGLEN) (drop (length A) (A @ pad_tag c @ ?R)) = c"
    by (simp_all add: TAGLEN_def)
  have e: "encrypt_chunks (Suc n) (length A) (A @ pad_tag c @ ?R) cs =
      res_bind (EncryptWithAd [] c (pad_tag c) cs) (\<lambda>(ok, chunk', cs').
         if \<not> ok then Ret (False, length A, A @ pad_tag c @ ?R, cs')
         else encrypt_chunks n (length A + length chunk')
                (overwrite (length A) chunk' (A @ pad_tag c @ ?R)) cs')"
    by (simp only: encrypt_chunks.simps Let_def sz ch)
  have o: "overwrite (length A) (seal_cs [] cs c) (A @ pad_tag c @ ?R) = (A @ seal_cs [] cs c) @ ?R"
    by (subst overwrite_append) (simp_all add: length_seal)
  have cm: "concat (map pad_tag (c # L)) = pad_tag c @ ?R" by simp
  show ?thesis
  proof (cases "cs_nonce cs = UINT64_MAX")
    case True
    then have "EncryptWithAd [] c (pad_tag c) cs = Ret (False, pad_tag c, cs)"
      by (intro EncryptWithAd_exhausted h(2,3)) simp_all
    then show ?thesis unfolding cm e using True by simp
  next
    case False
    then have "EncryptWithAd [] c (pad_tag c) cs = Ret (True, seal_cs [] cs c, bump_nonce cs)"
      by (intro EncryptWithAd_ok h(2,3)) simp_all
    then show ?thesis unfolding cm e using False o by simp
  qed
qed

lemma encrypt_chunks_ok:
  "chunked L \<Longrightarrow> unat (cs_nonce cs) + length L \<le> 2 ^ 64 - 1 \<Longrightarrow>
   encrypt_chunks (length L) (length A) (A @ concat (map pad_tag L)) cs =
     Ret (True, length (A @ fst (seal_chunks cs L)), A @ fst (seal_chunks cs L), snd (seal_chunks cs L))"
proof (induction L arbitrary: A cs)
  case Nil
  then show ?case by simp
next
  case (Cons c L)
  have n: "cs_nonce cs \<noteq> UINT64_MAX" using Cons.prems(2) by (simp add: nonce_lt_max)
  have "encrypt_chunks (length L) (length (A @ seal_cs [] cs c))
      ((A @ seal_cs [] cs c) @ concat (map pad_tag L)) (bump_nonce cs) =
      Ret (True, length ((A @ seal_cs [] cs c) @ fst (seal_chunks (bump_nonce cs) L)),
        (A @ seal_cs [] cs c) @ fst (seal_chunks (bump_nonce cs) L), snd (seal_chunks (bump_nonce cs) L))"
    using Cons.prems chunked_head(4) [OF Cons.prems(1)] n
    by (intro Cons.IH) (simp_all add: unat_bump_nonce)
  then show ?case
    unfolding length_Cons encrypt_chunks_step [OF Cons.prems(1)] using n
    by (simp only: if_False) (simp add: Let_def split_beta)
qed

lemma encrypt_chunks_exhausted:
  "chunked L \<Longrightarrow> 2 ^ 64 - 1 < unat (cs_nonce cs) + length L \<Longrightarrow>
   \<exists>n b cs'. encrypt_chunks (length L) (length A) (A @ concat (map pad_tag L)) cs = Ret (False, n, b, cs')
     \<and> cs_nonce cs' = UINT64_MAX \<and> cs_key cs' = cs_key cs
     \<and> length b = length A + length (concat (map pad_tag L))"
proof (induction L arbitrary: A cs)
  case Nil
  then show ?case using unat_lt2p [of "cs_nonce cs"] by simp
next
  case (Cons c L)
  show ?case
  proof (cases "cs_nonce cs = UINT64_MAX")
    case True
    then show ?thesis unfolding length_Cons encrypt_chunks_step [OF Cons.prems(1)] by simp
  next
    case False
    then have "\<exists>n b cs'. encrypt_chunks (length L) (length (A @ seal_cs [] cs c))
        ((A @ seal_cs [] cs c) @ concat (map pad_tag L)) (bump_nonce cs) = Ret (False, n, b, cs')
        \<and> cs_nonce cs' = UINT64_MAX \<and> cs_key cs' = cs_key (bump_nonce cs)
        \<and> length b = length (A @ seal_cs [] cs c) + length (concat (map pad_tag L))"
      using Cons.prems chunked_head(4) [OF Cons.prems(1)]
      by (intro Cons.IH) (simp_all add: unat_bump_nonce)
    then show ?thesis
      unfolding length_Cons encrypt_chunks_step [OF Cons.prems(1)] using False
      by (simp add: length_seal add.assoc)
  qed
qed

lemma EncryptMessage_chunks:
  assumes "length plain < 2 ^ 60" "length ct = EncryptedMessageSize (length plain)"
  shows "CipherState_EncryptMessage plain ct cs =
    res_bind (encrypt_chunks (length (chunks plain)) 0 (concat (map pad_tag (chunks plain))) cs)
      (\<lambda>(ok, bytes_written, c2, cs').
        if \<not> ok then Ret (False, c2, cs')
        else res_bind (Assume (bytes_written = length c2) ''bytes_written'') (\<lambda>_. Ret (True, c2, cs')))"
proof -
  let ?L = "chunks plain"
  have n: "num_chunks (length plain) = length ?L"
    using chunked_num_chunks [OF chunked_chunks, of plain] assms(1) by simp
  have len: "length ct = length (concat ?L) + 16 * length ?L"
    using assms n by (simp add: EncryptedMessageSize_eq)
  have "fold (copy_chunk plain) [0..<length ?L] ct = concat (map pad_tag ?L)"
    using copy_chunks [OF chunked_chunks len, of "length ?L"] len
    by (simp add: length_padded)
  then show ?thesis using assms(2) by (simp add: CipherState_EncryptMessage_def n)
qed

lemma EncryptMessage_ok:
  assumes "length plain < 2 ^ 60" "length ct = EncryptedMessageSize (length plain)"
    and "unat (cs_nonce cs) + num_chunks (length plain) \<le> 2 ^ 64 - 1"
  shows "CipherState_EncryptMessage plain ct cs =
    Ret (True, fst (seal_chunks cs (chunks plain)), snd (seal_chunks cs (chunks plain)))"
proof -
  have n: "num_chunks (length plain) = length (chunks plain)"
    using chunked_num_chunks [OF chunked_chunks, of plain] assms(1) by simp
  show ?thesis
    using encrypt_chunks_ok [OF chunked_chunks, of cs plain "[]"] assms
    by (simp add: EncryptMessage_chunks n split_beta)
qed

lemma EncryptMessage_exhausted:
  assumes "length plain < 2 ^ 60" "length ct = EncryptedMessageSize (length plain)"
    and "2 ^ 64 - 1 < unat (cs_nonce cs) + num_chunks (length plain)"
  shows "\<exists>b cs'. CipherState_EncryptMessage plain ct cs = Ret (False, b, cs') \<and>
    cs_nonce cs' = UINT64_MAX \<and> length b = length ct"
proof -
  have n: "num_chunks (length plain) = length (chunks plain)"
    using chunked_num_chunks [OF chunked_chunks, of plain] assms(1) by simp
  have "length ct = length (concat (map pad_tag (chunks plain)))"
    using assms(1,2) n by (simp add: EncryptedMessageSize_eq length_padded)
  then show ?thesis
    using encrypt_chunks_exhausted [OF chunked_chunks, of cs plain "[]"] assms
    by (auto simp: EncryptMessage_chunks n)
qed

section \<open>Decrypting a message chunk by chunk\<close>

text \<open>\<^verbatim>\<open>fits m n\<close>: \<^verbatim>\<open>m\<close> bytes of ciphertext belong to \<^verbatim>\<open>n\<close> bytes of plaintext.\<close>

definition fits :: "nat \<Rightarrow> nat \<Rightarrow> bool" where
  "fits m n \<longleftrightarrow> m = n + 16 * ((n + 65518) div 65519)"

lemma fits_EncryptedMessageSize: "n < 2 ^ 60 \<Longrightarrow> fits (EncryptedMessageSize n) n"
  by (simp add: fits_def EncryptedMessageSize_eq num_chunks_eq)

lemma fits_0: "fits m 0 \<longleftrightarrow> m = 0" by (simp add: fits_def)

lemma fits_first:
  assumes "fits m n" "0 < n"
  defines "k \<equiv> min n 65519"
  shows "min m 65535 = k + 16" "fits (m - (k + 16)) (n - k)" "k + 16 \<le> m"
proof -
  show *: "min m 65535 = k + 16" "fits (m - (k + 16)) (n - k)"
  proof (atomize (full), cases "n \<le> 65519")
    case True
    then have "(n + 65518) div 65519 = 1" using assms(2) by (intro div_nat_eqI) simp_all
    then show "min m 65535 = k + 16 \<and> fits (m - (k + 16)) (n - k)"
      using True assms by (simp add: fits_def)
  next
    case False
    then obtain j where j: "n = 65519 + j" "0 < j" by (metis less_imp_add_positive not_le)
    have "(n + 65518) div 65519 = Suc ((j + 65518) div 65519)"
      unfolding j by (simp add: div_add_self1 add.assoc)
    moreover have "1 \<le> (j + 65518) div 65519"
      using div_le_mono [of 65519 "j + 65518" 65519] j(2) by simp
    ultimately show "min m 65535 = k + 16 \<and> fits (m - (k + 16)) (n - k)"
      using assms(1) j by (simp add: fits_def k_def)
  qed
  show "k + 16 \<le> m" using *(1) by simp
qed

lemma decrypt_chunks_step:
  assumes "fits (length C) (length B)" "B \<noteq> []"
  defines "k \<equiv> min (length B) 65519"
  shows "decrypt_chunks (A @ C) (length A) (length P) (P @ B) cs =
    res_bind (DecryptWithAd [] (take (k + 16) C) (take k B) cs) (\<lambda>(ok, p, cs').
      if \<not> ok then Ret (False, P @ B, cs')
      else decrypt_chunks (A @ C) (length A + (k + 16)) (length P + k) (overwrite (length P) p (P @ B)) cs')"
proof -
  have f: "min (length C) 65535 = k + 16" "k + 16 \<le> length C"
    using fits_first [OF assms(1)] assms(2) by (simp_all add: k_def)
  have k: "k \<le> length B" by (simp add: k_def)
  have c: "min (length (A @ C) - length A) NOISE_MAX_CHUNK_SIZE = k + 16" "length A < length (A @ C)"
    using f by (simp_all add: NOISE_MAX_CHUNK_SIZE_def) (cases C; simp)
  have t: "take (k + 16) (drop (length A) (A @ C)) = take (k + 16) C"
    "take k (drop (length P) (P @ B)) = take k B" "k + 16 - TAGLEN = k"
    "\<not> (k + 16 < TAGLEN \<or> length P + k > length (P @ B))"
    using k by (simp_all add: TAGLEN_def)
  show ?thesis
    by (subst decrypt_chunks.simps) (simp only: c t Let_def if_True if_False)
qed

lemma decrypt_chunks_done: "decrypt_chunks A (length A) n P cs = Ret (True, P, cs)"
  by (subst decrypt_chunks.simps) simp

lemma fits_chunked: "chunked L \<Longrightarrow> fits (length (fst (seal_chunks cs L))) (length (concat L))"
proof -
  assume L: "chunked L"
  have "(length (concat L) + 65518) div 65519 = length L"
  proof (cases "L = []")
    case False
    then have "65519 * (length L - 1) < length (concat L)" "length (concat L) \<le> 65519 * length L"
      using chunked_length [OF L] by auto
    then show ?thesis using False by (intro div_nat_eqI) (cases L; simp)+
  qed simp
  then show ?thesis by (simp add: fits_def length_seal_chunks)
qed

lemma decrypt_chunks_sealed:
  "chunked L \<Longrightarrow> unat (cs_nonce cs) + length L \<le> 2 ^ 64 - 1 \<Longrightarrow> length B = length (concat L) \<Longrightarrow>
   decrypt_chunks (A @ fst (seal_chunks cs L)) (length A) (length P) (P @ B) cs =
     Ret (True, P @ concat L, snd (seal_chunks cs L))"
proof (induction L arbitrary: A P B cs)
  case Nil
  then show ?case using decrypt_chunks_done [of A] by simp
next
  case (Cons c L)
  let ?S = "seal_cs [] cs c" and ?R = "fst (seal_chunks (bump_nonce cs) L)"
  note h = chunked_head [OF Cons.prems(1)]
  have n: "cs_nonce cs \<noteq> UINT64_MAX" using Cons.prems(2) by (simp add: nonce_lt_max)
  have k: "min (length B) 65519 = length c"
    using Cons.prems(1,3) by (auto split: if_splits)
  have C: "fst (seal_chunks cs (c # L)) = ?S @ ?R" by (simp add: Let_def split_beta)
  have f: "fits (length (?S @ ?R)) (length B)"
    using fits_chunked [OF Cons.prems(1), of cs] C Cons.prems(3) by simp
  have B: "B \<noteq> []" "take (length c) B @ drop (length c) B = B" "length (take (length c) B) = length c"
    using h(2) Cons.prems(3) by auto
  have d: "DecryptWithAd [] ?S (take (length c) B) cs = Ret (True, c, bump_nonce cs)"
    using h B n by (intro DecryptWithAd_seal) simp_all
  have o: "overwrite (length P) c (P @ B) = (P @ c) @ drop (length c) B"
    by (simp add: overwrite_def)
  have "decrypt_chunks (A @ ?S @ ?R) (length A) (length P) (P @ B) cs =
      decrypt_chunks ((A @ ?S) @ ?R) (length (A @ ?S)) (length (P @ c)) ((P @ c) @ drop (length c) B) (bump_nonce cs)"
    unfolding decrypt_chunks_step [OF f B(1)] k
    by (simp add: d o length_seal)
  also have "\<dots> = Ret (True, (P @ c) @ concat L, snd (seal_chunks (bump_nonce cs) L))"
    using Cons.prems h(4) n by (intro Cons.IH) (simp_all add: unat_bump_nonce)
  finally show ?case unfolding C by (simp add: Let_def split_beta)
qed

lemma decrypt_chunks_accepts:
  "fits (length C) (length B) \<Longrightarrow>
   decrypt_chunks (A @ C) (length A) (length P) (P @ B) cs = Ret (True, q, cs') \<Longrightarrow>
   \<exists>L. chunked L \<and> q = P @ concat L \<and> length (concat L) = length B \<and>
       C = fst (seal_chunks cs L) \<and> cs' = snd (seal_chunks cs L) \<and>
       unat (cs_nonce cs) + length L \<le> 2 ^ 64 - 1"
proof (induction "length B" arbitrary: A C P B cs rule: less_induct)
  case less
  show ?case
  proof (cases "B = []")
    case True
    then have "C = []" using less.prems(1) by (simp add: fits_0)
    then show ?thesis using less.prems(2) True decrypt_chunks_done [of A] unat_lt2p [of "cs_nonce cs"]
      by (intro exI [of _ "[]"]) simp
  next
    case False
    let ?k = "min (length B) 65519"
    have f: "fits (length C - (?k + 16)) (length B - ?k)" "?k + 16 \<le> length C"
      using fits_first [OF less.prems(1)] False by simp_all
    from less.prems(2) obtain p cs1 where
      d: "DecryptWithAd [] (take (?k + 16) C) (take ?k B) cs = Ret (True, p, cs1)" and
      r: "decrypt_chunks (A @ C) (length A + (?k + 16)) (length P + ?k) (overwrite (length P) p (P @ B)) cs1 =
            Ret (True, q, cs')"
      unfolding decrypt_chunks_step [OF less.prems(1) False]
      by (auto simp: res_simps split: if_splits)
    note t = DecryptWithAd_True [OF d]
    have lp: "length p = ?k" using t(4) by simp
    have o: "overwrite (length P) p (P @ B) = (P @ p) @ drop ?k B"
      using lp by (simp add: overwrite_def)
    have "A @ C = (A @ take (?k + 16) C) @ drop (?k + 16) C" by simp
    moreover have "length A + (?k + 16) = length (A @ take (?k + 16) C)" using f(2) by simp
    ultimately have r': "decrypt_chunks ((A @ take (?k + 16) C) @ drop (?k + 16) C)
        (length (A @ take (?k + 16) C)) (length (P @ p)) ((P @ p) @ drop ?k B) cs1 = Ret (True, q, cs')"
      using r o lp by simp
    have "length (drop ?k B) < length B" using False by simp
    then obtain L where L: "chunked L" "q = (P @ p) @ concat L" "length (concat L) = length (drop ?k B)"
      "drop (?k + 16) C = fst (seal_chunks cs1 L)" "cs' = snd (seal_chunks cs1 L)"
      "unat (cs_nonce cs1) + length L \<le> 2 ^ 64 - 1"
      using less.hyps [OF _ _ r'] f by auto
    have "L \<noteq> [] \<Longrightarrow> 0 < length (concat L)"
      using chunked_length [OF L(1)] by (metis gr_zeroI less_nat_zero_code)
    then have "L \<noteq> [] \<Longrightarrow> length p = 65519" using L(3) lp by simp
    then have "chunked (p # L)" using L(1) lp False by simp
    moreover have "C = take (?k + 16) C @ drop (?k + 16) C" by simp
    then have "C = fst (seal_chunks cs (p # L))"
      using L(4) t(1,2) by (simp add: Let_def split_beta)
    ultimately show ?thesis using L lp t unat_bump_nonce [OF t(3)]
      by (intro exI [of _ "p # L"]) (auto simp: Let_def split_beta)
  qed
qed

lemma decrypt_chunks_total:
  "fits (length C) (length B) \<Longrightarrow>
   \<exists>ok q cs'. decrypt_chunks (A @ C) (length A) (length P) (P @ B) cs = Ret (ok, q, cs')"
proof (induction "length B" arbitrary: A C P B cs rule: less_induct)
  case less
  show ?case
  proof (cases "B = []")
    case True
    then have "C = []" using less.prems by (simp add: fits_0)
    then show ?thesis using decrypt_chunks_done [of A] by auto
  next
    case False
    let ?k = "min (length B) 65519"
    have f: "fits (length C - (?k + 16)) (length B - ?k)" "?k + 16 \<le> length C"
      using fits_first [OF less.prems(1)] False by simp_all
    obtain ok p cs1 where d: "DecryptWithAd [] (take (?k + 16) C) (take ?k B) cs = Ret (ok, p, cs1)" "length p = ?k"
      using DecryptWithAd_total [of "take ?k B" "take (?k + 16) C" "[]" cs] False f(2) by auto
    have o: "overwrite (length P) p (P @ B) = (P @ p) @ drop ?k B" using d(2) by (simp add: overwrite_def)
    have "\<exists>ok q cs'. decrypt_chunks ((A @ take (?k + 16) C) @ drop (?k + 16) C)
        (length (A @ take (?k + 16) C)) (length (P @ p)) ((P @ p) @ drop ?k B) cs1 = Ret (ok, q, cs')"
      using False f by (intro less.hyps) simp_all
    then have "\<exists>ok q cs'. decrypt_chunks (A @ C) (length A + (?k + 16)) (length P + ?k)
        (overwrite (length P) p (P @ B)) cs1 = Ret (ok, q, cs')"
      using f(2) d(2) o by simp
    then show ?thesis unfolding decrypt_chunks_step [OF less.prems(1) False] using d(1) by (cases ok) auto
  qed
qed

lemma DecryptMessage_total:
  assumes "length buf < 2 ^ 60" "length c = EncryptedMessageSize (length buf)"
  shows "\<exists>ok p cs'. CipherState_DecryptMessage c buf cs = Ret (ok, p, cs')"
  using decrypt_chunks_total [of c buf "[]" "[]" cs] fits_EncryptedMessageSize [OF assms(1)] assms(2)
  by (simp add: CipherState_DecryptMessage_def)

lemma chunks_concat: "chunked L \<Longrightarrow> chunks (concat L) = L"
proof (induction L)
  case (Cons c L)
  show ?case
  proof (cases "L = []")
    case True
    then show ?thesis using Cons.prems by (subst chunks.simps) (auto simp: max_chunk_size_eq)
  next
    case False
    then show ?thesis using Cons by (subst chunks.simps) (auto simp: max_chunk_size_eq)
  qed
qed simp

lemma seal_chunks_nonce:
  "unat (cs_nonce cs) + length L \<le> 2 ^ 64 - 1 \<Longrightarrow>
     unat (cs_nonce (snd (seal_chunks cs L))) = unat (cs_nonce cs) + length L"
proof (induction L arbitrary: cs)
  case (Cons c L)
  then have "cs_nonce cs \<noteq> UINT64_MAX" by (simp add: nonce_lt_max)
  then show ?case using Cons by (simp add: Let_def split_beta unat_bump_nonce)
qed simp

lemma length_chunks: "length plain < 2 ^ 60 \<Longrightarrow> length (chunks plain) = num_chunks (length plain)"
  using chunked_num_chunks [OF chunked_chunks, of plain] by simp

lemma DecryptMessage_sealed:
  assumes "length plain < 2 ^ 60" "length buf = length plain"
    and "unat (cs_nonce cs) + num_chunks (length plain) \<le> 2 ^ 64 - 1"
  shows "CipherState_DecryptMessage (fst (seal_chunks cs (chunks plain))) buf cs =
    Ret (True, plain, snd (seal_chunks cs (chunks plain)))"
  using decrypt_chunks_sealed [OF chunked_chunks, of cs plain buf "[]" "[]"] assms
  by (simp add: CipherState_DecryptMessage_def length_seal_chunks EncryptedMessageSize_eq length_chunks)

lemma DecryptMessage_accepts:
  assumes "CipherState_DecryptMessage c buf cs = Ret (True, p, cs')" "length buf < 2 ^ 60"
  shows "c = fst (seal_chunks cs (chunks p))" "cs' = snd (seal_chunks cs (chunks p))"
    "length p = length buf" "unat (cs_nonce cs) + num_chunks (length p) \<le> 2 ^ 64 - 1"
proof -
  have len: "length c = EncryptedMessageSize (length buf)"
    and d: "decrypt_chunks c 0 0 buf cs = Ret (True, p, cs')"
    using assms(1) by (auto simp: CipherState_DecryptMessage_def res_simps)
  have "fits (length c) (length buf)" using fits_EncryptedMessageSize [OF assms(2)] len by simp
  then obtain L where L: "chunked L" "p = concat L" "length (concat L) = length buf"
    "c = fst (seal_chunks cs L)" "cs' = snd (seal_chunks cs L)"
    "unat (cs_nonce cs) + length L \<le> 2 ^ 64 - 1"
    using decrypt_chunks_accepts [of c buf "[]" "[]" cs p cs'] d by auto
  have "chunks p = L" using L(1,2) by (simp add: chunks_concat)
  then show "c = fst (seal_chunks cs (chunks p))" "cs' = snd (seal_chunks cs (chunks p))"
    "length p = length buf" "unat (cs_nonce cs) + num_chunks (length p) \<le> 2 ^ 64 - 1"
    using L assms(2) length_chunks [of p] by auto
qed

text \<open>
  C10. A message of any length survives encryption and decryption: \<^verbatim>\<open>EncryptMessage\<close> cuts it into
  chunks, spreads and seals them in the output buffer, and \<^verbatim>\<open>DecryptMessage\<close> under the same
  cipher state gives the message back. Afterwards sender and receiver hold the same cipher
  state, whose nonce has advanced by the number of chunks.
\<close>

theorem CipherState_roundtrip:
  assumes "length plain < 2 ^ 60" "length ct = EncryptedMessageSize (length plain)"
    and "length buf = length plain"
    and "unat (cs_nonce cs) + num_chunks (length plain) \<le> 2 ^ 64 - 1"
  shows "\<exists>c cs'. CipherState_EncryptMessage plain ct cs = Ret (True, c, cs') \<and>
    length c = EncryptedMessageSize (length plain) \<and>
    CipherState_DecryptMessage c buf cs = Ret (True, plain, cs') \<and>
    unat (cs_nonce cs') = unat (cs_nonce cs) + num_chunks (length plain)"
  using EncryptMessage_ok [OF assms(1,2,4)] DecryptMessage_sealed [OF assms(1,3,4)]
    seal_chunks_nonce [of cs "chunks plain"] length_seal_chunks [of cs "chunks plain"] assms
  by (cases "seal_chunks cs (chunks plain)") (simp add: length_chunks EncryptedMessageSize_eq)

theorem CipherState_roundtrip_witness:
  "\<exists>c cs'. CipherState_EncryptMessage [1, 2, 3] (zeros 19) (Sv2CipherState (zeros 32)) = Ret (True, c, cs') \<and>
    length c = EncryptedMessageSize 3 \<and>
    CipherState_DecryptMessage c (zeros 3) (Sv2CipherState (zeros 32)) = Ret (True, [1, 2, 3], cs') \<and>
    unat (cs_nonce cs') = 1"
  using CipherState_roundtrip [of "[1, 2, 3]" "zeros 19" "zeros 3" "Sv2CipherState (zeros 32)"]
  by (simp add: EncryptedMessageSize_small num_chunks_small Sv2CipherState_def)

text \<open>
  C12. Only what the peer encrypted is accepted: when \<^verbatim>\<open>DecryptMessage\<close> succeeds, its input is the
  output of \<^verbatim>\<open>EncryptMessage\<close> for the returned plaintext under the receiver's own key and nonce.
  Chunks that were altered, dropped, reordered or replayed are refused unless they happen to be
  that very output.
\<close>

theorem CipherState_DecryptMessage_authentic:
  assumes "CipherState_DecryptMessage c buf cs = Ret (True, p, cs')" "length buf < 2 ^ 60"
    and "length ct = length c"
  shows "CipherState_EncryptMessage p ct cs = Ret (True, c, cs') \<and> length p = length buf"
proof -
  note d = DecryptMessage_accepts [OF assms(1,2)]
  have "length ct = EncryptedMessageSize (length p)"
    using assms d(3) by (auto simp: CipherState_DecryptMessage_def res_simps)
  then show ?thesis using EncryptMessage_ok [of p ct cs] d assms(2) by simp
qed



theorem CipherState_DecryptMessage_authentic_witness:
  "\<exists>c cs'. CipherState_DecryptMessage c (zeros 2) (Sv2CipherState (zeros 32)) = Ret (True, [5, 6], cs') \<and>
     CipherState_EncryptMessage [5, 6] (zeros 18) (Sv2CipherState (zeros 32)) = Ret (True, c, cs')"
proof -
  let ?cs = "Sv2CipherState (zeros 32)"
  have d: "CipherState_DecryptMessage (fst (seal_chunks ?cs (chunks [5, 6]))) (zeros 2) ?cs =
      Ret (True, [5, 6], snd (seal_chunks ?cs (chunks [5, 6])))"
    by (rule DecryptMessage_sealed) (simp_all add: num_chunks_small Sv2CipherState_def)
  have "length (zeros 18) = length (fst (seal_chunks ?cs (chunks [5, 6])))"
    by (simp add: length_seal_chunks length_chunks num_chunks_small)
  from CipherState_DecryptMessage_authentic [OF d _ this] d show ?thesis
    by (cases "seal_chunks ?cs (chunks [5, 6])") auto
qed

end
