(* ===== verification/Crypto_SHA256.thy ===== *)
theory Crypto_SHA256
  imports Sv2_Prelude
begin

text \<open>
  SHA-256 (\<^verbatim>\<open>src/src/crypto/sha256.cpp\<close>, the portable transform), the incremental hasher
  \<^verbatim>\<open>CSHA256\<close> and HMAC-SHA256 (\<^verbatim>\<open>src/src/crypto/hmac_sha256.cpp\<close>). The incremental hasher is
  related to the one-shot hash of everything written to it.
\<close>

section \<open>The transform\<close>

definition Ch :: "u32 \<Rightarrow> u32 \<Rightarrow> u32 \<Rightarrow> u32" where "Ch x y z = z XOR (x AND (y XOR z))"
definition Maj :: "u32 \<Rightarrow> u32 \<Rightarrow> u32 \<Rightarrow> u32" where "Maj x y z = (x AND y) OR (z AND (x OR y))"

definition Sigma0 :: "u32 \<Rightarrow> u32" where
  "Sigma0 x = (drop_bit 2 x OR push_bit 30 x) XOR (drop_bit 13 x OR push_bit 19 x) XOR
              (drop_bit 22 x OR push_bit 10 x)"
definition Sigma1 :: "u32 \<Rightarrow> u32" where
  "Sigma1 x = (drop_bit 6 x OR push_bit 26 x) XOR (drop_bit 11 x OR push_bit 21 x) XOR
              (drop_bit 25 x OR push_bit 7 x)"
definition sigma0 :: "u32 \<Rightarrow> u32" where
  "sigma0 x = (drop_bit 7 x OR push_bit 25 x) XOR (drop_bit 18 x OR push_bit 14 x) XOR drop_bit 3 x"
definition sigma1 :: "u32 \<Rightarrow> u32" where
  "sigma1 x = (drop_bit 17 x OR push_bit 15 x) XOR (drop_bit 19 x OR push_bit 13 x) XOR drop_bit 10 x"

type_synonym regs = "u32 \<times> u32 \<times> u32 \<times> u32 \<times> u32 \<times> u32 \<times> u32 \<times> u32"

text \<open>
  One round. The unrolled code passes the registers to the next round shifted by one; here the
  tuple is shifted instead, which after 64 rounds is the identity.
\<close>

definition Round :: "u32 \<Rightarrow> regs \<Rightarrow> regs" where
  "Round k = (\<lambda>(a, b, c, d, e, f, g, h).
     let t1 = h + Sigma1 e + Ch e f g + k; t2 = Sigma0 a + Maj a b c
     in (t1 + t2, a, b, c, d + t1, e, f, g))"

text \<open>The 64 rounds of the unrolled code, each with its constant and the message word it adds.\<close>

definition round_table :: "(u32 \<times> nat) list" where
  "round_table =
    [(0x428a2f98, 0), (0x71374491, 1), (0xb5c0fbcf, 2), (0xe9b5dba5, 3),
     (0x3956c25b, 4), (0x59f111f1, 5), (0x923f82a4, 6), (0xab1c5ed5, 7),
     (0xd807aa98, 8), (0x12835b01, 9), (0x243185be, 10), (0x550c7dc3, 11),
     (0x72be5d74, 12), (0x80deb1fe, 13), (0x9bdc06a7, 14), (0xc19bf174, 15),
     (0xe49b69c1, 0), (0xefbe4786, 1), (0x0fc19dc6, 2), (0x240ca1cc, 3),
     (0x2de92c6f, 4), (0x4a7484aa, 5), (0x5cb0a9dc, 6), (0x76f988da, 7),
     (0x983e5152, 8), (0xa831c66d, 9), (0xb00327c8, 10), (0xbf597fc7, 11),
     (0xc6e00bf3, 12), (0xd5a79147, 13), (0x06ca6351, 14), (0x14292967, 15),
     (0x27b70a85, 0), (0x2e1b2138, 1), (0x4d2c6dfc, 2), (0x53380d13, 3),
     (0x650a7354, 4), (0x766a0abb, 5), (0x81c2c92e, 6), (0x92722c85, 7),
     (0xa2bfe8a1, 8), (0xa81a664b, 9), (0xc24b8b70, 10), (0xc76c51a3, 11),
     (0xd192e819, 12), (0xd6990624, 13), (0xf40e3585, 14), (0x106aa070, 15),
     (0x19a4c116, 0), (0x1e376c08, 1), (0x2748774c, 2), (0x34b0bcb5, 3),
     (0x391c0cb3, 4), (0x4ed8aa4a, 5), (0x5b9cca4f, 6), (0x682e6ff3, 7),
     (0x748f82ee, 8), (0x78a5636f, 9), (0x84c87814, 10), (0x8cc70208, 11),
     (0x90befffa, 12), (0xa4506ceb, 13), (0xbef9a3f7, 14), (0xc67178f2, 15)]"

text \<open>The sixteen message words are updated in place from round 16 on.\<close>

definition schedule_word :: "nat \<Rightarrow> u32 list \<Rightarrow> u32 list" where
  "schedule_word t w =
     (if t < 16 then w
      else w[t mod 16 := w ! (t mod 16) + (sigma1 (w ! ((t + 14) mod 16)) + w ! ((t + 9) mod 16) +
                                           sigma0 (w ! ((t + 1) mod 16)))])"

definition sha_round :: "nat \<Rightarrow> u32 list \<times> regs \<Rightarrow> u32 list \<times> regs" where
  "sha_round t = (\<lambda>(w, r). let w = schedule_word t w; (k, i) = round_table ! t
                            in (w, Round (k + w ! i) r))"

definition Initialize :: "u32 list" where
  "Initialize = [0x6a09e667, 0xbb67ae85, 0x3c6ef372, 0xa54ff53a, 0x510e527f, 0x9b05688c, 0x1f83d9ab,
                 0x5be0cd19]"

definition Transform1 :: "u32 list \<Rightarrow> bytes \<Rightarrow> u32 list" where
  "Transform1 s chunk =
     (let w = map (\<lambda>i. ReadBE32 (drop (4 * i) chunk)) [0..<16];
          r = (s ! 0, s ! 1, s ! 2, s ! 3, s ! 4, s ! 5, s ! 6, s ! 7);
          (a, b, c, d, e, f, g, h) = snd (fold sha_round [0..<64] (w, r))
      in map2 (+) s [a, b, c, d, e, f, g, h])"

fun Transform :: "u32 list \<Rightarrow> bytes \<Rightarrow> nat \<Rightarrow> u32 list" where
  "Transform s chunk 0 = s"
| "Transform s chunk (Suc blocks) = Transform (Transform1 s chunk) (drop 64 chunk) blocks"

section \<open>The incremental hasher\<close>

record csha256 =
  sha_s :: "u32 list"
  sha_buf :: bytes
  sha_bytes :: u64

definition CSHA256 :: csha256 where
  "CSHA256 = \<lparr>sha_s = Initialize, sha_buf = zeros 64, sha_bytes = 0\<rparr>"

text \<open>The tail of \<^verbatim>\<open>Write\<close>: whole blocks straight from the data, the rest into the buffer.\<close>

definition CSHA256_Write_rest :: "bytes \<Rightarrow> nat \<Rightarrow> csha256 \<Rightarrow> csha256" where
  "CSHA256_Write_rest data bufsize st =
     (let blocks = length data div 64;
          st1 = (if length data \<ge> 64
                 then st\<lparr>sha_s := Transform (sha_s st) data blocks,
                         sha_bytes := sha_bytes st + of_nat (64 * blocks)\<rparr> else st);
          data1 = (if length data \<ge> 64 then drop (64 * blocks) data else data)
      in if data1 \<noteq> []
         then st1\<lparr>sha_buf := overwrite bufsize data1 (sha_buf st1),
                  sha_bytes := sha_bytes st1 + of_nat (length data1)\<rparr>
         else st1)"

definition CSHA256_Write :: "bytes \<Rightarrow> csha256 \<Rightarrow> csha256" where
  "CSHA256_Write data st =
     (let bufsize = unat (sha_bytes st mod 64) in
      if bufsize \<noteq> 0 \<and> bufsize + length data \<ge> 64 then
        let buf = overwrite bufsize (take (64 - bufsize) data) (sha_buf st);
            st1 = st\<lparr>sha_buf := buf, sha_bytes := sha_bytes st + of_nat (64 - bufsize),
                     sha_s := Transform (sha_s st) buf 1\<rparr>
        in CSHA256_Write_rest (drop (64 - bufsize) data) 0 st1
      else CSHA256_Write_rest data bufsize st)"

definition CSHA256_Finalize :: "csha256 \<Rightarrow> bytes" where
  "CSHA256_Finalize st =
     (let sizedesc = WriteBE64 (push_bit 3 (sha_bytes st));
          n = unat ((119 - sha_bytes st mod 64) mod 64);
          st1 = CSHA256_Write (take (1 + n) (0x80 # zeros 63)) st;
          st2 = CSHA256_Write sizedesc st1
      in concat (map WriteBE32 (sha_s st2)))"

definition CSHA256_Reset :: "csha256 \<Rightarrow> csha256" where
  "CSHA256_Reset st = st\<lparr>sha_bytes := 0, sha_s := Initialize\<rparr>"

section \<open>HMAC\<close>

record chmac_sha256 =
  hmac_outer :: csha256
  hmac_inner :: csha256

definition CHMAC_SHA256 :: "bytes \<Rightarrow> chmac_sha256" where
  "CHMAC_SHA256 key =
     (let rkey = (if length key \<le> 64 then key @ zeros (64 - length key)
                  else CSHA256_Finalize (CSHA256_Write key CSHA256) @ zeros 32);
          rkey1 = map (\<lambda>b. b XOR 0x5c) rkey;
          rkey2 = map (\<lambda>b. b XOR (0x5c XOR 0x36)) rkey1
      in \<lparr>hmac_outer = CSHA256_Write rkey1 CSHA256, hmac_inner = CSHA256_Write rkey2 CSHA256\<rparr>)"

definition CHMAC_SHA256_Write :: "bytes \<Rightarrow> chmac_sha256 \<Rightarrow> chmac_sha256" where
  "CHMAC_SHA256_Write data h = h\<lparr>hmac_inner := CSHA256_Write data (hmac_inner h)\<rparr>"

definition CHMAC_SHA256_Finalize :: "chmac_sha256 \<Rightarrow> bytes" where
  "CHMAC_SHA256_Finalize h =
     CSHA256_Finalize (CSHA256_Write (CSHA256_Finalize (hmac_inner h)) (hmac_outer h))"

section \<open>The one-shot hash\<close>

definition sha256_pad :: "bytes \<Rightarrow> bytes" where
  "sha256_pad m =
     m @ [0x80] @ zeros ((119 - length m mod 64) mod 64) @ WriteBE64 (of_nat (8 * length m))"

definition sha256 :: "bytes \<Rightarrow> bytes" where
  "sha256 m = concat (map WriteBE32 (Transform Initialize (sha256_pad m) (length (sha256_pad m) div 64)))"

definition hmac_key :: "bytes \<Rightarrow> bytes" where
  "hmac_key key = (if length key \<le> 64 then key @ zeros (64 - length key) else sha256 key @ zeros 32)"

definition hmac_sha256 :: "bytes \<Rightarrow> bytes \<Rightarrow> bytes" where
  "hmac_sha256 key m =
     sha256 (map (\<lambda>b. b XOR 0x5c) (hmac_key key) @ sha256 (map (\<lambda>b. b XOR 0x36) (hmac_key key) @ m))"

section \<open>The hasher computes the one-shot hash\<close>

text \<open>\<^verbatim>\<open>sha_rep st m\<close>: the hasher \<^verbatim>\<open>st\<close> has absorbed exactly the message \<^verbatim>\<open>m\<close>.\<close>

definition sha_rep :: "csha256 \<Rightarrow> bytes \<Rightarrow> bool" where
  "sha_rep st m \<longleftrightarrow>
     sha_s st = Transform Initialize m (length m div 64) \<and> length (sha_buf st) = 64 \<and>
     take (length m mod 64) (sha_buf st) = drop (64 * (length m div 64)) m \<and>
     sha_bytes st = of_nat (length m)"

lemma ReadBE32_take: "4 * i + 4 \<le> n \<Longrightarrow> ReadBE32 (drop (4 * i) (take n c)) = ReadBE32 (drop (4 * i) c)"
  by (simp add: ReadBE32_def drop_take min_def)

lemma Transform1_take: "Transform1 s (take 64 c) = Transform1 s c"
proof -
  have "map (\<lambda>i. ReadBE32 (drop (4 * i) (take 64 c))) [0..<16] =
      map (\<lambda>i. ReadBE32 (drop (4 * i) c)) [0..<16]"
    by (intro map_cong refl) (simp add: ReadBE32_take)
  then show ?thesis unfolding Transform1_def by (simp only:)
qed

lemma Transform_prefix: "take (64 * n) c = take (64 * n) d \<Longrightarrow> Transform s c n = Transform s d n"
proof (induction n arbitrary: s c d)
  case 0
  then show ?case by simp
next
  case (Suc n)
  have "take 64 c = take 64 d"
    using arg_cong [OF Suc.prems, of "take 64"] by simp
  then have 1: "Transform1 s c = Transform1 s d"
    by (subst (1 2) Transform1_take [symmetric]) (rule arg_cong)
  have 2: "take (64 * n) (drop 64 c) = take (64 * n) (drop 64 d)"
    using arg_cong [OF Suc.prems, of "drop 64"] by (simp add: drop_take)
  show ?case unfolding Transform.simps 1 by (rule Suc.IH [OF 2])
qed

lemma Transform_append [simp]: "64 * n \<le> length a \<Longrightarrow> Transform s (a @ b) n = Transform s a n"
  by (rule Transform_prefix) simp

lemma Transform_add: "Transform s c (a + b) = Transform (Transform s c a) (drop (64 * a) c) b"
  by (induction a arbitrary: s c) (simp_all add: add.commute)

lemma unat_bytes_mod: "unat ((of_nat n :: u64) mod 64) = n mod 64"
proof -
  have "unat (of_nat n :: u64) = n mod 2 ^ 64" by (simp add: unsigned_of_nat take_bit_eq_mod)
  moreover have "(n mod 2 ^ 64) mod 64 = n mod 64" by (simp add: mod_mod_cancel)
  ultimately show ?thesis by (simp add: unat_mod)
qed

lemma sha_rep_init: "sha_rep CSHA256 []"
  by (simp add: sha_rep_def CSHA256_def)

lemma sha_rep_blocks:
  assumes "sha_rep st m" "length m mod 64 = 0" and that: "length d = 64 * n"
  shows "sha_rep (st\<lparr>sha_s := Transform (sha_s st) d n, sha_bytes := sha_bytes st + of_nat (64 * n)\<rparr>)
           (m @ d)"
proof -
  let ?q = "length m div 64"
  have l: "length m = 64 * ?q" using assms(2) by auto
  have "length (m @ d) div 64 = ?q + n" using l that by simp
  moreover have "Transform Initialize (m @ d) (?q + n) = Transform (sha_s st) d n"
    using assms(1) l by (simp add: Transform_add sha_rep_def)
  moreover have "length (m @ d) mod 64 = 0" using assms(2) that by simp
  ultimately show ?thesis using assms(1) that l by (simp add: sha_rep_def add.commute)
qed

lemma sha_rep_buffer:
  assumes "sha_rep st m" "length m mod 64 + length d < 64"
  shows "sha_rep (st\<lparr>sha_buf := overwrite (length m mod 64) d (sha_buf st),
           sha_bytes := sha_bytes st + of_nat (length d)\<rparr>) (m @ d)"
proof -
  let ?q = "length m div 64" and ?r = "length m mod 64"
  have l: "length m = 64 * ?q + ?r" by simp
  have "length (m @ d) = 64 * ?q + (?r + length d)" using l by simp
  then have q: "length (m @ d) div 64 = ?q" "length (m @ d) mod 64 = ?r + length d"
    using assms(2) by (simp_all only: div_mult_self4 mod_mult_self4) simp_all
  have "64 * ?q \<le> length m" by simp
  moreover have "length (sha_buf st) = 64" "?r \<le> 64" using assms by (simp_all add: sha_rep_def)
  ultimately show ?thesis
    using assms unfolding sha_rep_def q by (simp add: overwrite_def minus_mult_div_eq_mod)
qed

lemma sha_rep_Write_rest:
  assumes rep: "sha_rep st m" and buf: "bufsize = length m mod 64"
    and fit: "bufsize = 0 \<or> bufsize + length d < 64"
  shows "sha_rep (CSHA256_Write_rest d bufsize st) (m @ d)"
proof (cases "length d \<ge> 64")
  case True
  then have z: "length m mod 64 = 0" using buf fit by auto
  let ?n = "length d div 64"
  let ?a = "take (64 * ?n) d" and ?b = "drop (64 * ?n) d"
  let ?st = "st\<lparr>sha_s := Transform (sha_s st) d ?n, sha_bytes := sha_bytes st + of_nat (64 * ?n)\<rparr>"
  have la: "length ?a = 64 * ?n" by simp
  have "Transform (sha_s st) ?a ?n = Transform (sha_s st) d ?n" by (rule Transform_prefix) simp
  then have 1: "sha_rep ?st (m @ ?a)" using sha_rep_blocks [OF rep z la] by simp
  have z1: "length (m @ ?a) mod 64 = 0" using z la by auto
  have "length ?b = length d mod 64" by (simp add: minus_mult_div_eq_mod)
  then have lb: "length ?b < 64" by simp
  have "sha_rep (?st\<lparr>sha_buf := overwrite 0 ?b (sha_buf ?st), sha_bytes := sha_bytes ?st + of_nat (length ?b)\<rparr>)
      ((m @ ?a) @ ?b)"
    using sha_rep_buffer [OF 1, of ?b] lb z1 by simp
  then have "sha_rep (?st\<lparr>sha_buf := overwrite 0 ?b (sha_buf ?st),
      sha_bytes := sha_bytes ?st + of_nat (length ?b)\<rparr>) (m @ d)"
    by (simp only: append_assoc append_take_drop_id)
  moreover have "?b = [] \<Longrightarrow> sha_rep ?st (m @ d)" using 1 by (metis append_Nil2 append_take_drop_id)
  moreover have "bufsize = 0" using z buf by simp
  ultimately show ?thesis
    using True by (cases "?b = []") (simp_all only: CSHA256_Write_rest_def Let_def simp_thms if_True if_False)
next
  case False
  then show ?thesis using sha_rep_buffer [OF rep, of d] rep buf fit
    by (auto simp: CSHA256_Write_rest_def Let_def)
qed

lemma sha_rep_fill:
  assumes rep: "sha_rep st m" and m: "length m = 64 * q + r" "r < 64" and a: "length a = 64 - r"
  defines "buf \<equiv> overwrite r a (sha_buf st)"
  shows "sha_rep (st\<lparr>sha_buf := buf, sha_bytes := sha_bytes st + of_nat (64 - r),
                     sha_s := Transform (sha_s st) buf 1\<rparr>) (m @ a)"
    and "length (m @ a) mod 64 = 0"
proof -
  have qr: "length m div 64 = q" "length m mod 64 = r" using m by simp_all
  have len: "length (m @ a) = 64 * Suc q" using m a by simp
  then have qr': "length (m @ a) div 64 = Suc q" "length (m @ a) mod 64 = 0"
    by simp_all
  have b: "buf = drop (64 * q) m @ a" "length buf = 64"
    using rep m a by (simp_all add: sha_rep_def overwrite_def buf_def qr)
  have "Transform Initialize (m @ a) (q + 1) = Transform (Transform Initialize m q) (drop (64 * q) m @ a) 1"
    unfolding Transform_add using m by simp
  then have "Transform (sha_s st) buf 1 = Transform Initialize (m @ a) (Suc q)"
    using rep by (simp only: sha_rep_def qr b(1) Suc_eq_plus1)
  moreover have "drop (64 * Suc q) (m @ a) = []" using len by simp
  moreover have "sha_bytes st + of_nat (64 - r) = of_nat (length (m @ a))"
    using rep a by (simp add: sha_rep_def)
  ultimately show "sha_rep (st\<lparr>sha_buf := buf, sha_bytes := sha_bytes st + of_nat (64 - r),
                     sha_s := Transform (sha_s st) buf 1\<rparr>) (m @ a)"
    unfolding sha_rep_def qr' using b(2) by simp
  show "length (m @ a) mod 64 = 0" by (rule qr')
qed

lemma sha_rep_Write:
  assumes rep: "sha_rep st m"
  shows "sha_rep (CSHA256_Write d st) (m @ d)"
proof -
  let ?r = "length m mod 64"
  have b: "unat (sha_bytes st mod 64) = ?r" using rep by (simp add: sha_rep_def unat_bytes_mod)
  show ?thesis
  proof (cases "?r \<noteq> 0 \<and> ?r + length d \<ge> 64")
    case True
    let ?a = "take (64 - ?r) d" and ?d = "drop (64 - ?r) d"
    let ?st = "st\<lparr>sha_buf := overwrite ?r ?a (sha_buf st), sha_bytes := sha_bytes st + of_nat (64 - ?r),
                  sha_s := Transform (sha_s st) (overwrite ?r ?a (sha_buf st)) 1\<rparr>"
    have "64 - ?r \<le> length d" using True by linarith
    then have "length ?a = 64 - ?r" by simp
    then have f: "sha_rep ?st (m @ ?a)" "length (m @ ?a) mod 64 = 0"
      using sha_rep_fill [OF rep, of "length m div 64" ?r ?a] by simp_all
    have "sha_rep (CSHA256_Write_rest ?d 0 ?st) ((m @ ?a) @ ?d)"
      by (rule sha_rep_Write_rest [OF f(1) f(2) [symmetric]]) simp
    then have "sha_rep (CSHA256_Write_rest ?d 0 ?st) (m @ d)"
      by (simp only: append_assoc append_take_drop_id)
    then show ?thesis unfolding CSHA256_Write_def b Let_def using True by (simp only: if_True simp_thms)
  next
    case False
    then have "sha_rep (CSHA256_Write_rest d ?r st) (m @ d)"
      by (intro sha_rep_Write_rest [OF rep]) auto
    then show ?thesis unfolding CSHA256_Write_def b Let_def using False by (simp only: if_False)
  qed
qed

lemma pad_arith_all: "list_all (\<lambda>r. (r + (9 + (119 - r) mod 64)) mod 64 = 0) [0..<64 :: nat]"
  by code_simp

lemma pad_arith: "r < 64 \<Longrightarrow> (r + (9 + (119 - r) mod 64)) mod 64 = 0" for r :: nat
proof -
  assume "r < 64"
  then have "r \<in> set [0..<64]" by simp
  then show ?thesis by (rule bspec [OF pad_arith_all [unfolded list_all_iff]])
qed

lemma sha256_pad_length: "length (sha256_pad m) mod 64 = 0"
proof -
  have "length (sha256_pad m) = length m + (9 + (119 - length m mod 64) mod 64)"
    by (simp add: sha256_pad_def)
  then show ?thesis using pad_arith [of "length m mod 64", OF mod_less_divisor] by (simp only: mod_add_left_eq)
qed

lemma CSHA256_Finalize_rep:
  assumes rep: "sha_rep st m"
  shows "CSHA256_Finalize st = sha256 m"
proof -
  let ?n = "(119 - length m mod 64) mod 64"
  have bytes: "sha_bytes st = of_nat (length m)" using rep by (simp add: sha_rep_def)
  have "(of_nat (length m) :: u64) mod 64 = of_nat (length m mod 64)"
    using unat_bytes_mod [of "length m"] less_trans [OF mod_less_divisor [of 64 "length m"]]
    by (simp only: word_unat_eq_iff) (subst unat_of_nat_eq; simp)
  moreover have "length m mod 64 \<le> 119" using mod_less_divisor [of 64 "length m"] by linarith
  then have "(119 :: u64) - of_nat (length m mod 64) = of_nat (119 - length m mod 64)"
    by (simp only: of_nat_diff of_nat_numeral)
  ultimately have "unat ((119 - sha_bytes st mod 64) mod 64) = ?n"
    by (simp only: bytes unat_bytes_mod)
  moreover have "take (1 + ?n) ((0x80 :: u8) # zeros 63) = [0x80] @ zeros ?n"
    by (simp add: min_absorb1 less_Suc_eq_le [symmetric])
  moreover have "push_bit 3 (sha_bytes st) = of_nat (8 * length m)"
    by (simp add: bytes push_bit_eq_mult)
  ultimately have f: "CSHA256_Finalize st = concat (map WriteBE32 (sha_s
      (CSHA256_Write (WriteBE64 (of_nat (8 * length m))) (CSHA256_Write ([0x80] @ zeros ?n) st))))"
    by (simp add: CSHA256_Finalize_def Let_def)
  have "sha_rep (CSHA256_Write (WriteBE64 (of_nat (8 * length m))) (CSHA256_Write ([0x80] @ zeros ?n) st))
      (sha256_pad m)"
    using sha_rep_Write [OF sha_rep_Write [OF rep, of "[0x80] @ zeros ?n"],
        of "WriteBE64 (of_nat (8 * length m))"] by (simp only: sha256_pad_def append_assoc)
  then show ?thesis by (simp add: f sha256_def sha_rep_def)
qed

lemma sha256_Write [simp]: "CSHA256_Finalize (CSHA256_Write m CSHA256) = sha256 m"
  using CSHA256_Finalize_rep [OF sha_rep_Write [OF sha_rep_init, of m]] by simp

lemma length_Transform1 [simp]: "length s = 8 \<Longrightarrow> length (Transform1 s c) = 8"
  by (simp add: Transform1_def Let_def split_beta)

lemma length_Transform [simp]: "length s = 8 \<Longrightarrow> length (Transform s c n) = 8"
  by (induction n arbitrary: s c) simp_all

lemma length_concat_WriteBE32 [simp]: "length (concat (map WriteBE32 x)) = 4 * length x"
  by (induction x) simp_all

lemma length_sha256 [simp, byte_simps]: "length (sha256 m) = 32"
  by (simp add: sha256_def Initialize_def)

lemma sha_rep_fold: "sha_rep st m \<Longrightarrow> sha_rep (fold CSHA256_Write chunks st) (m @ concat chunks)"
proof (induction chunks arbitrary: st m)
  case Nil
  then show ?case by simp
next
  case (Cons c chunks)
  then show ?case using Cons.IH [OF sha_rep_Write [OF Cons.prems]] by simp
qed

text \<open>
  C29. However a message is cut into pieces, feeding the pieces to \<^verbatim>\<open>CSHA256::Write\<close> and
  calling \<^verbatim>\<open>Finalize\<close> gives the SHA-256 hash of the whole message: padding, length and block
  boundaries do not depend on the buffering.
\<close>

theorem CSHA256_chunks:
  "CSHA256_Finalize (fold CSHA256_Write chunks CSHA256) = sha256 (concat chunks)"
  using CSHA256_Finalize_rep [OF sha_rep_fold [OF sha_rep_init]] by simp

section \<open>HMAC\<close>

lemma hmac_rkey: "map (\<lambda>b. b XOR (0x5c XOR 0x36)) (map (\<lambda>b. b XOR 0x5c) k) = map (\<lambda>b. b XOR 0x36) (k :: bytes)"
proof -
  have "(b XOR 0x5c) XOR (0x5c XOR 0x36) = b XOR 0x36" for b :: u8
    by (metis xor.assoc xor.right_neutral xor_self_eq xor.left_commute)
  then show ?thesis by simp
qed

lemma CHMAC_SHA256_eq:
  "CHMAC_SHA256 key = \<lparr>hmac_outer = CSHA256_Write (map (\<lambda>b. b XOR 0x5c) (hmac_key key)) CSHA256,
     hmac_inner = CSHA256_Write (map (\<lambda>b. b XOR 0x36) (hmac_key key)) CSHA256\<rparr>"
  by (simp only: CHMAC_SHA256_def hmac_key_def sha256_Write Let_def hmac_rkey)

lemma hmac_init:
  "sha_rep (hmac_outer (CHMAC_SHA256 key)) (map (\<lambda>b. b XOR 0x5c) (hmac_key key))"
  "sha_rep (hmac_inner (CHMAC_SHA256 key)) (map (\<lambda>b. b XOR 0x36) (hmac_key key))"
  using sha_rep_Write [OF sha_rep_init] by (simp_all add: CHMAC_SHA256_eq)

lemma hmac_Finalize:
  assumes "sha_rep (hmac_outer h) a" "sha_rep (hmac_inner h) b"
  shows "CHMAC_SHA256_Finalize h = sha256 (a @ sha256 b)"
  using CSHA256_Finalize_rep [OF sha_rep_Write [OF assms(1), of "sha256 b"]]
    CSHA256_Finalize_rep [OF assms(2)]
  by (simp add: CHMAC_SHA256_Finalize_def)

lemma hmac_Write [simp]:
  "CHMAC_SHA256_Finalize (CHMAC_SHA256_Write m (CHMAC_SHA256 key)) = hmac_sha256 key m"
  unfolding hmac_sha256_def
  by (rule hmac_Finalize) (simp_all add: CHMAC_SHA256_Write_def hmac_init sha_rep_Write)

lemma length_hmac_sha256 [simp, byte_simps]: "length (hmac_sha256 key m) = 32"
  by (simp add: hmac_sha256_def)

end
