(* ===== verification/Sv2_Noise.thy ===== *)
theory Sv2_Noise
  imports Sv2_Streams Sv2_CipherState Crypto_SHA256
begin

text \<open>
  The Noise NX handshake of \<^verbatim>\<open>src/src/sv2/noise.h\<close> and \<^verbatim>\<open>src/src/sv2/noise.cpp\<close>: the
  authority's certificate, the symmetric and handshake states, and \<^verbatim>\<open>Sv2Cipher\<close>, which turns a
  finished handshake into the two transport ciphers.

  Curve operations are those of libsecp256k1 as wrapped by \<^verbatim>\<open>src/src/key.cpp\<close> and
  \<^verbatim>\<open>src/src/pubkey.cpp\<close>: the record \<^verbatim>\<open>secp256k1\<close> of the library's functions is a parameter,
  and \<^verbatim>\<open>secp_ok\<close> states the documented behaviour that is relied on. Random draws are arguments.
\<close>

section \<open>The curve library\<close>

record secp256k1 =
  ellswift_create :: "bytes \<Rightarrow> bytes \<Rightarrow> bytes"
  ellswift_xdh :: "bytes \<Rightarrow> bytes \<Rightarrow> bytes \<Rightarrow> nat \<Rightarrow> bytes"
  ellswift_decode_xonly :: "bytes \<Rightarrow> bytes"
  schnorrsig_sign :: "bytes \<Rightarrow> bytes \<Rightarrow> bytes"
  schnorrsig_verify :: "bytes \<Rightarrow> bytes \<Rightarrow> bytes \<Rightarrow> bool"
  keypair_xonly_pub :: "bytes \<Rightarrow> bytes"

text \<open>
  Documented behaviour of the library: sizes; the two parties of an ElligatorSwift key exchange
  compute one secret; an encoding decodes to the key's public key; a signature verifies under
  the signer's public key.
\<close>

definition secp_ok :: "secp256k1 \<Rightarrow> bool" where
  "secp_ok S \<longleftrightarrow>
     (\<forall>sk e. length (ellswift_create S sk e) = 64) \<and>
     (\<forall>sk m. length (schnorrsig_sign S sk m) = 64) \<and>
     (\<forall>sk. length (keypair_xonly_pub S sk) = 32) \<and>
     (\<forall>ska ea skb eb.
        ellswift_xdh S (ellswift_create S ska ea) (ellswift_create S skb eb) ska 0 =
        ellswift_xdh S (ellswift_create S ska ea) (ellswift_create S skb eb) skb 1) \<and>
     (\<forall>sk e. ellswift_decode_xonly S (ellswift_create S sk e) = keypair_xonly_pub S sk) \<and>
     (\<forall>sk m. schnorrsig_verify S (keypair_xonly_pub S sk) m (schnorrsig_sign S sk m))"

text \<open>A private key: no key data, or its 32 bytes.\<close>

type_synonym ckey = "bytes option"

definition EllSwiftCreate :: "secp256k1 \<Rightarrow> bytes \<Rightarrow> ckey \<Rightarrow> bytes res" where
  "EllSwiftCreate S ent32 key =
     (case key of
        None \<Rightarrow> Abort ''keydata''
      | Some keydata \<Rightarrow>
          if length ent32 = 32 then Ret (ellswift_create S keydata ent32)
          else Abort ''ent32.size() == 32'')"

definition ComputeBIP324ECDHSecret ::
  "secp256k1 \<Rightarrow> bytes \<Rightarrow> bytes \<Rightarrow> bool \<Rightarrow> ckey \<Rightarrow> bytes res" where
  "ComputeBIP324ECDHSecret S their_ellswift our_ellswift initiating key =
     (case key of
        None \<Rightarrow> Abort ''keydata''
      | Some keydata \<Rightarrow>
          Ret (ellswift_xdh S (if initiating then our_ellswift else their_ellswift)
                              (if initiating then their_ellswift else our_ellswift)
                              keydata (if initiating then 0 else 1)))"

definition EllSwiftPubKey :: "bytes \<Rightarrow> bytes res" where
  "EllSwiftPubKey ellswift =
     (if length ellswift = 64 then Ret ellswift else Abort ''ellswift.size() == SIZE'')"

section \<open>The certificate\<close>

record certificate =
  cert_version :: u16
  cert_valid_from :: u32
  cert_valid_to :: u32
  cert_sig :: bytes
  cert_static_key :: bytes

definition Certificate_GetHash :: "certificate \<Rightarrow> bytes" where
  "Certificate_GetHash c =
     (let ss = ser_writedata16 (cert_version c) @ ser_writedata32 (cert_valid_from c) @
               ser_writedata32 (cert_valid_to c) @ cert_static_key c
      in CSHA256_Finalize (CSHA256_Write ss CSHA256))"

definition Certificate_SignSchnorr :: "secp256k1 \<Rightarrow> bytes \<Rightarrow> certificate \<Rightarrow> certificate" where
  "Certificate_SignSchnorr S authority_key c =
     c\<lparr>cert_sig := schnorrsig_sign S authority_key (Certificate_GetHash c)\<rparr>"

definition Sv2SignatureNoiseMessage ::
  "secp256k1 \<Rightarrow> u16 \<Rightarrow> u32 \<Rightarrow> u32 \<Rightarrow> bytes \<Rightarrow> bytes \<Rightarrow> certificate" where
  "Sv2SignatureNoiseMessage S version valid_from valid_to static_key authority_key =
     Certificate_SignSchnorr S authority_key
       \<lparr>cert_version = version, cert_valid_from = valid_from, cert_valid_to = valid_to,
        cert_sig = zeros 64, cert_static_key = static_key\<rparr>"

definition Certificate_Validate :: "secp256k1 \<Rightarrow> int \<Rightarrow> bytes \<Rightarrow> certificate \<Rightarrow> bool" where
  "Certificate_Validate S now authority_key c =
     (if cert_version c > 0 then False
      else if uint (cert_valid_from c) > now then False
      else if uint (cert_valid_to c) < now then False
      else if \<not> schnorrsig_verify S authority_key (Certificate_GetHash c) (cert_sig c) then False
      else True)"

definition Certificate_Serialize :: "certificate \<Rightarrow> bytes" where
  "Certificate_Serialize c =
     ser_writedata16 (cert_version c) @ ser_writedata32 (cert_valid_from c) @
     ser_writedata32 (cert_valid_to c) @ cert_sig c"

definition Certificate_Unserialize :: "certificate reader" where
  "Certificate_Unserialize =
     rd_bind ser_readdata16 (\<lambda>v.
     rd_bind ser_readdata32 (\<lambda>f.
     rd_bind ser_readdata32 (\<lambda>t.
     rd_bind (DataStream_read 64) (\<lambda>g.
     rd_return \<lparr>cert_version = v, cert_valid_from = f, cert_valid_to = t, cert_sig = g,
                cert_static_key = zeros 32\<rparr>))))"

section \<open>The symmetric state\<close>

record symmetric_state =
  m_chaining_key :: bytes
  m_hash_output :: bytes
  m_cipher_state :: cipher_state

definition PROTOCOL_NAME_HASH :: bytes where
  "PROTOCOL_NAME_HASH =
    [46, 180, 120, 129, 32, 142, 158, 238, 31, 102, 159, 103, 198, 110, 231, 14,
     169, 234, 136, 9, 13, 80, 63, 232, 48, 220, 75, 200, 62, 41, 191, 16]"

definition PROTOCOL_NAME_DOUBLE_HASH :: bytes where
  "PROTOCOL_NAME_DOUBLE_HASH =
    [146, 47, 163, 46, 79, 72, 124, 13, 89, 202, 163, 190, 215, 137, 156, 227,
     217, 141, 183, 225, 61, 189, 59, 124, 242, 210, 61, 212, 51, 220, 97, 4]"

definition Sv2SymmetricState :: symmetric_state where
  "Sv2SymmetricState =
     \<lparr>m_chaining_key = PROTOCOL_NAME_HASH, m_hash_output = PROTOCOL_NAME_DOUBLE_HASH,
      m_cipher_state = Sv2CipherState (zeros 32)\<rparr>"

definition MixHash :: "bytes \<Rightarrow> symmetric_state \<Rightarrow> symmetric_state" where
  "MixHash input st =
     st\<lparr>m_hash_output :=
         CSHA256_Finalize (CSHA256_Write input (CSHA256_Write (m_hash_output st) CSHA256))\<rparr>"

definition HKDF2 :: "bytes \<Rightarrow> symmetric_state \<Rightarrow> bytes \<times> bytes" where
  "HKDF2 input_key_material st =
     (let tmp_key = CHMAC_SHA256_Finalize
                      (CHMAC_SHA256_Write input_key_material (CHMAC_SHA256 (m_chaining_key st)));
          out0 = CHMAC_SHA256_Finalize (CHMAC_SHA256_Write [0x01] (CHMAC_SHA256 tmp_key));
          in1 = out0 @ [0x02];
          out1 = CHMAC_SHA256_Finalize (CHMAC_SHA256_Write in1 (CHMAC_SHA256 tmp_key))
      in (out0, out1))"

definition MixKey :: "bytes \<Rightarrow> symmetric_state \<Rightarrow> symmetric_state" where
  "MixKey input_key_material st =
     (let (out0, out1) = HKDF2 input_key_material st
      in st\<lparr>m_chaining_key := out0, m_cipher_state := Sv2CipherState out1\<rparr>)"

definition EncryptAndHash ::
  "bytes \<Rightarrow> bytes \<Rightarrow> symmetric_state \<Rightarrow> (bool \<times> bytes \<times> symmetric_state) res" where
  "EncryptAndHash plain ciphertext st =
     res_bind (Assume (EncryptedMessageSize (length plain) = length ciphertext) ''EncryptAndHash sizes'') (\<lambda>_.
     res_bind (EncryptWithAd (m_hash_output st) plain ciphertext (m_cipher_state st)) (\<lambda>(ok, c, cs).
     if \<not> ok then Ret (False, c, st\<lparr>m_cipher_state := cs\<rparr>)
     else Ret (True, c, MixHash c (st\<lparr>m_cipher_state := cs\<rparr>))))"

definition DecryptAndHash ::
  "bytes \<Rightarrow> bytes \<Rightarrow> symmetric_state \<Rightarrow> (bool \<times> bytes \<times> symmetric_state) res" where
  "DecryptAndHash ciphertext plain st =
     res_bind (Assume (EncryptedMessageSize (length plain) = length ciphertext) ''DecryptAndHash sizes'') (\<lambda>_.
     res_bind (DecryptWithAd (m_hash_output st) ciphertext plain (m_cipher_state st)) (\<lambda>(ok, p, cs).
     if \<not> ok then Ret (False, p, st\<lparr>m_cipher_state := cs\<rparr>)
     else Ret (True, p, MixHash ciphertext (st\<lparr>m_cipher_state := cs\<rparr>))))"

definition Split :: "symmetric_state \<Rightarrow> cipher_state \<times> cipher_state" where
  "Split st = (let (send_key, recv_key) = HKDF2 [] st
               in (Sv2CipherState send_key, Sv2CipherState recv_key))"

section \<open>The handshake state\<close>

record handshake_state =
  hs_static_key :: ckey
  hs_static_ellswift_pk :: bytes
  hs_ephemeral_key :: ckey
  hs_ephemeral_ellswift_pk :: bytes
  hs_remote_static_ellswift_pk :: bytes
  hs_remote_ephemeral_ellswift_pk :: bytes
  hs_symmetric_state :: symmetric_state
  hs_certificate :: "certificate option"
  hs_authority_pubkey :: "bytes option"

text \<open>The values one call draws from the random number generator: a private key and a 32-byte hash.\<close>

record draw =
  rand_key :: bytes
  rand_hash :: bytes

definition draw_ok :: "draw \<Rightarrow> bool" where
  "draw_ok d \<longleftrightarrow> length (rand_key d) = 32 \<and> length (rand_hash d) = 32"

definition hs_blank :: "ckey \<Rightarrow> bytes \<Rightarrow> handshake_state" where
  "hs_blank key pk =
     \<lparr>hs_static_key = key, hs_static_ellswift_pk = pk, hs_ephemeral_key = None,
      hs_ephemeral_ellswift_pk = zeros 64, hs_remote_static_ellswift_pk = zeros 64,
      hs_remote_ephemeral_ellswift_pk = zeros 64, hs_symmetric_state = Sv2SymmetricState,
      hs_certificate = None, hs_authority_pubkey = None\<rparr>"

definition Sv2HandshakeState_initiator ::
  "secp256k1 \<Rightarrow> draw \<Rightarrow> ckey \<Rightarrow> bytes \<Rightarrow> handshake_state res" where
  "Sv2HandshakeState_initiator S d static_key authority_pubkey =
     res_bind (EllSwiftCreate S (rand_hash d) static_key) (\<lambda>pk.
     Ret ((hs_blank static_key pk)\<lparr>hs_authority_pubkey := Some authority_pubkey\<rparr>))"

definition Sv2HandshakeState_responder ::
  "secp256k1 \<Rightarrow> draw \<Rightarrow> ckey \<Rightarrow> certificate \<Rightarrow> handshake_state res" where
  "Sv2HandshakeState_responder S d static_key cert =
     res_bind (EllSwiftCreate S (rand_hash d) static_key) (\<lambda>pk.
     Ret ((hs_blank static_key pk)\<lparr>hs_certificate := Some cert\<rparr>))"

definition SetEphemeralKey :: "secp256k1 \<Rightarrow> draw \<Rightarrow> ckey \<Rightarrow> handshake_state \<Rightarrow> handshake_state res" where
  "SetEphemeralKey S d key hs =
     res_bind (EllSwiftCreate S (rand_hash d) key) (\<lambda>pk.
     Ret (hs\<lparr>hs_ephemeral_key := key, hs_ephemeral_ellswift_pk := pk\<rparr>))"

definition GenerateEphemeralKey :: "secp256k1 \<Rightarrow> draw \<Rightarrow> handshake_state \<Rightarrow> handshake_state res" where
  "GenerateEphemeralKey S d hs =
     noexcept (res_bind (Assume (hs_ephemeral_key hs = None) ''!m_ephemeral_key.size()'') (\<lambda>_.
     SetEphemeralKey S d (Some (rand_key d)) hs))"

definition ensure_ephemeral_key :: "secp256k1 \<Rightarrow> draw \<Rightarrow> handshake_state \<Rightarrow> handshake_state res" where
  "ensure_ephemeral_key S d hs =
     (if hs_ephemeral_key hs = None then GenerateEphemeralKey S d hs else Ret hs)"

definition hs_mix :: "(symmetric_state \<Rightarrow> symmetric_state) \<Rightarrow> handshake_state \<Rightarrow> handshake_state" where
  "hs_mix f hs = hs\<lparr>hs_symmetric_state := f (hs_symmetric_state hs)\<rparr>"

definition WriteMsgEphemeralPK ::
  "secp256k1 \<Rightarrow> draw \<Rightarrow> bytes \<Rightarrow> handshake_state \<Rightarrow> (bytes \<times> handshake_state) res" where
  "WriteMsgEphemeralPK S d msg hs =
     (if length msg < ELLSWIFT_PUB_KEY_SIZE then Throw (runtime_error ''Invalid message size'')
      else
        res_bind (ensure_ephemeral_key S d hs) (\<lambda>hs.
        let msg = overwrite 0 (hs_ephemeral_ellswift_pk hs) msg;
            hs = hs_mix (MixHash (take ELLSWIFT_PUB_KEY_SIZE msg)) hs;
            hs = hs_mix (MixHash []) hs
        in Ret (msg, hs)))"

definition ReadMsgEphemeralPK :: "bytes \<Rightarrow> handshake_state \<Rightarrow> handshake_state res" where
  "ReadMsgEphemeralPK msg hs =
     res_bind (Assume (length msg = ELLSWIFT_PUB_KEY_SIZE) ''msg.size()'') (\<lambda>_.
     res_bind (EllSwiftPubKey msg) (\<lambda>pk.
     let hs = hs\<lparr>hs_remote_ephemeral_ellswift_pk := pk\<rparr>;
         hs = hs_mix (MixHash (take ELLSWIFT_PUB_KEY_SIZE msg)) hs
     in Ret (hs_mix (MixHash []) hs)))"

text \<open>Encrypting into a part of the message buffer, and failing as the code does when that is refused.\<close>

definition hs_encrypt_at ::
  "nat \<Rightarrow> bytes \<Rightarrow> string \<Rightarrow> bytes \<Rightarrow> handshake_state \<Rightarrow> (bytes \<times> handshake_state) res" where
  "hs_encrypt_at pos plain what msg hs =
     res_bind (EncryptAndHash plain (take (length plain + TAGLEN) (drop pos msg)) (hs_symmetric_state hs))
       (\<lambda>(ok, c, ss).
        if \<not> ok then Abort what
        else Ret (overwrite pos c msg, hs\<lparr>hs_symmetric_state := ss\<rparr>))"

definition WriteMsgES ::
  "secp256k1 \<Rightarrow> draw \<Rightarrow> bytes \<Rightarrow> handshake_state \<Rightarrow> (bytes \<times> handshake_state) res" where
  "WriteMsgES S d msg hs =
     (if length msg < HANDSHAKE_STEP2_SIZE then Throw (runtime_error ''Invalid message size'')
      else
        res_bind (ensure_ephemeral_key S d hs) (\<lambda>hs.
        let msg = overwrite 0 (hs_ephemeral_ellswift_pk hs) msg;
            hs = hs_mix (MixHash (take ELLSWIFT_PUB_KEY_SIZE msg)) hs
        in
        res_bind (ComputeBIP324ECDHSecret S (hs_remote_ephemeral_ellswift_pk hs)
                    (hs_ephemeral_ellswift_pk hs) False (hs_ephemeral_key hs)) (\<lambda>ecdh_secret.
        let hs = hs_mix (MixKey ecdh_secret) hs in
        res_bind (hs_encrypt_at ELLSWIFT_PUB_KEY_SIZE (hs_static_ellswift_pk hs)
                    ''Failed to encrypt our ephemeral key'' msg hs) (\<lambda>(msg, hs).
        res_bind (ComputeBIP324ECDHSecret S (hs_remote_ephemeral_ellswift_pk hs)
                    (hs_static_ellswift_pk hs) False (hs_static_key hs)) (\<lambda>ecdh_static_secret.
        let hs = hs_mix (MixKey ecdh_static_secret) hs;
            bytes_written = ELLSWIFT_PUB_KEY_SIZE + (ELLSWIFT_PUB_KEY_SIZE + TAGLEN)
        in case hs_certificate hs of
             None \<Rightarrow> Abort ''m_certificate''
           | Some cert \<Rightarrow>
               let ss = Certificate_Serialize cert in
               res_bind (Assume (length ss = SIGNATURE_NOISE_MESSAGE_SIZE) ''ss.size()'') (\<lambda>_.
               res_bind (hs_encrypt_at bytes_written ss ''Failed to encrypt our certificate'' msg hs)
                 (\<lambda>(msg, hs).
               res_bind (Assume (bytes_written + (SIGNATURE_NOISE_MESSAGE_SIZE + TAGLEN) =
                                 HANDSHAKE_STEP2_SIZE) ''bytes_written'') (\<lambda>_.
               Ret (msg, hs))))))))) "

definition ReadMsgES ::
  "secp256k1 \<Rightarrow> int \<Rightarrow> bytes \<Rightarrow> handshake_state \<Rightarrow> (bool \<times> handshake_state) res" where
  "ReadMsgES S now msg hs =
     res_bind (Assume (length msg = HANDSHAKE_STEP2_SIZE) ''msg.size()'') (\<lambda>_.
     res_bind (EllSwiftPubKey (take ELLSWIFT_PUB_KEY_SIZE msg)) (\<lambda>re.
     let hs = hs\<lparr>hs_remote_ephemeral_ellswift_pk := re\<rparr>;
         hs = hs_mix (MixHash (hs_remote_ephemeral_ellswift_pk hs)) hs
     in
     res_bind (ComputeBIP324ECDHSecret S (hs_remote_ephemeral_ellswift_pk hs)
                 (hs_ephemeral_ellswift_pk hs) True (hs_ephemeral_key hs)) (\<lambda>ecdh_secret.
     let hs = hs_mix (MixKey ecdh_secret) hs in
     res_bind (DecryptAndHash (take (ELLSWIFT_PUB_KEY_SIZE + TAGLEN) (drop ELLSWIFT_PUB_KEY_SIZE msg))
                 (zeros ELLSWIFT_PUB_KEY_SIZE) (hs_symmetric_state hs)) (\<lambda>(ok, rs, ss).
     let hs = hs\<lparr>hs_symmetric_state := ss\<rparr> in
     if \<not> ok then Ret (False, hs)
     else
     let bytes_read = ELLSWIFT_PUB_KEY_SIZE + (ELLSWIFT_PUB_KEY_SIZE + TAGLEN) in
     res_bind (EllSwiftPubKey rs) (\<lambda>rs.
     let hs = hs\<lparr>hs_remote_static_ellswift_pk := rs\<rparr> in
     res_bind (ComputeBIP324ECDHSecret S (hs_remote_static_ellswift_pk hs)
                 (hs_ephemeral_ellswift_pk hs) True (hs_ephemeral_key hs)) (\<lambda>ecdh_static_secret.
     let hs = hs_mix (MixKey ecdh_static_secret) hs in
     res_bind (DecryptAndHash (take (SIGNATURE_NOISE_MESSAGE_SIZE + TAGLEN) (drop bytes_read msg))
                 (zeros SIGNATURE_NOISE_MESSAGE_SIZE) (hs_symmetric_state hs)) (\<lambda>(ok, cert_bytes, ss).
     let hs = hs\<lparr>hs_symmetric_state := ss\<rparr> in
     if \<not> ok then Ret (False, hs)
     else
     res_bind (Certificate_Unserialize (DataStream cert_bytes)) (\<lambda>(cert, _).
     let cert = cert\<lparr>cert_static_key := ellswift_decode_xonly S (hs_remote_static_ellswift_pk hs)\<rparr> in
     case hs_authority_pubkey hs of
       None \<Rightarrow> Abort ''m_authority_pubkey''
     | Some authority \<Rightarrow>
         if \<not> Certificate_Validate S now authority cert then Ret (False, hs)
         else res_bind (Assume (bytes_read + (SIGNATURE_NOISE_MESSAGE_SIZE + TAGLEN) =
                                HANDSHAKE_STEP2_SIZE) ''bytes_read'') (\<lambda>_.
              Ret (True, hs)))))))))) "

section \<open>The cipher of a connection\<close>

record sv2_cipher =
  c_initiator :: bool
  c_handshake_state :: "handshake_state option"
  c_hash :: bytes
  c_cs1 :: cipher_state
  c_cs2 :: cipher_state

definition Sv2Cipher :: "bool \<Rightarrow> handshake_state \<Rightarrow> sv2_cipher" where
  "Sv2Cipher initiator hs =
     \<lparr>c_initiator = initiator, c_handshake_state = Some hs, c_hash = zeros 32,
      c_cs1 = Sv2CipherState (zeros 32), c_cs2 = Sv2CipherState (zeros 32)\<rparr>"

definition Sv2Cipher_initiator :: "secp256k1 \<Rightarrow> draw \<Rightarrow> ckey \<Rightarrow> bytes \<Rightarrow> sv2_cipher res" where
  "Sv2Cipher_initiator S d static_key authority_pubkey =
     res_bind (Sv2HandshakeState_initiator S d static_key authority_pubkey) (\<lambda>hs. Ret (Sv2Cipher True hs))"

definition Sv2Cipher_responder :: "secp256k1 \<Rightarrow> draw \<Rightarrow> ckey \<Rightarrow> certificate \<Rightarrow> sv2_cipher res" where
  "Sv2Cipher_responder S d static_key cert =
     res_bind (Sv2HandshakeState_responder S d static_key cert) (\<lambda>hs. Ret (Sv2Cipher False hs))"

definition GetHandshakeState :: "sv2_cipher \<Rightarrow> handshake_state res" where
  "GetHandshakeState c =
     (case c_handshake_state c of None \<Rightarrow> Abort ''m_handshake_state'' | Some hs \<Rightarrow> Ret hs)"

definition FinishHandshake :: "sv2_cipher \<Rightarrow> sv2_cipher res" where
  "FinishHandshake c =
     (case c_handshake_state c of
        None \<Rightarrow> Abort ''m_handshake_state''
      | Some hs \<Rightarrow>
          let (cs1, cs2) = Split (hs_symmetric_state hs)
          in Ret (c\<lparr>c_hash := m_hash_output (hs_symmetric_state hs), c_cs1 := cs1, c_cs2 := cs2,
                    c_handshake_state := None\<rparr>))"

definition Sv2Cipher_DecryptMessage ::
  "bytes \<Rightarrow> bytes \<Rightarrow> sv2_cipher \<Rightarrow> (bool \<times> bytes \<times> sv2_cipher) res" where
  "Sv2Cipher_DecryptMessage ciphertext plain c =
     res_bind (Assume (EncryptedMessageSize (length plain) = length ciphertext) ''DecryptMessage sizes'') (\<lambda>_.
     if c_initiator c then
       res_bind (CipherState_DecryptMessage ciphertext plain (c_cs2 c)) (\<lambda>(ok, p, cs).
       Ret (ok, p, c\<lparr>c_cs2 := cs\<rparr>))
     else
       res_bind (CipherState_DecryptMessage ciphertext plain (c_cs1 c)) (\<lambda>(ok, p, cs).
       Ret (ok, p, c\<lparr>c_cs1 := cs\<rparr>)))"

definition Sv2Cipher_EncryptMessage ::
  "bytes \<Rightarrow> bytes \<Rightarrow> sv2_cipher \<Rightarrow> (bool \<times> bytes \<times> sv2_cipher) res" where
  "Sv2Cipher_EncryptMessage inp output c =
     res_bind (Assume (length output = EncryptedMessageSize (length inp)) ''EncryptMessage sizes'') (\<lambda>_.
     if c_initiator c then
       res_bind (CipherState_EncryptMessage inp output (c_cs1 c)) (\<lambda>(ok, o', cs).
       Ret (ok, o', c\<lparr>c_cs1 := cs\<rparr>))
     else
       res_bind (CipherState_EncryptMessage inp output (c_cs2 c)) (\<lambda>(ok, o', cs).
       Ret (ok, o', c\<lparr>c_cs2 := cs\<rparr>)))"

section \<open>Certificates\<close>

lemma length_Certificate_Serialize:
  "length (cert_sig c) = 64 \<Longrightarrow> length (Certificate_Serialize c) = SIGNATURE_NOISE_MESSAGE_SIZE"
  by (simp add: Certificate_Serialize_def ser_writedata16_def ser_writedata32_def noise_sizes)

lemma reads_Certificate:
  assumes "length (cert_sig c) = 64"
  shows "reads Certificate_Unserialize (Certificate_Serialize c) (c\<lparr>cert_static_key := zeros 32\<rparr>)"
proof -
  have 4: "reads (rd_bind (DataStream_read 64) (\<lambda>g. rd_return \<lparr>cert_version = cert_version c,
      cert_valid_from = cert_valid_from c, cert_valid_to = cert_valid_to c, cert_sig = g,
      cert_static_key = zeros 32\<rparr>)) (cert_sig c) (c\<lparr>cert_static_key := zeros 32\<rparr>)"
    using assms by (intro reads_fixed) simp_all
  show ?thesis
    unfolding Certificate_Unserialize_def Certificate_Serialize_def
    by (rule reads_bind [OF reads_data(2) _ refl], rule reads_bind [OF reads_data(3) _ refl],
        rule reads_bind [OF reads_data(3) _ refl], rule 4)
qed

lemma Certificate_Unserialize_Serialize:
  assumes "length (cert_sig c) = 64"
  shows "\<exists>s. Certificate_Unserialize (DataStream (Certificate_Serialize c)) =
    Ret (c\<lparr>cert_static_key := zeros 32\<rparr>, s)"
  using reads_DataStream [OF reads_Certificate [OF assms]] length_Certificate_Serialize [OF assms]
  by (auto simp: noise_sizes)

lemma Certificate_GetHash_sig [simp]: "Certificate_GetHash (c\<lparr>cert_sig := g\<rparr>) = Certificate_GetHash c"
  by (simp add: Certificate_GetHash_def)

lemma issued_fields [simp]:
  "cert_version (Sv2SignatureNoiseMessage S v f t k a) = v"
  "cert_valid_from (Sv2SignatureNoiseMessage S v f t k a) = f"
  "cert_valid_to (Sv2SignatureNoiseMessage S v f t k a) = t"
  "cert_static_key (Sv2SignatureNoiseMessage S v f t k a) = k"
  by (simp_all add: Sv2SignatureNoiseMessage_def Certificate_SignSchnorr_def)

lemma issued_static_key_same [simp]:
  "(Sv2SignatureNoiseMessage S v f t k a)\<lparr>cert_static_key := k\<rparr> = Sv2SignatureNoiseMessage S v f t k a"
  by (simp add: Sv2SignatureNoiseMessage_def Certificate_SignSchnorr_def)

lemma issued_sig:
  "cert_sig (Sv2SignatureNoiseMessage S v f t k a) =
     schnorrsig_sign S a (Certificate_GetHash (Sv2SignatureNoiseMessage S v f t k a))"
  by (simp add: Sv2SignatureNoiseMessage_def Certificate_SignSchnorr_def Certificate_GetHash_def)

lemma issued_sig_length: "secp_ok S \<Longrightarrow> length (cert_sig (Sv2SignatureNoiseMessage S v f t k a)) = 64"
  by (simp add: issued_sig secp_ok_def)

lemma issued_Validate:
  assumes "secp_ok S"
  shows "Certificate_Validate S now (keypair_xonly_pub S a) (Sv2SignatureNoiseMessage S v f t k a) \<longleftrightarrow>
    v = 0 \<and> uint f \<le> now \<and> now \<le> uint t"
  using assms unfolding Certificate_Validate_def issued_sig
  by (auto simp: secp_ok_def word_gt_0)

section \<open>The handshake\<close>

lemma EncryptAndHash_ok:
  assumes "0 < length p" "length p \<le> 65519" "length c = length p + 16"
    "cs_nonce (m_cipher_state st) \<noteq> UINT64_MAX"
  shows "EncryptAndHash p c st =
    Ret (True, seal_cs (m_hash_output st) (m_cipher_state st) p,
         MixHash (seal_cs (m_hash_output st) (m_cipher_state st) p)
           (st\<lparr>m_cipher_state := bump_nonce (m_cipher_state st)\<rparr>))"
  using assms by (simp add: EncryptAndHash_def EncryptWithAd_ok EncryptedMessageSize_small)

lemma DecryptAndHash_seal:
  assumes "0 < length p" "length p \<le> 65519" "length q = length p"
    "cs_nonce (m_cipher_state st) \<noteq> UINT64_MAX"
  shows "DecryptAndHash (seal_cs (m_hash_output st) (m_cipher_state st) p) q st =
    Ret (True, p, MixHash (seal_cs (m_hash_output st) (m_cipher_state st) p)
           (st\<lparr>m_cipher_state := bump_nonce (m_cipher_state st)\<rparr>))"
  using assms
  by (simp add: DecryptAndHash_def DecryptWithAd_seal EncryptedMessageSize_small length_seal)

lemma MixKey_nonce [simp]: "cs_nonce (m_cipher_state (MixKey k st)) = 0"
  by (simp add: MixKey_def Sv2CipherState_def split_beta)

lemma hs_encrypt_at_ok:
  assumes "length A = pos" "length B = length p + 16" "0 < length p" "length p \<le> 65519"
    "cs_nonce (m_cipher_state (hs_symmetric_state hs)) \<noteq> UINT64_MAX"
  shows "hs_encrypt_at pos p w (A @ B @ C) hs =
    (let st = hs_symmetric_state hs; c = seal_cs (m_hash_output st) (m_cipher_state st) p
     in Ret (A @ c @ C, hs\<lparr>hs_symmetric_state :=
          MixHash c (st\<lparr>m_cipher_state := bump_nonce (m_cipher_state st)\<rparr>)\<rparr>))"
proof -
  have "take (length p + TAGLEN) (drop pos (A @ B @ C)) = B"
    using assms by (simp add: TAGLEN_def)
  moreover have "overwrite pos c (A @ B @ C) = A @ c @ C" if "length c = length p + 16" for c
    using assms that by (intro overwrite_append) simp_all
  ultimately show ?thesis
    using assms by (simp add: hs_encrypt_at_def EncryptAndHash_ok Let_def length_seal)
qed

definition seal_step :: "bytes \<Rightarrow> symmetric_state \<Rightarrow> bytes \<times> symmetric_state" where
  "seal_step p st =
     (let c = seal_cs (m_hash_output st) (m_cipher_state st) p
      in (c, MixHash c (st\<lparr>m_cipher_state := bump_nonce (m_cipher_state st)\<rparr>)))"

lemma length_seal_step [simp]: "length (fst (seal_step p st)) = length p + 16"
  by (simp add: seal_step_def Let_def length_seal)

text \<open>
  The transcript both sides compute in step 2: from the symmetric state before it, the
  responder's ephemeral and static keys, its certificate bytes and the two shared secrets, the
  message and the symmetric state after it.
\<close>

definition step2 ::
  "bytes \<Rightarrow> bytes \<Rightarrow> bytes \<Rightarrow> bytes \<Rightarrow> bytes \<Rightarrow> symmetric_state \<Rightarrow> bytes \<times> symmetric_state" where
  "step2 e s cert ee es st =
     (let (c1, st1) = seal_step s (MixKey ee (MixHash e st));
          (c2, st2) = seal_step cert (MixKey es st1)
      in (e @ c1 @ c2, st2))"

lemma ensure_ephemeral_key_fresh:
  assumes "hs_ephemeral_key hs = None" "draw_ok d"
  shows "ensure_ephemeral_key S d hs =
    Ret (hs\<lparr>hs_ephemeral_key := Some (rand_key d),
           hs_ephemeral_ellswift_pk := ellswift_create S (rand_key d) (rand_hash d)\<rparr>)"
  using assms
  by (simp add: ensure_ephemeral_key_def GenerateEphemeralKey_def SetEphemeralKey_def EllSwiftCreate_def
      draw_ok_def)

lemma WriteMsgEphemeralPK_ok:
  assumes "hs_ephemeral_key hs = None" "draw_ok d" "secp_ok S" "length msg = 64"
  defines "e \<equiv> ellswift_create S (rand_key d) (rand_hash d)"
  shows "WriteMsgEphemeralPK S d msg hs =
    Ret (e, hs\<lparr>hs_ephemeral_key := Some (rand_key d), hs_ephemeral_ellswift_pk := e,
               hs_symmetric_state := MixHash [] (MixHash e (hs_symmetric_state hs))\<rparr>)"
proof -
  have "length e = 64" using assms(3) by (simp add: e_def secp_ok_def)
  then show ?thesis
    using assms(4) ensure_ephemeral_key_fresh [OF assms(1,2), of S, folded e_def]
    by (simp add: WriteMsgEphemeralPK_def hs_mix_def overwrite_all noise_sizes Let_def)
qed

lemma ReadMsgEphemeralPK_ok:
  assumes "length msg = 64"
  shows "ReadMsgEphemeralPK msg hs =
    Ret (hs\<lparr>hs_remote_ephemeral_ellswift_pk := msg,
           hs_symmetric_state := MixHash [] (MixHash msg (hs_symmetric_state hs))\<rparr>)"
  using assms by (simp add: ReadMsgEphemeralPK_def EllSwiftPubKey_def hs_mix_def noise_sizes)

lemma WriteMsgES_ok:
  assumes hs: "hs_ephemeral_key hs = None" "hs_static_key hs = Some sk"
      "length (hs_static_ellswift_pk hs) = 64" "hs_certificate hs = Some cert" "length (cert_sig cert) = 64"
    and d: "draw_ok d" and S: "secp_ok S" and msg: "length msg = 234"
  defines "e \<equiv> ellswift_create S (rand_key d) (rand_hash d)"
    and "re \<equiv> hs_remote_ephemeral_ellswift_pk hs"
  defines "r \<equiv> step2 e (hs_static_ellswift_pk hs) (Certificate_Serialize cert)
      (ellswift_xdh S re e (rand_key d) 1) (ellswift_xdh S re (hs_static_ellswift_pk hs) sk 1)
      (hs_symmetric_state hs)"
  shows "WriteMsgES S d msg hs =
    Ret (fst r, hs\<lparr>hs_ephemeral_key := Some (rand_key d), hs_ephemeral_ellswift_pk := e,
                  hs_symmetric_state := snd r\<rparr>)"
proof -
  have e: "length e = 64" using S by (simp add: e_def secp_ok_def)
  let ?hs0 = "hs\<lparr>hs_ephemeral_key := Some (rand_key d), hs_ephemeral_ellswift_pk := e\<rparr>"
  have k: "ensure_ephemeral_key S d hs = Ret ?hs0"
    using ensure_ephemeral_key_fresh [OF hs(1) d, of S] by (simp add: e_def)
  obtain A B C where m: "msg = A @ B @ C" and A: "length A = 64" and BC: "length B = 80" "length C = 90"
    using length_split3 [of msg 64 80 90] msg by auto
  have m0: "overwrite 0 e msg = e @ B @ C" using e A by (simp add: m overwrite_head)
  have cert: "length (Certificate_Serialize cert) = 74"
    using length_Certificate_Serialize [OF hs(5)] by (simp add: noise_sizes)
  define st1 where "st1 = MixKey (ellswift_xdh S re e (rand_key d) 1) (MixHash e (hs_symmetric_state hs))"
  define c1 where "c1 = fst (seal_step (hs_static_ellswift_pk hs) st1)"
  define st2 where "st2 = MixKey (ellswift_xdh S re (hs_static_ellswift_pk hs) sk 1)
      (snd (seal_step (hs_static_ellswift_pk hs) st1))"
  have c1: "length c1 = 80" using hs(3) by (simp add: c1_def)
  have n: "cs_nonce (m_cipher_state st1) \<noteq> UINT64_MAX" "cs_nonce (m_cipher_state st2) \<noteq> UINT64_MAX"
    by (simp_all add: st1_def st2_def)
  have 1: "hs_encrypt_at 64 (hs_static_ellswift_pk hs) w (e @ B @ C) (h\<lparr>hs_symmetric_state := st1\<rparr>) =
      Ret (e @ c1 @ C, h\<lparr>hs_symmetric_state := snd (seal_step (hs_static_ellswift_pk hs) st1)\<rparr>)" for w h
    using hs_encrypt_at_ok [OF e, of B "hs_static_ellswift_pk hs" "h\<lparr>hs_symmetric_state := st1\<rparr>" w C] BC hs(3) n(1)
    by (simp add: Let_def seal_step_def c1_def)
  have 2: "hs_encrypt_at 144 (Certificate_Serialize cert) w (e @ c1 @ C) (h\<lparr>hs_symmetric_state := st2\<rparr>) =
      Ret (e @ c1 @ fst (seal_step (Certificate_Serialize cert) st2),
           h\<lparr>hs_symmetric_state := snd (seal_step (Certificate_Serialize cert) st2)\<rparr>)" for w h
    using hs_encrypt_at_ok [of "e @ c1" 144 C "Certificate_Serialize cert" "h\<lparr>hs_symmetric_state := st2\<rparr>" w "[]"]
      BC e c1 cert n(2)
    by (simp add: Let_def seal_step_def)
  show ?thesis
    using msg e hs k m0 1 [of _ ?hs0] 2 [of _ ?hs0] cert
    by (simp add: WriteMsgES_def noise_sizes hs_mix_def ComputeBIP324ECDHSecret_def r_def step2_def
        split_beta st1_def [symmetric] c1_def [symmetric] st2_def [symmetric] re_def [symmetric] Let_def
        del: One_nat_def)
qed

lemma ReadMsgES_ok:
  assumes hs: "hs_ephemeral_key hs = Some ek" "hs_authority_pubkey hs = Some authority"
    and len: "length e = 64" "length s = 64" "length (cert_sig cert) = 64"
    and valid: "Certificate_Validate S now authority (cert\<lparr>cert_static_key := ellswift_decode_xonly S s\<rparr>)"
  defines "r \<equiv> step2 e s (Certificate_Serialize cert)
      (ellswift_xdh S (hs_ephemeral_ellswift_pk hs) e ek 0)
      (ellswift_xdh S (hs_ephemeral_ellswift_pk hs) s ek 0) (hs_symmetric_state hs)"
  shows "ReadMsgES S now (fst r) hs =
    Ret (True, hs\<lparr>hs_remote_ephemeral_ellswift_pk := e, hs_remote_static_ellswift_pk := s,
                  hs_symmetric_state := snd r\<rparr>)"
proof -
  define st1 where "st1 = MixKey (ellswift_xdh S (hs_ephemeral_ellswift_pk hs) e ek 0)
      (MixHash e (hs_symmetric_state hs))"
  define c1 where "c1 = fst (seal_step s st1)"
  define st2 where "st2 = MixKey (ellswift_xdh S (hs_ephemeral_ellswift_pk hs) s ek 0) (snd (seal_step s st1))"
  define c2 where "c2 = fst (seal_step (Certificate_Serialize cert) st2)"
  have cert: "length (Certificate_Serialize cert) = 74"
    using length_Certificate_Serialize [OF len(3)] by (simp add: noise_sizes)
  have c: "length c1 = 80" "length c2 = 90" using len cert by (simp_all add: c1_def c2_def)
  have n: "cs_nonce (m_cipher_state st1) \<noteq> UINT64_MAX" "cs_nonce (m_cipher_state st2) \<noteq> UINT64_MAX"
    by (simp_all add: st1_def st2_def)
  have 1: "DecryptAndHash c1 (zeros 64) st1 = Ret (True, s, snd (seal_step s st1))"
    using DecryptAndHash_seal [of s "zeros 64" st1] len n
    by (simp add: c1_def seal_step_def Let_def)
  have 2: "DecryptAndHash c2 (zeros 74) st2 =
      Ret (True, Certificate_Serialize cert, snd (seal_step (Certificate_Serialize cert) st2))"
    using DecryptAndHash_seal [of "Certificate_Serialize cert" "zeros 74" st2] cert n
    by (simp add: c2_def seal_step_def Let_def)
  obtain sd where u: "Certificate_Unserialize (DataStream (Certificate_Serialize cert)) =
      Ret (cert\<lparr>cert_static_key := zeros 32\<rparr>, sd)"
    using Certificate_Unserialize_Serialize [OF len(3)] by auto
  have r: "fst r = e @ c1 @ c2" "snd r = snd (seal_step (Certificate_Serialize cert) st2)"
    by (simp_all add: r_def step2_def split_beta st1_def c1_def st2_def c2_def Let_def)
  show ?thesis
    unfolding r using len hs c 1 2 u valid
    by (simp add: ReadMsgES_def EllSwiftPubKey_def noise_sizes hs_mix_def ComputeBIP324ECDHSecret_def
        st1_def [symmetric] st2_def [symmetric] Let_def)
qed

lemma DecryptAndHash_total:
  assumes "0 < length p" "length p \<le> 65519" "length c = length p + 16"
  shows "\<exists>ok q st'. DecryptAndHash c p st = Ret (ok, q, st') \<and> length q = length p"
  using DecryptWithAd_total [OF assms, of "m_hash_output st" "m_cipher_state st"] assms
  by (auto simp: DecryptAndHash_def EncryptedMessageSize_small)

lemma Certificate_Unserialize_total:
  assumes "length b = 74" shows "\<exists>c s. Certificate_Unserialize (DataStream b) = Ret (c, s)"
proof -
  define c where "c = \<lparr>cert_version = ReadLE16 (take 2 b), cert_valid_from = ReadLE32 (take 4 (drop 2 b)),
    cert_valid_to = ReadLE32 (take 4 (drop 6 b)), cert_sig = drop 10 b, cert_static_key = zeros 32\<rparr>"
  have "Certificate_Serialize c = take 2 b @ take 4 (drop 2 b) @ take 4 (drop 6 b) @ drop 10 b"
    using assms by (simp add: c_def Certificate_Serialize_def ser_writedata16_def ser_writedata32_def byte_simps)
  also have "\<dots> = b"
    using append_take_drop_id [of 2 b] append_take_drop_id [of 4 "drop 2 b"] append_take_drop_id [of 4 "drop 6 b"]
    by simp
  finally have b: "Certificate_Serialize c = b" .
  have "length (cert_sig c) = 64" using assms by (simp add: c_def)
  from Certificate_Unserialize_Serialize [OF this] show ?thesis unfolding b by blast
qed

text \<open>
  What the initiator receives as the second message may be anything: it is refused or accepted,
  and neither an assertion nor an exception is triggered.
\<close>

lemma ReadMsgES_total:
  assumes "hs_ephemeral_key hs = Some ek" "hs_authority_pubkey hs = Some authority" "length msg = 234"
  shows "\<exists>ok hs'. ReadMsgES S now msg hs = Ret (ok, hs')"
proof -
  have 1: "\<exists>ok q st'. DecryptAndHash (take 80 (drop 64 msg)) (zeros 64) st = Ret (ok, q, st') \<and> length q = 64" for st
    using DecryptAndHash_total [of "zeros 64" "take 80 (drop 64 msg)" st] assms(3) by simp
  have 2: "\<exists>ok q st'. DecryptAndHash (take 90 (drop 144 msg)) (zeros 74) st = Ret (ok, q, st') \<and> length q = 74" for st
    using DecryptAndHash_total [of "zeros 74" "take 90 (drop 144 msg)" st] assms(3) by simp
  define st1 where "st1 = MixKey (ellswift_xdh S (hs_ephemeral_ellswift_pk hs) (take 64 msg) ek 0)
      (MixHash (take 64 msg) (hs_symmetric_state hs))"
  obtain ok1 rs st1' where r1: "DecryptAndHash (take 80 (drop 64 msg)) (zeros 64) st1 = Ret (ok1, rs, st1')"
    and rs: "length rs = 64" using 1 by blast
  define st2 where "st2 = MixKey (ellswift_xdh S (hs_ephemeral_ellswift_pk hs) rs ek 0) st1'"
  obtain ok2 cb st2' where r2: "DecryptAndHash (take 90 (drop 144 msg)) (zeros 74) st2 = Ret (ok2, cb, st2')"
    and cb: "length cb = 74" using 2 by blast
  obtain c sd where u: "Certificate_Unserialize (DataStream cb) = Ret (c, sd)"
    using Certificate_Unserialize_total [OF cb] by blast
  show ?thesis using assms r1 r2 rs u
    by (auto simp: ReadMsgES_def EllSwiftPubKey_def noise_sizes hs_mix_def ComputeBIP324ECDHSecret_def
        st1_def [symmetric] st2_def [symmetric] Let_def)
qed

text \<open>A handshake run: the four calls of the two sides, with the draws each makes.\<close>

definition handshake_run ::
  "secp256k1 \<Rightarrow> int \<Rightarrow> draw \<Rightarrow> draw \<Rightarrow> handshake_state \<Rightarrow> handshake_state \<Rightarrow>
     (bool \<times> bytes \<times> bytes \<times> handshake_state \<times> handshake_state) res" where
  "handshake_run S now di dr hi hr =
     res_bind (WriteMsgEphemeralPK S di (zeros 64) hi) (\<lambda>(m1, hi).
     res_bind (ReadMsgEphemeralPK m1 hr) (\<lambda>hr.
     res_bind (WriteMsgES S dr (zeros 234) hr) (\<lambda>(m2, hr).
     res_bind (ReadMsgES S now m2 hi) (\<lambda>(ok, hi).
     Ret (ok, m1, m2, hi, hr)))))"

lemma handshake_run_ok:
  assumes S: "secp_ok S" and d: "draw_ok di" "draw_ok dr" "draw_ok ds"
    and hi: "Sv2HandshakeState_initiator S d0 (Some ski) (keypair_xonly_pub S ska) = Ret hi"
    and hr: "Sv2HandshakeState_responder S ds (Some skr) cert = Ret hr"
    and cert: "cert = Sv2SignatureNoiseMessage S 0 vf vt (keypair_xonly_pub S skr) ska"
    and time: "uint vf \<le> now" "now \<le> uint vt"
  shows "\<exists>m1 m2 hi' hr'. handshake_run S now di dr hi hr = Ret (True, m1, m2, hi', hr') \<and>
    length m1 = 64 \<and> length m2 = 234 \<and> hs_symmetric_state hi' = hs_symmetric_state hr'"
proof -
  let ?ei = "ellswift_create S (rand_key di) (rand_hash di)"
  let ?er = "ellswift_create S (rand_key dr) (rand_hash dr)"
  let ?s = "ellswift_create S skr (rand_hash ds)"
  have len: "length ?ei = 64" "length ?er = 64" "length ?s = 64" "length (cert_sig cert) = 64"
    using S issued_sig_length [OF S] by (simp_all add: secp_ok_def cert)
  have hr': "hr = (hs_blank (Some skr) ?s)\<lparr>hs_certificate := Some cert\<rparr>"
    using hr d(3) by (simp add: Sv2HandshakeState_responder_def EllSwiftCreate_def draw_ok_def)
  obtain si where hi': "hi = (hs_blank (Some ski) si)\<lparr>hs_authority_pubkey := Some (keypair_xonly_pub S ska)\<rparr>"
    using hi by (auto simp: Sv2HandshakeState_initiator_def res_simps)
  let ?st = "MixHash [] (MixHash ?ei Sv2SymmetricState)"
  let ?hi1 = "hi\<lparr>hs_ephemeral_key := Some (rand_key di), hs_ephemeral_ellswift_pk := ?ei,
                 hs_symmetric_state := ?st\<rparr>"
  let ?hr1 = "hr\<lparr>hs_remote_ephemeral_ellswift_pk := ?ei, hs_symmetric_state := ?st\<rparr>"
  have 1: "WriteMsgEphemeralPK S di (zeros 64) hi = Ret (?ei, ?hi1)"
    using WriteMsgEphemeralPK_ok [of hi di S "zeros 64"] d(1) S by (simp add: hi' hs_blank_def)
  have 2: "ReadMsgEphemeralPK ?ei hr = Ret ?hr1"
    using ReadMsgEphemeralPK_ok [OF len(1), of hr] by (simp add: hr' hs_blank_def)
  let ?r = "step2 ?er ?s (Certificate_Serialize cert) (ellswift_xdh S ?ei ?er (rand_key dr) 1)
      (ellswift_xdh S ?ei ?s skr 1) ?st"
  have 3: "WriteMsgES S dr (zeros 234) ?hr1 =
      Ret (fst ?r, ?hr1\<lparr>hs_ephemeral_key := Some (rand_key dr), hs_ephemeral_ellswift_pk := ?er,
                     hs_symmetric_state := snd ?r\<rparr>)"
    using WriteMsgES_ok [of ?hr1 skr cert dr S "zeros 234"] len d(2) S
    by (simp add: hr' hs_blank_def)
  have dh: "ellswift_xdh S ?ei ?er (rand_key di) 0 = ellswift_xdh S ?ei ?er (rand_key dr) 1"
    "ellswift_xdh S ?ei ?s (rand_key di) 0 = ellswift_xdh S ?ei ?s skr 1"
    using S unfolding secp_ok_def by blast+
  have "ellswift_decode_xonly S ?s = cert_static_key cert"
    using S by (simp add: secp_ok_def cert)
  then have valid: "Certificate_Validate S now (keypair_xonly_pub S ska)
      (cert\<lparr>cert_static_key := ellswift_decode_xonly S ?s\<rparr>)"
    using issued_Validate [OF S, of now ska 0 vf vt "keypair_xonly_pub S skr"] time by (simp add: cert)
  have 4: "ReadMsgES S now (fst ?r) ?hi1 =
      Ret (True, ?hi1\<lparr>hs_remote_ephemeral_ellswift_pk := ?er, hs_remote_static_ellswift_pk := ?s,
                     hs_symmetric_state := snd ?r\<rparr>)"
    using ReadMsgES_ok [of ?hi1 "rand_key di" "keypair_xonly_pub S ska" ?er ?s cert S now] len valid dh
    by (simp add: hi' hs_blank_def)
  have "length (fst ?r) = 234"
    using len length_Certificate_Serialize [OF len(4)]
    by (simp add: step2_def split_beta Let_def noise_sizes)
  then show ?thesis
    using 1 2 3 4 len(1) by (simp add: handshake_run_def)
qed

lemma FinishHandshake_eq:
  "FinishHandshake (Sv2Cipher b hs) =
     Ret \<lparr>c_initiator = b, c_handshake_state = None, c_hash = m_hash_output (hs_symmetric_state hs),
          c_cs1 = fst (Split (hs_symmetric_state hs)), c_cs2 = snd (Split (hs_symmetric_state hs))\<rparr>"
  by (simp add: FinishHandshake_def Sv2Cipher_def split_beta)

text \<open>
  C1. The handshake agrees: when an initiator that trusts the authority and a responder with a
  certificate that the authority issued for its static key, valid at this time, exchange the two
  handshake messages, the initiator accepts, neither side aborts, and after \<^verbatim>\<open>FinishHandshake\<close>
  the two connections hold the same handshake hash and the same two cipher states, so that what
  one side sends with is what the other receives with.
\<close>

theorem handshake_agreement:
  assumes "secp_ok S" "draw_ok d0" "draw_ok di" "draw_ok dr" "draw_ok ds"
    and "Sv2HandshakeState_initiator S d0 (Some ski) (keypair_xonly_pub S ska) = Ret hi"
    and "Sv2HandshakeState_responder S ds (Some skr)
           (Sv2SignatureNoiseMessage S 0 vf vt (keypair_xonly_pub S skr) ska) = Ret hr"
    and "uint vf \<le> now" "now \<le> uint vt"
  shows "\<exists>m1 m2 hi' hr' ci cr. handshake_run S now di dr hi hr = Ret (True, m1, m2, hi', hr') \<and>
    length m1 = ELLSWIFT_PUB_KEY_SIZE \<and> length m2 = HANDSHAKE_STEP2_SIZE \<and>
    FinishHandshake (Sv2Cipher True hi') = Ret ci \<and> FinishHandshake (Sv2Cipher False hr') = Ret cr \<and>
    c_hash ci = c_hash cr \<and> c_cs1 ci = c_cs1 cr \<and> c_cs2 ci = c_cs2 cr \<and>
    cs_nonce (c_cs1 ci) = 0 \<and> cs_nonce (c_cs2 ci) = 0"
proof -
  obtain m1 m2 hi' hr' where "handshake_run S now di dr hi hr = Ret (True, m1, m2, hi', hr')"
    "length m1 = 64" "length m2 = 234" "hs_symmetric_state hi' = hs_symmetric_state hr'"
    using handshake_run_ok [OF assms(1,3-7) refl assms(8,9)] by blast
  then show ?thesis
    by (simp add: FinishHandshake_eq noise_sizes Split_def split_beta Sv2CipherState_def)
qed


text \<open>A curve library that satisfies \<^verbatim>\<open>secp_ok\<close>, for concrete runs.\<close>

definition toy32 :: "bytes \<Rightarrow> bytes" where
  "toy32 b = (if length b = 32 then b else zeros 32)"

definition toy_secp :: secp256k1 where
  "toy_secp =
     \<lparr>ellswift_create = (\<lambda>sk e. toy32 sk @ toy32 e),
      ellswift_xdh = (\<lambda>a b sk party. xor_bytes (take 32 a) (take 32 b)),
      ellswift_decode_xonly = (\<lambda>p. take 32 p),
      schnorrsig_sign = (\<lambda>sk m. toy32 sk @ toy32 m),
      schnorrsig_verify = (\<lambda>pk m sig. sig = pk @ toy32 m),
      keypair_xonly_pub = toy32\<rparr>"

lemma toy_secp_ok: "secp_ok toy_secp"
  by (simp add: secp_ok_def toy_secp_def toy32_def)

abbreviation toy_draw :: draw where
  "toy_draw \<equiv> \<lparr>rand_key = zeros 32, rand_hash = zeros 32\<rparr>"

abbreviation toy_key :: "u8 \<Rightarrow> bytes" where "toy_key b \<equiv> replicate 32 b"

definition toy_initiator :: handshake_state where
  "toy_initiator = (hs_blank (Some (toy_key 1)) (ellswift_create toy_secp (toy_key 1) (zeros 32)))
     \<lparr>hs_authority_pubkey := Some (keypair_xonly_pub toy_secp (toy_key 3))\<rparr>"

definition toy_cert :: certificate where
  "toy_cert = Sv2SignatureNoiseMessage toy_secp 0 100 200 (keypair_xonly_pub toy_secp (toy_key 2)) (toy_key 3)"

definition toy_responder :: handshake_state where
  "toy_responder = (hs_blank (Some (toy_key 2)) (ellswift_create toy_secp (toy_key 2) (zeros 32)))
     \<lparr>hs_certificate := Some toy_cert\<rparr>"

lemma toy_states:
  "Sv2HandshakeState_initiator toy_secp toy_draw (Some (toy_key 1)) (keypair_xonly_pub toy_secp (toy_key 3)) =
     Ret toy_initiator"
  "Sv2HandshakeState_responder toy_secp toy_draw (Some (toy_key 2)) toy_cert = Ret toy_responder"
  by (simp_all add: Sv2HandshakeState_initiator_def Sv2HandshakeState_responder_def EllSwiftCreate_def
      toy_initiator_def toy_responder_def)

theorem handshake_agreement_witness:
  "\<exists>m1 m2 hi' hr' ci cr.
    handshake_run toy_secp 150 toy_draw toy_draw toy_initiator toy_responder = Ret (True, m1, m2, hi', hr') \<and>
    FinishHandshake (Sv2Cipher True hi') = Ret ci \<and> FinishHandshake (Sv2Cipher False hr') = Ret cr \<and>
    c_cs1 ci = c_cs1 cr \<and> c_cs2 ci = c_cs2 cr"
  using handshake_agreement [OF toy_secp_ok, of toy_draw toy_draw toy_draw toy_draw "toy_key 1" "toy_key 3"
      toy_initiator "toy_key 2" 100 200 toy_responder 150] toy_states
  by (simp add: draw_ok_def toy_cert_def) blast


end
