(* ===== verification/Sv2_Primitives.thy ===== *)
theory Sv2_Primitives
  imports Sv2_Streams
begin

text \<open>
  Transactions and block headers (\<^verbatim>\<open>src/src/primitives/transaction.h\<close>,
  \<^verbatim>\<open>src/src/primitives/block.h\<close>) with their serialization, including the extended format for
  witnesses. A \<^verbatim>\<open>uint256\<close> is its 32 bytes, a signed integer its two's complement word.
\<close>

section \<open>Data\<close>

record coutpoint =
  op_hash :: bytes
  op_n :: u32

record ctxin =
  prevout :: coutpoint
  scriptSig :: bytes
  nSequence :: u32
  scriptWitness :: "bytes list"

record ctxout =
  nValue :: u64
  scriptPubKey :: bytes

record transaction =
  vin :: "ctxin list"
  vout :: "ctxout list"
  tx_version :: u32
  nLockTime :: u32

record cblockheader =
  nVersion :: u32
  hashPrevBlock :: bytes
  hashMerkleRoot :: bytes
  nTime :: u32
  nBits :: u32
  nNonce :: u32

record cblock =
  blk_header :: cblockheader
  vtx :: "transaction list"

section \<open>Serialization\<close>

definition Serialize_COutPoint :: "coutpoint \<Rightarrow> bytes" where
  "Serialize_COutPoint p = op_hash p @ ser_writedata32 (op_n p)"

definition Unserialize_COutPoint :: "coutpoint reader" where
  "Unserialize_COutPoint =
     rd_bind (DataStream_read 32) (\<lambda>h. rd_bind ser_readdata32 (\<lambda>n.
     rd_return \<lparr>op_hash = h, op_n = n\<rparr>))"

definition Serialize_CTxIn :: "ctxin \<Rightarrow> bytes" where
  "Serialize_CTxIn i = Serialize_COutPoint (prevout i) @ Serialize_bytevec (scriptSig i) @ ser_writedata32 (nSequence i)"

definition Unserialize_CTxIn :: "ctxin reader" where
  "Unserialize_CTxIn =
     rd_bind Unserialize_COutPoint (\<lambda>p. rd_bind Unserialize_bytevec (\<lambda>s. rd_bind ser_readdata32 (\<lambda>n.
     rd_return \<lparr>prevout = p, scriptSig = s, nSequence = n, scriptWitness = []\<rparr>)))"

definition Serialize_CTxOut :: "ctxout \<Rightarrow> bytes" where
  "Serialize_CTxOut x = ser_writedata64 (nValue x) @ Serialize_bytevec (scriptPubKey x)"

definition Unserialize_CTxOut :: "ctxout reader" where
  "Unserialize_CTxOut =
     rd_bind ser_readdata64 (\<lambda>v. rd_bind Unserialize_bytevec (\<lambda>s.
     rd_return \<lparr>nValue = v, scriptPubKey = s\<rparr>))"

definition HasWitness :: "transaction \<Rightarrow> bool" where
  "HasWitness tx = list_ex (\<lambda>i. scriptWitness i \<noteq> []) (vin tx)"

definition SerializeTransaction :: "bool \<Rightarrow> transaction \<Rightarrow> bytes" where
  "SerializeTransaction fAllowWitness tx =
     (let flags = (if fAllowWitness \<and> HasWitness tx then 1 else 0 :: u8) in
      ser_writedata32 (tx_version tx) @
      (if flags \<noteq> 0 then VectorFormatter_Ser Serialize_CTxIn [] @ ser_writedata8 flags else []) @
      VectorFormatter_Ser Serialize_CTxIn (vin tx) @
      VectorFormatter_Ser Serialize_CTxOut (vout tx) @
      (if flags AND 1 \<noteq> 0
       then concat (map (\<lambda>i. VectorFormatter_Ser Serialize_bytevec (scriptWitness i)) (vin tx)) else []) @
      ser_writedata32 (nLockTime tx))"

definition set_witness :: "ctxin \<Rightarrow> bytes list \<Rightarrow> ctxin" where
  "set_witness i w = i\<lparr>scriptWitness := w\<rparr>"

text \<open>The inputs and outputs, and the flags byte when the dummy announces one.\<close>

definition UnserializeTransaction_flagged :: "u8 \<Rightarrow> (u8 \<times> ctxin list \<times> ctxout list) reader" where
  "UnserializeTransaction_flagged flags =
     (if flags \<noteq> 0 then
        rd_bind (VectorFormatter_Unser Unserialize_CTxIn) (\<lambda>vin.
        rd_bind (VectorFormatter_Unser Unserialize_CTxOut) (\<lambda>vout.
        rd_return (flags, vin, vout)))
      else rd_return (flags, [], []))"

definition UnserializeTransaction_body :: "bool \<Rightarrow> (u8 \<times> ctxin list \<times> ctxout list) reader" where
  "UnserializeTransaction_body fAllowWitness =
     rd_bind (VectorFormatter_Unser Unserialize_CTxIn) (\<lambda>vin.
     if vin = [] \<and> fAllowWitness then
       rd_bind ser_readdata8 UnserializeTransaction_flagged
     else
       rd_bind (VectorFormatter_Unser Unserialize_CTxOut) (\<lambda>vout.
       rd_return (0, vin, vout)))"

text \<open>The witness stacks, read when the flags announce them.\<close>

definition UnserializeTransaction_witness :: "bool \<Rightarrow> u8 \<Rightarrow> ctxin list \<Rightarrow> (u8 \<times> ctxin list) reader" where
  "UnserializeTransaction_witness fAllowWitness flags ins =
     (if flags AND 1 \<noteq> 0 \<and> fAllowWitness then
        rd_bind (Unser_elems (VectorFormatter_Unser Unserialize_bytevec) (length ins)) (\<lambda>ws.
        let ins = map2 set_witness ins ws in
        if \<not> list_ex (\<lambda>i. scriptWitness i \<noteq> []) ins
        then rd_throw (ios_failure ''Superfluous witness record'')
        else rd_return (flags XOR 1, ins))
      else rd_return (flags, ins))"

definition UnserializeTransaction :: "bool \<Rightarrow> transaction reader" where
  "UnserializeTransaction fAllowWitness =
     rd_bind ser_readdata32 (\<lambda>version.
     rd_bind (UnserializeTransaction_body fAllowWitness) (\<lambda>(flags, vin, vout).
     rd_bind (UnserializeTransaction_witness fAllowWitness flags vin) (\<lambda>(flags, vin).
     if flags \<noteq> 0 then rd_throw (ios_failure ''Unknown transaction optional data'')
     else
       rd_bind ser_readdata32 (\<lambda>lock.
       rd_return \<lparr>vin = vin, vout = vout, tx_version = version, nLockTime = lock\<rparr>))))"

definition Serialize_CBlockHeader :: "cblockheader \<Rightarrow> bytes" where
  "Serialize_CBlockHeader h =
     ser_writedata32 (nVersion h) @ hashPrevBlock h @ hashMerkleRoot h @ ser_writedata32 (nTime h) @
     ser_writedata32 (nBits h) @ ser_writedata32 (nNonce h)"

definition Unserialize_CBlockHeader :: "cblockheader reader" where
  "Unserialize_CBlockHeader =
     rd_bind ser_readdata32 (\<lambda>v. rd_bind (DataStream_read 32) (\<lambda>p. rd_bind (DataStream_read 32) (\<lambda>m.
     rd_bind ser_readdata32 (\<lambda>t. rd_bind ser_readdata32 (\<lambda>b. rd_bind ser_readdata32 (\<lambda>n.
     rd_return \<lparr>nVersion = v, hashPrevBlock = p, hashMerkleRoot = m, nTime = t, nBits = b, nNonce = n\<rparr>))))))"

definition Serialize_CBlock :: "cblock \<Rightarrow> bytes" where
  "Serialize_CBlock b =
     Serialize_CBlockHeader (blk_header b) @ VectorFormatter_Ser (SerializeTransaction True) (vtx b)"

definition Unserialize_CBlock :: "cblock reader" where
  "Unserialize_CBlock =
     rd_bind Unserialize_CBlockHeader (\<lambda>h.
     rd_bind (VectorFormatter_Unser (UnserializeTransaction True)) (\<lambda>v.
     rd_return \<lparr>blk_header = h, vtx = v\<rparr>))"

section \<open>Sizes the format can carry\<close>

definition wf_coutpoint :: "coutpoint \<Rightarrow> bool" where "wf_coutpoint p \<longleftrightarrow> length (op_hash p) = 32"

definition wf_ctxin :: "ctxin \<Rightarrow> bool" where
  "wf_ctxin i \<longleftrightarrow> wf_coutpoint (prevout i) \<and> length (scriptSig i) \<le> unat MAX_SIZE \<and> scriptWitness i = []"

definition wf_ctxout :: "ctxout \<Rightarrow> bool" where "wf_ctxout x \<longleftrightarrow> length (scriptPubKey x) \<le> unat MAX_SIZE"

definition wf_witness :: "bytes list \<Rightarrow> bool" where
  "wf_witness w \<longleftrightarrow> length w \<le> unat MAX_SIZE \<and> (\<forall>x \<in> set w. length x \<le> unat MAX_SIZE)"

text \<open>
  A transaction the extended format can carry: sizes in range, and not outputs without inputs,
  which the format cannot tell from the witness marker.
\<close>

definition wf_transaction :: "transaction \<Rightarrow> bool" where
  "wf_transaction tx \<longleftrightarrow>
     length (vin tx) \<le> unat MAX_SIZE \<and> length (vout tx) \<le> unat MAX_SIZE \<and>
     (\<forall>i \<in> set (vin tx). wf_ctxin (set_witness i []) \<and> wf_witness (scriptWitness i)) \<and>
     (\<forall>x \<in> set (vout tx). wf_ctxout x) \<and> (vin tx = [] \<longrightarrow> vout tx = [])"

section \<open>Codecs\<close>

lemma array_field_codec: "codec (\<lambda>b. b) (DataStream_read n) (\<lambda>b. length b = n)"
  using array_codec by (simp add: id_def)

interpretation outpoint_codec: codec Serialize_COutPoint Unserialize_COutPoint wf_coutpoint
  unfolding Serialize_COutPoint_def [abs_def] Unserialize_COutPoint_def
  by (intro codec_field [OF array_field_codec] codec_last [OF u32_codec.codec_axioms])
    (auto simp: wf_coutpoint_def)

interpretation txin_codec: codec Serialize_CTxIn Unserialize_CTxIn wf_ctxin
  unfolding Serialize_CTxIn_def [abs_def] Unserialize_CTxIn_def
  by (intro codec_field [OF outpoint_codec.codec_axioms] codec_field [OF bytevec_codec.codec_axioms]
      codec_last [OF u32_codec.codec_axioms])
    (auto simp: wf_ctxin_def)

interpretation txout_codec: codec Serialize_CTxOut Unserialize_CTxOut wf_ctxout
  unfolding Serialize_CTxOut_def [abs_def] Unserialize_CTxOut_def
  by (intro codec_field [OF u64_codec.codec_axioms] codec_last [OF bytevec_codec.codec_axioms])
    (auto simp: wf_ctxout_def)

interpretation header_codec: codec Serialize_CBlockHeader Unserialize_CBlockHeader
  "\<lambda>h. length (hashPrevBlock h) = 32 \<and> length (hashMerkleRoot h) = 32"
  unfolding Serialize_CBlockHeader_def [abs_def] Unserialize_CBlockHeader_def
  by (intro codec_field [OF u32_codec.codec_axioms] codec_field [OF array_field_codec]
      codec_last [OF u32_codec.codec_axioms])
    auto

section \<open>Transactions\<close>

text \<open>
  What \<^verbatim>\<open>UnserializeTransaction\<close> reads first: the flags byte behind an empty input vector, or no
  flags at all. Inputs are still without their witnesses.
\<close>

definition Serialize_tx_body :: "u8 \<times> ctxin list \<times> ctxout list \<Rightarrow> bytes" where
  "Serialize_tx_body = (\<lambda>(flags, vin, vout).
     (if flags \<noteq> 0 then VectorFormatter_Ser Serialize_CTxIn [] @ ser_writedata8 flags else []) @
     VectorFormatter_Ser Serialize_CTxIn vin @ VectorFormatter_Ser Serialize_CTxOut vout)"

definition wf_tx_body :: "u8 \<times> ctxin list \<times> ctxout list \<Rightarrow> bool" where
  "wf_tx_body = (\<lambda>(flags, vin, vout).
     length vin \<le> unat MAX_SIZE \<and> (\<forall>i \<in> set vin. wf_ctxin i) \<and>
     length vout \<le> unat MAX_SIZE \<and> (\<forall>x \<in> set vout. wf_ctxout x) \<and>
     (flags = 0 \<longrightarrow> vin = [] \<longrightarrow> vout = []))"

lemma VectorFormatter_Ser_Nil: "VectorFormatter_Ser f [] = ser_writedata8 0"
  by (simp add: VectorFormatter_Ser_def WriteCompactSize_def)

lemma vec_Nil_reads:
  "reads (VectorFormatter_Unser Unserialize_CTxIn) (ser_writedata8 0) []"
  using codec.reads_un [OF txin_codec.vec_codec, of "[]"] by (simp add: VectorFormatter_Ser_Nil)

lemmas vin_codec = txin_codec.vec_codec
lemmas vout_codec = txout_codec.vec_codec

lemma reads_two:
  assumes "reads m b x" "reads n c y"
  shows "reads (rd_bind m (\<lambda>x. rd_bind n (\<lambda>y. rd_return (f x y)))) (b @ c) (f x y)"
  by (rule reads_bind [OF assms(1) reads_bind [OF assms(2) reads_return, of "c"] refl]) simp

lemma reads_last: "reads m b x \<Longrightarrow> f x = y \<Longrightarrow> reads (rd_bind m (\<lambda>x. rd_return (f x))) b y"
  using reads_bind [of m b x "\<lambda>x. rd_return (f x)" "[]" y b] reads_return [of y] by simp

lemma reads_tx_body:
  assumes "wf_tx_body (flags, ins, outs)"
  shows "reads (UnserializeTransaction_body True) (Serialize_tx_body (flags, ins, outs)) (flags, ins, outs)"
proof -
  have i: "reads (VectorFormatter_Unser Unserialize_CTxIn) (VectorFormatter_Ser Serialize_CTxIn ins) ins"
    and x: "reads (VectorFormatter_Unser Unserialize_CTxOut) (VectorFormatter_Ser Serialize_CTxOut outs) outs"
    using assms codec.reads_un [OF vin_codec, of ins] codec.reads_un [OF vout_codec, of outs]
    by (auto simp: wf_tx_body_def)
  consider "flags \<noteq> 0" | "flags = 0" "ins = []" "outs = []" | "flags = 0" "ins \<noteq> []"
    using assms by (auto simp: wf_tx_body_def)
  then show ?thesis
  proof cases
    case 1
    then have "reads (UnserializeTransaction_flagged flags)
       (VectorFormatter_Ser Serialize_CTxIn ins @ VectorFormatter_Ser Serialize_CTxOut outs) (flags, ins, outs)"
      by (simp add: UnserializeTransaction_flagged_def reads_two [OF i x, of "\<lambda>a b. (flags, a, b)"])
    then have "reads (rd_bind ser_readdata8 UnserializeTransaction_flagged) (ser_writedata8 flags @
       VectorFormatter_Ser Serialize_CTxIn ins @ VectorFormatter_Ser Serialize_CTxOut outs) (flags, ins, outs)"
      by (rule reads_bind [OF reads_data(1) _ refl])
    then show ?thesis using 1 unfolding UnserializeTransaction_body_def Serialize_tx_body_def
      by (auto simp: VectorFormatter_Ser_Nil intro!: reads_bind [OF vec_Nil_reads])
  next
    case 2
    have "reads (rd_bind ser_readdata8 UnserializeTransaction_flagged) (ser_writedata8 0) (0, [], [])"
      by (rule reads_bind [OF reads_data(1), where c = "[]"])
        (simp_all add: UnserializeTransaction_flagged_def reads_return)
    then show ?thesis using 2 unfolding UnserializeTransaction_body_def Serialize_tx_body_def
      by (auto simp: VectorFormatter_Ser_Nil intro!: reads_bind [OF vec_Nil_reads])
  next
    case 3
    have "reads (rd_bind (VectorFormatter_Unser Unserialize_CTxOut) (\<lambda>outs. rd_return (0, ins, outs)))
        (VectorFormatter_Ser Serialize_CTxOut outs) (0, ins, outs)"
      by (rule reads_bind [OF x reads_return]) simp
    then show ?thesis using 3 unfolding UnserializeTransaction_body_def Serialize_tx_body_def
      by (auto intro!: reads_bind [OF i])
  qed
qed

lemma tx_body_Ret:
  assumes st: "ds_wf st" and r: "UnserializeTransaction_body True st = Ret (x, st')"
  shows "ds_wf st' \<and> ds_rest st = Serialize_tx_body x @ ds_rest st' \<and> wf_tx_body x"
proof -
  obtain v st1 where v: "VectorFormatter_Unser Unserialize_CTxIn st = Ret (v, st1)"
    and k: "(if v = [] then rd_bind ser_readdata8 UnserializeTransaction_flagged
     else rd_bind (VectorFormatter_Unser Unserialize_CTxOut) (\<lambda>vout. rd_return (0, v, vout))) st1 = Ret (x, st')"
    using r by (auto simp: UnserializeTransaction_body_def rd_bind_Ret)
  note 1 = codec_Ret [OF vin_codec st v]
  note out = codec_Ret [OF vout_codec] and inp = codec_Ret [OF vin_codec]
  show ?thesis
  proof (cases "v = []")
    case False
    with k obtain w where w: "VectorFormatter_Unser Unserialize_CTxOut st1 = Ret (w, st')" "x = (0, v, w)"
      by (auto simp: rd_bind_Ret)
    then show ?thesis using 1 out [of st1 w st'] False by (auto simp: Serialize_tx_body_def wf_tx_body_def)
  next
    case True
    with k obtain f st2 where f: "ser_readdata8 st1 = Ret (f, st2)"
      and g: "UnserializeTransaction_flagged f st2 = Ret (x, st')"
      by (auto simp: rd_bind_Ret)
    have 2: "ds_wf st2" "ds_rest st1 = ser_writedata8 f @ ds_rest st2"
      using codec_Ret [OF u8_codec.codec_axioms _ f] 1 by auto
    show ?thesis
    proof (cases "f = 0")
      case f0: True
      then show ?thesis using g 1 2 True
        by (auto simp: UnserializeTransaction_flagged_def Serialize_tx_body_def wf_tx_body_def VectorFormatter_Ser_Nil)
    next
      case f1: False
      with g obtain i w st3 where i: "VectorFormatter_Unser Unserialize_CTxIn st2 = Ret (i, st3)"
        and w: "VectorFormatter_Unser Unserialize_CTxOut st3 = Ret (w, st')" and x: "x = (f, i, w)"
        by (auto simp: UnserializeTransaction_flagged_def rd_bind_Ret)
      show ?thesis using 1 2 inp [OF 2(1) i] out [OF _ w] f1 True x
        by (auto simp: Serialize_tx_body_def wf_tx_body_def)
    qed
  qed
qed

lemma witness_codec: "codec (VectorFormatter_Ser Serialize_bytevec) (VectorFormatter_Unser Unserialize_bytevec) wf_witness"
  unfolding wf_witness_def [abs_def] by (rule bytevec_codec.vec_codec)

definition tx_flags :: "transaction \<Rightarrow> u8" where
  "tx_flags tx = (if HasWitness tx then 1 else 0)"

definition Serialize_tx_witness :: "transaction \<Rightarrow> bytes" where
  "Serialize_tx_witness tx =
     (if HasWitness tx then concat (map (\<lambda>i. VectorFormatter_Ser Serialize_bytevec (scriptWitness i)) (vin tx)) else [])"

abbreviation strip :: "ctxin \<Rightarrow> ctxin" where "strip i \<equiv> set_witness i []"

lemma set_witness_simps [simp]:
  "set_witness (set_witness i v) w = set_witness i w" "set_witness i (scriptWitness i) = i"
  "scriptWitness (set_witness i w) = w" "prevout (set_witness i w) = prevout i"
  "scriptSig (set_witness i w) = scriptSig i" "nSequence (set_witness i w) = nSequence i"
  by (simp_all add: set_witness_def)

lemma Serialize_CTxIn_set_witness [simp]: "Serialize_CTxIn (set_witness i w) = Serialize_CTxIn i"
  by (simp add: Serialize_CTxIn_def)

lemma VectorFormatter_Ser_strip:
  "length ins = length ws \<Longrightarrow>
     VectorFormatter_Ser Serialize_CTxIn (map2 set_witness ins ws) = VectorFormatter_Ser Serialize_CTxIn ins"
  "VectorFormatter_Ser Serialize_CTxIn (map strip ins) = VectorFormatter_Ser Serialize_CTxIn ins"
proof -
  assume l: "length ins = length ws"
  have "map (Serialize_CTxIn \<circ> (\<lambda>(i, w). set_witness i w)) (zip ins ws) = map (Serialize_CTxIn \<circ> fst) (zip ins ws)"
    by auto
  also have "\<dots> = map Serialize_CTxIn (map fst (zip ins ws))" by simp
  finally show "VectorFormatter_Ser Serialize_CTxIn (map2 set_witness ins ws) = VectorFormatter_Ser Serialize_CTxIn ins"
    using l by (simp add: VectorFormatter_Ser_def)
next
  show "VectorFormatter_Ser Serialize_CTxIn (map strip ins) = VectorFormatter_Ser Serialize_CTxIn ins"
    by (simp add: VectorFormatter_Ser_def comp_def)
qed

lemma SerializeTransaction_eq:
  "SerializeTransaction True tx =
     ser_writedata32 (tx_version tx) @ Serialize_tx_body (tx_flags tx, map strip (vin tx), vout tx) @
     Serialize_tx_witness tx @ ser_writedata32 (nLockTime tx)"
  by (simp add: SerializeTransaction_def Serialize_tx_body_def Serialize_tx_witness_def tx_flags_def
      VectorFormatter_Ser_strip)

lemma map2_strip_witness: "map2 set_witness (map strip ins) (map scriptWitness ins) = ins"
  by (induction ins) auto

lemma map2_set_witness:
  "length ins = length ws \<Longrightarrow> map scriptWitness (map2 set_witness ins ws) = ws"
  "length ins = length ws \<Longrightarrow> map strip (map2 set_witness ins ws) = map strip ins"
  by (induction ins ws rule: list_induct2) auto

lemma reads_tx_witness:
  assumes "wf_transaction tx"
  shows "reads (UnserializeTransaction_witness True (tx_flags tx) (map strip (vin tx)))
    (Serialize_tx_witness tx) (0, if HasWitness tx then vin tx else map strip (vin tx))"
proof (cases "HasWitness tx")
  case True
  let ?ws = "map scriptWitness (vin tx)"
  have "reads (Unser_elems (VectorFormatter_Unser Unserialize_bytevec) (length ?ws))
     (concat (map (VectorFormatter_Ser Serialize_bytevec) ?ws)) ?ws"
    using assms by (intro codec.reads_elems [OF witness_codec]) (auto simp: wf_transaction_def)
  then have e: "reads (Unser_elems (VectorFormatter_Unser Unserialize_bytevec) (length (vin tx)))
     (Serialize_tx_witness tx) ?ws"
    using True by (simp add: Serialize_tx_witness_def comp_def)
  show ?thesis unfolding UnserializeTransaction_witness_def using True
    by (auto simp: tx_flags_def map2_strip_witness HasWitness_def Let_def
        intro!: reads_bind [OF e, where c = "[]"] reads_return)
next
  case False
  then show ?thesis
    by (simp add: UnserializeTransaction_witness_def tx_flags_def Serialize_tx_witness_def reads_return)
qed

lemma strip_no_witness: "\<not> HasWitness tx \<Longrightarrow> map strip (vin tx) = vin tx"
  by (rule map_idI) (auto simp: HasWitness_def list_ex_iff set_witness_def)

lemma reads_UnserializeTransaction:
  assumes wf: "wf_transaction tx"
  shows "reads (UnserializeTransaction True) (SerializeTransaction True tx) tx"
proof -
  have b: "wf_tx_body (tx_flags tx, map strip (vin tx), vout tx)"
    using wf by (auto simp: wf_tx_body_def wf_transaction_def)
  have w: "reads (UnserializeTransaction_witness True (tx_flags tx) (map strip (vin tx)))
    (Serialize_tx_witness tx) (0, vin tx)"
    using reads_tx_witness [OF wf] strip_no_witness [of tx] by (cases "HasWitness tx") simp_all
  have l: "reads (rd_bind ser_readdata32 (\<lambda>lock.
       rd_return \<lparr>vin = vin tx, vout = vout tx, tx_version = tx_version tx, nLockTime = lock\<rparr>))
       (ser_writedata32 (nLockTime tx)) tx"
    by (rule reads_last [OF reads_data(3)]) simp
  show ?thesis unfolding UnserializeTransaction_def SerializeTransaction_eq
    by (rule reads_bind [OF reads_data(3) _ refl], rule reads_bind [OF reads_tx_body [OF b] _ refl],
        unfold prod.case, rule reads_bind [OF w _ refl]) (simp add: l)
qed

lemma xor_one_0: "f XOR 1 = 0 \<Longrightarrow> f = (1 :: u8)"
  by (metis xor.assoc xor.right_neutral xor_self_eq xor.left_neutral)

lemma tx_witness_Ret:
  fixes v l
  assumes st: "ds_wf st" and r: "UnserializeTransaction_witness True f ins st = Ret ((0, ins'), st')"
    and b: "wf_tx_body (f, ins, outs)"
  defines "tx \<equiv> \<lparr>vin = ins', vout = outs, tx_version = v, nLockTime = l\<rparr>"
  shows "ds_wf st' \<and> ds_rest st = Serialize_tx_witness tx @ ds_rest st' \<and> f = tx_flags tx \<and>
    map strip ins' = ins \<and> wf_transaction tx"
proof (cases "f AND 1 = 0")
  case True
  then have r': "f = 0" "ins' = ins" "st' = st" using r by (auto simp: UnserializeTransaction_witness_def)
  have n: "\<not> HasWitness tx" using b r' by (auto simp: tx_def HasWitness_def list_ex_iff wf_tx_body_def wf_ctxin_def)
  have s: "map strip ins = ins" using strip_no_witness [OF n] r' by (simp add: tx_def)
  have "wf_ctxin (strip i) \<and> wf_witness (scriptWitness i)" if "i \<in> set ins" for i
  proof -
    have "wf_ctxin i" using b that by (auto simp: wf_tx_body_def)
    moreover from this have "strip i = i" by (simp add: wf_ctxin_def set_witness_def)
    ultimately show ?thesis by (simp add: wf_ctxin_def wf_witness_def)
  qed
  then have "wf_transaction tx" using b r' by (auto simp: tx_def wf_tx_body_def wf_transaction_def)
  then show ?thesis using n s r' st by (simp add: Serialize_tx_witness_def tx_flags_def)
next
  case False
  then obtain ws where ws: "Unser_elems (VectorFormatter_Unser Unserialize_bytevec) (length ins) st = Ret (ws, st')"
    and w: "ins' = map2 set_witness ins ws" "list_ex (\<lambda>i. scriptWitness i \<noteq> []) ins'" "f XOR 1 = 0"
    using r by (auto simp: UnserializeTransaction_witness_def rd_bind_Ret Let_def split: if_splits)
  note f = xor_one_0 [OF w(3)]
  note e = codec.canon_elems [OF witness_codec st ws]
  then have l: "length ins = length ws" by simp
  have h: "HasWitness tx" using w(2) by (simp add: tx_def HasWitness_def)
  have i0: "strip i = i" "wf_ctxin i" if "i \<in> set ins" for i
    using b that by (auto simp: wf_tx_body_def wf_ctxin_def set_witness_def)
  have s: "map strip ins' = ins" unfolding w(1) map2_set_witness(2) [OF l] using i0 by (simp add: map_idI)
  have sw: "map scriptWitness ins' = ws" unfolding w(1) by (rule map2_set_witness(1) [OF l])
  have "wf_ctxin (strip i) \<and> wf_witness (scriptWitness i)" if "i \<in> set ins'" for i
  proof -
    have "strip i \<in> set ins" using that s by (metis image_eqI list.set_map)
    moreover have "scriptWitness i \<in> set ws" using that sw by (metis image_eqI list.set_map)
    ultimately show ?thesis using i0 e by auto
  qed
  moreover have "length ins' = length ins" using s by (metis length_map)
  moreover have "ins' \<noteq> []" using w(2) by auto
  ultimately have "wf_transaction tx" using b by (auto simp: tx_def wf_tx_body_def wf_transaction_def)
  moreover have "Serialize_tx_witness tx = concat (map (VectorFormatter_Ser Serialize_bytevec) ws)"
    using h by (simp add: Serialize_tx_witness_def tx_def sw [symmetric] comp_def)
  ultimately show ?thesis using e h f s by (simp add: tx_flags_def)
qed

lemma UnserializeTransaction_Ret:
  assumes st: "ds_wf st" and r: "UnserializeTransaction True st = Ret (tx, st')"
  shows "ds_wf st' \<and> ds_rest st = SerializeTransaction True tx @ ds_rest st' \<and> wf_transaction tx"
proof -
  obtain v st1 f ins outs st2 ins' st3 l
    where v: "ser_readdata32 st = Ret (v, st1)"
      and b: "UnserializeTransaction_body True st1 = Ret ((f, ins, outs), st2)"
      and w: "UnserializeTransaction_witness True f ins st2 = Ret ((0, ins'), st3)"
      and l: "ser_readdata32 st3 = Ret (l, st')"
      and tx: "tx = \<lparr>vin = ins', vout = outs, tx_version = v, nLockTime = l\<rparr>"
    using r by (auto simp: UnserializeTransaction_def rd_bind_Ret split: if_splits prod.splits)
  have 1: "ds_wf st1" "ds_rest st = ser_writedata32 v @ ds_rest st1"
    using codec_Ret [OF u32_codec.codec_axioms st v] by auto
  have 2: "ds_wf st2" "ds_rest st1 = Serialize_tx_body (f, ins, outs) @ ds_rest st2" "wf_tx_body (f, ins, outs)"
    using tx_body_Ret [OF 1(1) b] by auto
  note 3 = tx_witness_Ret [OF 2(1) w 2(3), where v = v and l = l, folded tx]
  then have 4: "ds_wf st'" "ds_rest st3 = ser_writedata32 l @ ds_rest st'"
    using codec_Ret [OF u32_codec.codec_axioms _ l] by auto
  show ?thesis using 1 2 3 4 by (simp add: SerializeTransaction_eq tx)
qed

interpretation tx_codec: codec "SerializeTransaction True" "UnserializeTransaction True" wf_transaction
  using reads_UnserializeTransaction UnserializeTransaction_Ret by (rule codecI)

definition wf_block :: "cblock \<Rightarrow> bool" where
  "wf_block b \<longleftrightarrow> length (hashPrevBlock (blk_header b)) = 32 \<and> length (hashMerkleRoot (blk_header b)) = 32 \<and>
     length (vtx b) \<le> unat MAX_SIZE \<and> (\<forall>tx \<in> set (vtx b). wf_transaction tx)"

interpretation block_codec: codec Serialize_CBlock Unserialize_CBlock wf_block
  unfolding Serialize_CBlock_def [abs_def] Unserialize_CBlock_def
  by (intro codec_field [OF header_codec.codec_axioms] codec_last [OF tx_codec.vec_codec])
    (auto simp: wf_block_def)

section \<open>Properties\<close>

text \<open>
  C19. A transaction read from the wire is the one that was written: with or without witnesses, in
  the plain or in the extended format, \<^verbatim>\<open>UnserializeTransaction\<close> returns the transaction that
  \<^verbatim>\<open>SerializeTransaction\<close> wrote and leaves the bytes behind it.
\<close>

theorem transaction_roundtrip:
  assumes "wf_transaction tx" "length (SerializeTransaction True tx @ rest) < 2 ^ 64"
  shows "\<exists>s'. UnserializeTransaction True (DataStream (SerializeTransaction True tx @ rest)) = Ret (tx, s') \<and>
    ds_rest s' = rest"
  by (rule readsD [OF tx_codec.reads_un [OF assms(1)], of "DataStream (SerializeTransaction True tx @ rest)" rest])
    (use assms(2) in auto)

definition sample_tx :: transaction where
  "sample_tx = \<lparr>vin = [\<lparr>prevout = \<lparr>op_hash = zeros 32, op_n = - 1\<rparr>, scriptSig = [1, 42], nSequence = - 1,
                       scriptWitness = [zeros 32]\<rparr>],
     vout = [\<lparr>nValue = 5000, scriptPubKey = [0x51]\<rparr>], tx_version = 2, nLockTime = 7\<rparr>"

lemma wf_sample_tx: "wf_transaction sample_tx"
  by (simp add: sample_tx_def wf_transaction_def wf_ctxin_def wf_coutpoint_def wf_ctxout_def wf_witness_def
      set_witness_def MAX_SIZE_def)

lemma length_sample_tx: "length (SerializeTransaction True sample_tx) = 99"
  by code_simp

lemma transaction_roundtrip_witness:
  "\<exists>s'. UnserializeTransaction True (DataStream (SerializeTransaction True sample_tx @ [1, 2])) = Ret (sample_tx, s') \<and>
    ds_rest s' = [1, 2]"
  by (rule transaction_roundtrip [OF wf_sample_tx]) (simp add: length_sample_tx)

text \<open>
  C18. A transaction has one encoding only: what \<^verbatim>\<open>UnserializeTransaction\<close> accepts is exactly the
  encoding of the transaction it returns, so neither a superfluous witness record nor an unknown
  flag nor an overlong size gets through, and serializing again reproduces the bytes read.
\<close>

theorem transaction_canonical:
  assumes "ds_wf st" "UnserializeTransaction True st = Ret (tx, st')"
  shows "ds_rest st = SerializeTransaction True tx @ ds_rest st' \<and> wf_transaction tx"
  using UnserializeTransaction_Ret [OF assms] by blast

lemma transaction_canonical_witness:
  "\<exists>st'. UnserializeTransaction True (DataStream (SerializeTransaction True sample_tx)) = Ret (sample_tx, st') \<and>
     ds_rest (DataStream (SerializeTransaction True sample_tx)) =
       SerializeTransaction True sample_tx @ ds_rest st' \<and> wf_transaction sample_tx"
proof -
  have w: "ds_wf (DataStream (SerializeTransaction True sample_tx))" by (simp add: length_sample_tx)
  obtain st' where "UnserializeTransaction True (DataStream (SerializeTransaction True sample_tx)) = Ret (sample_tx, st')"
    using tx_codec.unserialize_serialize [OF wf_sample_tx] by (auto simp: length_sample_tx)
  then show ?thesis using transaction_canonical [OF w] by blast
qed


definition sample_block :: cblock where
  "sample_block = \<lparr>blk_header = \<lparr>nVersion = 0x20000000, hashPrevBlock = zeros 32, hashMerkleRoot = zeros 32,
     nTime = 1700000000, nBits = 0x207fffff, nNonce = 1\<rparr>, vtx = [sample_tx]\<rparr>"


end
