(* ===== verification/Arith_Uint256.thy ===== *)
theory Arith_Uint256
  imports Sv2_Prelude
begin

unbundle bit_operations_syntax

text \<open>
  The 256-bit integers of \<^verbatim>\<open>src/src/arith_uint256.cpp\<close>: eight 32-bit digits, least significant
  first, and the compact form of a difficulty target. The digits are a list; every loop over the
  digits is a recursion over the list or a fold over the indices. The value of a digit list is a
  natural number, and the operations are shown to compute on values.
\<close>

section \<open>Digits\<close>

type_synonym base_uint = "u32 list"

abbreviation (input) WIDTH :: nat where "WIDTH \<equiv> 8"

definition base_uint_of :: "u64 \<Rightarrow> base_uint" where
  "base_uint_of b = ucast b # ucast (drop_bit 32 b) # replicate 6 0"

definition shl_step :: "base_uint \<Rightarrow> nat \<Rightarrow> nat \<Rightarrow> nat \<Rightarrow> base_uint \<Rightarrow> base_uint" where
  "shl_step a k shift i pn =
     (let pn = (if i + k + 1 < WIDTH \<and> shift \<noteq> 0
                then pn[i + k + 1 := pn ! (i + k + 1) OR drop_bit (32 - shift) (a ! i)] else pn)
      in if i + k < WIDTH then pn[i + k := pn ! (i + k) OR push_bit shift (a ! i)] else pn)"

definition base_uint_shl :: "base_uint \<Rightarrow> nat \<Rightarrow> base_uint" where
  "base_uint_shl a shift = fold (shl_step a (shift div 32) (shift mod 32)) [0..<WIDTH] (replicate WIDTH 0)"

definition shr_step :: "base_uint \<Rightarrow> nat \<Rightarrow> nat \<Rightarrow> nat \<Rightarrow> base_uint \<Rightarrow> base_uint" where
  "shr_step a k shift i pn =
     (let pn = (if k + 1 \<le> i \<and> shift \<noteq> 0
                then pn[i - k - 1 := pn ! (i - k - 1) OR push_bit (32 - shift) (a ! i)] else pn)
      in if k \<le> i then pn[i - k := pn ! (i - k) OR drop_bit shift (a ! i)] else pn)"

definition base_uint_shr :: "base_uint \<Rightarrow> nat \<Rightarrow> base_uint" where
  "base_uint_shr a shift = fold (shr_step a (shift div 32) (shift mod 32)) [0..<WIDTH] (replicate WIDTH 0)"

fun add_digits :: "u64 \<Rightarrow> base_uint \<Rightarrow> base_uint \<Rightarrow> base_uint" where
  "add_digits carry (x # xs) (y # ys) =
     (let n = carry + ucast x + ucast y in ucast n # add_digits (drop_bit 32 n) xs ys)"
| "add_digits carry xs ys = []"

definition base_uint_add :: "base_uint \<Rightarrow> base_uint \<Rightarrow> base_uint" where
  "base_uint_add = add_digits 0"

fun base_uint_inc :: "base_uint \<Rightarrow> base_uint" where
  "base_uint_inc [] = []"
| "base_uint_inc (x # xs) = (if x + 1 = 0 then (x + 1) # base_uint_inc xs else (x + 1) # xs)"

fun base_uint_dec :: "base_uint \<Rightarrow> base_uint" where
  "base_uint_dec [] = []"
| "base_uint_dec (x # xs) = (if x - 1 = 0xffffffff then (x - 1) # base_uint_dec xs else (x - 1) # xs)"

definition base_uint_neg :: "base_uint \<Rightarrow> base_uint" where
  "base_uint_neg b = base_uint_inc (map (\<lambda>x. NOT x) b)"

definition base_uint_sub :: "base_uint \<Rightarrow> base_uint \<Rightarrow> base_uint" where
  "base_uint_sub a b = base_uint_add a (base_uint_neg b)"

fun mul32_digits :: "u64 \<Rightarrow> u32 \<Rightarrow> base_uint \<Rightarrow> base_uint" where
  "mul32_digits carry b32 [] = []"
| "mul32_digits carry b32 (x # xs) =
     (let n = carry + ucast b32 * ucast x in ucast n # mul32_digits (drop_bit 32 n) b32 xs)"

definition base_uint_mul32 :: "base_uint \<Rightarrow> u32 \<Rightarrow> base_uint" where
  "base_uint_mul32 a b32 = mul32_digits 0 b32 a"

text \<open>The inner loop of the product: the digits of \<^verbatim>\<open>a\<close> from position \<^verbatim>\<open>j\<close> on.\<close>

fun mul_row :: "u64 \<Rightarrow> u32 \<Rightarrow> base_uint \<Rightarrow> base_uint \<Rightarrow> base_uint" where
  "mul_row carry p (x # xs) (b # bs) =
     (let n = carry + ucast x + ucast p * ucast b in ucast n # mul_row (drop_bit 32 n) p xs bs)"
| "mul_row carry p xs bs = []"

definition base_uint_mul :: "base_uint \<Rightarrow> base_uint \<Rightarrow> base_uint" where
  "base_uint_mul pn b =
     fold (\<lambda>j a. take j a @ mul_row 0 (pn ! j) (drop j a) b) [0..<WIDTH] (replicate WIDTH 0)"

text \<open>From the most significant digit down.\<close>

fun compare_digits :: "base_uint \<Rightarrow> base_uint \<Rightarrow> int" where
  "compare_digits (x # xs) (y # ys) = (if x < y then - 1 else if x > y then 1 else compare_digits xs ys)"
| "compare_digits xs ys = 0"

definition CompareTo :: "base_uint \<Rightarrow> base_uint \<Rightarrow> int" where
  "CompareTo a b = compare_digits (rev a) (rev b)"

fun top_bit :: "u32 \<Rightarrow> nat \<Rightarrow> nat" where
  "top_bit w 0 = 1"
| "top_bit w (Suc n) = (if w AND push_bit (Suc n) 1 \<noteq> 0 then Suc n + 1 else top_bit w n)"

fun bits_digits :: "base_uint \<Rightarrow> nat" where
  "bits_digits [] = 0"
| "bits_digits (x # xs) = (if x \<noteq> 0 then 32 * length xs + top_bit x 31 else bits_digits xs)"

definition base_uint_bits :: "base_uint \<Rightarrow> nat" where
  "base_uint_bits a = bits_digits (rev a)"

text \<open>The loop of the division, for \<^verbatim>\<open>shift\<close> from one below the first argument down to 0.\<close>

fun div_loop :: "nat \<Rightarrow> base_uint \<Rightarrow> base_uint \<Rightarrow> base_uint \<Rightarrow> base_uint" where
  "div_loop 0 num d pn = pn"
| "div_loop (Suc shift) num d pn =
     (let ge = CompareTo num d \<ge> 0;
          num = (if ge then base_uint_sub num d else num);
          pn = (if ge then pn[shift div 32 := pn ! (shift div 32) OR push_bit (shift mod 32) 1] else pn)
      in div_loop shift num (base_uint_shr d 1) pn)"

definition base_uint_div :: "base_uint \<Rightarrow> base_uint \<Rightarrow> base_uint res" where
  "base_uint_div a b =
     (let num_bits = base_uint_bits a; div_bits = base_uint_bits b in
      if div_bits = 0 then Throw (runtime_error ''Division by zero'')
      else if div_bits > num_bits then Ret (base_uint_of 0)
      else let shift = num_bits - div_bits in
        Ret (div_loop (Suc shift) a (base_uint_shl b shift) (base_uint_of 0)))"

definition GetLow64 :: "base_uint \<Rightarrow> u64" where
  "GetLow64 a = ucast (a ! 0) OR push_bit 32 (ucast (a ! 1))"

definition ArithToUint256 :: "base_uint \<Rightarrow> bytes" where
  "ArithToUint256 a = concat (map WriteLE32 a)"

definition UintToArith256 :: "bytes \<Rightarrow> base_uint" where
  "UintToArith256 b = map (\<lambda>x. ReadLE32 (drop (4 * x) b)) [0..<WIDTH]"

section \<open>Compact form\<close>

definition SetCompact :: "u32 \<Rightarrow> base_uint \<times> bool \<times> bool" where
  "SetCompact nCompact =
     (let nSize = unat (drop_bit 24 nCompact); nWord = nCompact AND 0x007fffff;
          nWord = (if nSize \<le> 3 then drop_bit (8 * (3 - nSize)) nWord else nWord);
          r = (if nSize \<le> 3 then base_uint_of (ucast nWord)
               else base_uint_shl (base_uint_of (ucast nWord)) (8 * (nSize - 3)))
      in (r, nWord \<noteq> 0 \<and> nCompact AND 0x00800000 \<noteq> 0,
          nWord \<noteq> 0 \<and> (nSize > 34 \<or> nWord > 0xff \<and> nSize > 33 \<or> nWord > 0xffff \<and> nSize > 32)))"

section \<open>Values\<close>

fun uval :: "base_uint \<Rightarrow> nat" where
  "uval [] = 0"
| "uval (x # xs) = unat x + 2 ^ 32 * uval xs"

lemma uval_less: "uval xs < 2 ^ (32 * length xs)"
proof (induction xs)
  case Nil
  then show ?case by simp
next
  case (Cons x xs)
  have "unat x < 2 ^ 32" using unat_lt2p [of x] by simp
  then have "unat x + 2 ^ 32 * uval xs < 2 ^ 32 * (uval xs + 1)" by simp
  also have "\<dots> \<le> 2 ^ 32 * 2 ^ (32 * length xs)" using Cons by (intro mult_left_mono) simp_all
  finally show ?case by (simp add: power_add)
qed

lemma bit_uval: "bit (uval xs) n \<longleftrightarrow> n div 32 < length xs \<and> bit (xs ! (n div 32)) (n mod 32)"
proof (induction xs arbitrary: n)
  case Nil
  then show ?case by simp
next
  case (Cons x xs)
  have x: "unat x = take_bit 32 (unat x)" using unat_lt2p [of x] by (simp add: take_bit_nat_eq_self)
  have hi: "\<not> bit (unat x) m" if "\<not> m < 32" for m using x that by (metis bit_take_bit_iff)
  have "unat x + push_bit 32 (uval xs) = unat x OR push_bit 32 (uval xs)"
    using hi by (intro disjunctive_add) (auto simp: bit_push_bit_iff)
  then have s: "unat x + 2 ^ 32 * uval xs = unat x OR push_bit 32 (uval xs)"
    by (simp add: push_bit_eq_mult mult.commute)
  show ?case
  proof (cases "n < 32")
    case True
    then show ?thesis unfolding uval.simps s by (simp add: bit_or_iff bit_push_bit_iff bit_unsigned_iff)
  next
    case False
    then have "\<not> bit (unat x) n" by (rule hi)
    moreover have "n div 32 = Suc ((n - 32) div 32)" "n mod 32 = (n - 32) mod 32"
      using False by (simp_all add: le_div_geq le_mod_geq)
    ultimately show ?thesis using False unfolding uval.simps s by (simp add: bit_or_iff bit_push_bit_iff Cons)
  qed
qed

section \<open>Shifts\<close>

lemma digit_pos:
  "r < 32 \<Longrightarrow> (32 * q + r) div 32 = q" "r < 32 \<Longrightarrow> (32 * q + r) mod 32 = r" for q r :: nat
  by simp_all

definition shl_digit :: "base_uint \<Rightarrow> nat \<Rightarrow> nat \<Rightarrow> nat \<Rightarrow> nat \<Rightarrow> u32" where
  "shl_digit a k s m j =
     (if k \<le> j \<and> j - k < m then push_bit s (a ! (j - k)) else 0) OR
     (if k + 1 \<le> j \<and> j - k - 1 < m \<and> s \<noteq> 0 then drop_bit (32 - s) (a ! (j - k - 1)) else 0)"

lemma length_shl_step [simp]: "length (shl_step a k s i pn) = length pn"
  by (simp add: shl_step_def Let_def)

lemma shl_step_nth:
  assumes "length pn = WIDTH" "j < WIDTH" "\<And>j. j < WIDTH \<Longrightarrow> pn ! j = shl_digit a k s i j"
  shows "shl_step a k s i pn ! j = shl_digit a k s (Suc i) j"
proof -
  consider "j = i + k" | "j = i + k + 1" | "j \<noteq> i + k" "j \<noteq> i + k + 1" by blast
  then show ?thesis
  proof cases
    case 1
    then show ?thesis using assms by (auto simp: shl_step_def Let_def nth_list_update shl_digit_def or.commute)
  next
    case 2
    then show ?thesis using assms by (auto simp: shl_step_def Let_def nth_list_update shl_digit_def)
  next
    case 3
    then have "shl_step a k s i pn ! j = pn ! j"
      using assms(1,2) by (auto simp: shl_step_def Let_def nth_list_update)
    also have "\<dots> = shl_digit a k s i j" using assms(2,3) by simp
    also have "\<dots> = shl_digit a k s (Suc i) j" using 3 by (auto simp: shl_digit_def)
    finally show ?thesis .
  qed
qed

lemma shl_fold:
  "length (fold (shl_step a k s) [0..<m] (replicate WIDTH 0)) = WIDTH \<and>
   (\<forall>j < WIDTH. fold (shl_step a k s) [0..<m] (replicate WIDTH 0) ! j = shl_digit a k s m j)"
proof (induction m)
  case 0
  then show ?case by (simp add: shl_digit_def)
next
  case (Suc m)
  then show ?case using shl_step_nth [of "fold (shl_step a k s) [0..<m] (replicate WIDTH 0)"] by simp
qed

lemma length_base_uint_shl [simp]: "length (base_uint_shl a s) = WIDTH"
  using shl_fold by (simp add: base_uint_shl_def)

lemma base_uint_shl_nth: "j < WIDTH \<Longrightarrow> base_uint_shl a s ! j = shl_digit a (s div 32) (s mod 32) WIDTH j"
  using shl_fold [of a "s div 32" "s mod 32" WIDTH] by (simp add: base_uint_shl_def)

lemma bit_shl_digit:
  assumes "length a = WIDTH" "j < WIDTH" "b < 32"
  shows "bit (shl_digit a (S div 32) (S mod 32) WIDTH j) b \<longleftrightarrow>
    S \<le> 32 * j + b \<and> bit (uval a) (32 * j + b - S)"
proof -
  define k s where "k = S div 32" and "s = S mod 32"
  have S: "S = 32 * k + s" "s < 32" by (simp_all add: k_def s_def)
  have lo: "bit (push_bit s w) b \<longleftrightarrow> s \<le> b \<and> bit w (b - s)" for w :: u32
    using assms(3) by (simp add: bit_push_bit_iff)
  have hi: "bit (drop_bit (32 - s) w) b \<longleftrightarrow> b < s \<and> bit w (b + 32 - s)" if "s \<noteq> 0" for w :: u32
    using that S(2) bit_imp_le_length [of w "32 - s + b"] by (auto simp: bit_drop_bit_eq add.commute)
  show ?thesis
  proof (cases "s \<le> b")
    case True
    have 1: "S \<le> 32 * j + b \<longleftrightarrow> k \<le> j" using S True assms(3) by auto
    have 2: "(32 * j + b - S) div 32 = j - k" "(32 * j + b - S) mod 32 = b - s" if "k \<le> j"
    proof -
      have "32 * j + b - S = 32 * (j - k) + (b - s)" "b - s < 32" using S True that assms(3) by auto
      then show "(32 * j + b - S) div 32 = j - k" "(32 * j + b - S) mod 32 = b - s" by simp_all
    qed
    show ?thesis using assms True 1 2 hi
      by (auto simp: shl_digit_def bit_or_iff lo bit_uval k_def [symmetric] s_def [symmetric])
  next
    case False
    have 1: "S \<le> 32 * j + b \<longleftrightarrow> k + 1 \<le> j" using S False assms(3) by auto
    have 2: "(32 * j + b - S) div 32 = j - k - 1" "(32 * j + b - S) mod 32 = b + 32 - s" if "k + 1 \<le> j"
    proof -
      have "32 * j + b - S = 32 * (j - k - 1) + (b + 32 - s)" "b + 32 - s < 32" using S False that by auto
      then show "(32 * j + b - S) div 32 = j - k - 1" "(32 * j + b - S) mod 32 = b + 32 - s" by simp_all
    qed
    show ?thesis using assms False 1 2 hi
      by (auto simp: shl_digit_def bit_or_iff lo bit_uval k_def [symmetric] s_def [symmetric])
  qed
qed

lemma uval_shl:
  assumes "length a = WIDTH"
  shows "uval (base_uint_shl a S) = uval a * 2 ^ S mod 2 ^ 256"
proof -
  have "uval (base_uint_shl a S) = take_bit 256 (push_bit S (uval a))"
  proof (rule bit_eqI)
    fix n
    have "n div 32 < WIDTH \<longleftrightarrow> n < 256" by auto
    then show "bit (uval (base_uint_shl a S)) n = bit (take_bit 256 (push_bit S (uval a))) n"
      using bit_shl_digit [OF assms, of "n div 32" "n mod 32" S]
      by (auto simp: bit_uval [of "base_uint_shl a S"] bit_take_bit_iff bit_push_bit_iff base_uint_shl_nth)
  qed
  then show ?thesis by (simp add: take_bit_eq_mod push_bit_eq_mult)
qed

definition shr_digit :: "base_uint \<Rightarrow> nat \<Rightarrow> nat \<Rightarrow> nat \<Rightarrow> nat \<Rightarrow> u32" where
  "shr_digit a k s m j =
     (if j + k < m then drop_bit s (a ! (j + k)) else 0) OR
     (if j + k + 1 < m \<and> s \<noteq> 0 then push_bit (32 - s) (a ! (j + k + 1)) else 0)"

lemma length_shr_step [simp]: "length (shr_step a k s i pn) = length pn"
  by (simp add: shr_step_def Let_def)

lemma shr_step_nth:
  assumes "length pn = WIDTH" "j < WIDTH" "i < WIDTH" "\<And>j. j < WIDTH \<Longrightarrow> pn ! j = shr_digit a k s i j"
  shows "shr_step a k s i pn ! j = shr_digit a k s (Suc i) j"
proof -
  consider "i = j + k" | "i = j + k + 1" | "i \<noteq> j + k" "i \<noteq> j + k + 1" by blast
  then show ?thesis
  proof cases
    case 1
    then show ?thesis using assms by (auto simp: shr_step_def Let_def nth_list_update shr_digit_def)
  next
    case 2
    then show ?thesis using assms
      by (auto simp: shr_step_def Let_def nth_list_update shr_digit_def or.commute)
  next
    case 3
    then have "shr_step a k s i pn ! j = pn ! j"
      using assms(1,2) by (auto simp: shr_step_def Let_def nth_list_update)
    also have "\<dots> = shr_digit a k s i j" using assms(2,4) by simp
    also have "\<dots> = shr_digit a k s (Suc i) j"
    proof -
      have "(j + k < Suc i) = (j + k < i)" "(j + k + 1 < Suc i) = (j + k + 1 < i)" using 3 by auto
      then show ?thesis unfolding shr_digit_def by (simp only:)
    qed
    finally show ?thesis .
  qed
qed

lemma shr_fold:
  "m \<le> WIDTH \<Longrightarrow> length (fold (shr_step a k s) [0..<m] (replicate WIDTH 0)) = WIDTH \<and>
   (\<forall>j < WIDTH. fold (shr_step a k s) [0..<m] (replicate WIDTH 0) ! j = shr_digit a k s m j)"
proof (induction m)
  case 0
  then show ?case by (simp add: shr_digit_def)
next
  case (Suc m)
  then show ?case using shr_step_nth [of "fold (shr_step a k s) [0..<m] (replicate WIDTH 0)" _ m] by simp
qed

lemma length_base_uint_shr [simp]: "length (base_uint_shr a s) = WIDTH"
  using shr_fold by (simp add: base_uint_shr_def)

lemma base_uint_shr_nth: "j < WIDTH \<Longrightarrow> base_uint_shr a s ! j = shr_digit a (s div 32) (s mod 32) WIDTH j"
  using shr_fold [of WIDTH a "s div 32" "s mod 32"] by (simp add: base_uint_shr_def)

lemma bit_shr_digit:
  assumes "length a = WIDTH" "b < 32"
  shows "bit (shr_digit a (S div 32) (S mod 32) WIDTH j) b \<longleftrightarrow> bit (uval a) (32 * j + b + S)"
proof -
  define k s where "k = S div 32" and "s = S mod 32"
  have S: "S = 32 * k + s" "s < 32" by (simp_all add: k_def s_def)
  have lo: "bit (drop_bit s w) b \<longleftrightarrow> b + s < 32 \<and> bit w (b + s)" for w :: u32
    using bit_imp_le_length [of w "s + b"] by (auto simp: bit_drop_bit_eq add.commute)
  have hi: "bit (push_bit (32 - s) w) b \<longleftrightarrow> 32 \<le> b + s \<and> bit w (b + s - 32)" if "s \<noteq> 0" for w :: u32
    using that S(2) assms(2) by (auto simp: bit_push_bit_iff)
  show ?thesis
  proof (cases "b + s < 32")
    case True
    have e: "32 * j + b + S = 32 * (j + k) + (b + s)" using S by simp
    have "(32 * j + b + S) div 32 = j + k" "(32 * j + b + S) mod 32 = b + s"
      unfolding e using True by (rule digit_pos)+
    then show ?thesis using assms True hi
      by (auto simp: shr_digit_def bit_or_iff lo bit_uval k_def [symmetric] s_def [symmetric])
  next
    case False
    then have e: "32 * j + b + S = 32 * (j + k + 1) + (b + s - 32)" "b + s - 32 < 32" using S assms(2) by auto
    have "(32 * j + b + S) div 32 = j + k + 1" "(32 * j + b + S) mod 32 = b + s - 32"
      unfolding e(1) using e(2) by (rule digit_pos)+
    moreover have "s \<noteq> 0" using False assms(2) by simp
    ultimately show ?thesis using assms False hi
      by (auto simp: shr_digit_def bit_or_iff lo bit_uval k_def [symmetric] s_def [symmetric])
  qed
qed

lemma uval_shr:
  assumes "length a = WIDTH"
  shows "uval (base_uint_shr a S) = uval a div 2 ^ S"
proof -
  have "uval (base_uint_shr a S) = drop_bit S (uval a)"
  proof (rule bit_eqI)
    fix n
    have "n div 32 < WIDTH" if "bit (uval a) (n + S)"
      using that assms div_le_mono [of n "n + S" 32] by (simp add: bit_uval)
    then show "bit (uval (base_uint_shr a S)) n = bit (drop_bit S (uval a)) n"
      using bit_shr_digit [OF assms, of "n mod 32" S "n div 32"]
      by (auto simp: bit_uval [of "base_uint_shr a S"] bit_drop_bit_eq base_uint_shr_nth add.commute)
  qed
  then show ?thesis by (simp add: drop_bit_eq_div)
qed

section \<open>The compact form\<close>

lemma uval_zeros [simp]: "uval (replicate n 0) = 0"
  by (induction n) simp_all

lemma uval_base_uint_of: "uval (base_uint_of (ucast (w :: u32))) = unat w"
proof -
  have "drop_bit 32 (ucast w :: u64) = 0"
    by (rule bit_eqI) (use bit_imp_le_length [of w] in \<open>auto simp: bit_drop_bit_eq bit_ucast_iff\<close>)
  moreover have "ucast (ucast w :: u64) = w" by (rule ucast_ucast_small) (use unat_lt2p [of w] in simp)
  ultimately show ?thesis unfolding base_uint_of_def uval.simps by (simp only: uval_zeros) simp
qed

lemma length_base_uint_of [simp]: "length (base_uint_of b) = WIDTH"
  by (simp add: base_uint_of_def)

definition mantissa :: "u32 \<Rightarrow> nat" where "mantissa c = unat (c AND 0x007fffff)"
definition compact_size :: "u32 \<Rightarrow> nat" where "compact_size c = unat (drop_bit 24 c)"

lemma mantissa_mod: "mantissa c = unat c mod 2 ^ 23"
proof -
  have "c AND 0x007fffff = take_bit 23 c" by (simp add: take_bit_eq_mask mask_eq_exp_minus_1)
  then show ?thesis by (simp only: mantissa_def unsigned_take_bit_eq) (simp add: take_bit_eq_mod)
qed

lemma mantissa_less: "mantissa c < 2 ^ 23" by (simp add: mantissa_mod)

lemma uval_SetCompact:
  "uval (fst (SetCompact c)) =
     (if compact_size c \<le> 3 then mantissa c div 256 ^ (3 - compact_size c)
      else mantissa c * 256 ^ (compact_size c - 3) mod 2 ^ 256)"
proof (cases "compact_size c \<le> 3")
  case True
  have "(256 :: nat) ^ (3 - compact_size c) = 2 ^ (8 * (3 - compact_size c))" by (simp add: power_mult)
  then show ?thesis using True unfolding SetCompact_def Let_def compact_size_def [symmetric] mantissa_def
    by (simp only: if_True fst_conv uval_base_uint_of unat_drop_bit)
next
  case False
  have "(256 :: nat) ^ (compact_size c - 3) = 2 ^ (8 * (compact_size c - 3))" by (simp add: power_mult)
  then show ?thesis using False unfolding SetCompact_def Let_def compact_size_def [symmetric] mantissa_def
    by (simp only: if_False fst_conv uval_shl length_base_uint_of uval_base_uint_of)
qed

lemma overflow_bound:
  fixes m e :: nat
  assumes "m \<noteq> 0" "m < 2 ^ 24" "3 < e"
  shows "2 ^ 256 \<le> m * 256 ^ (e - 3) \<longleftrightarrow> e > 34 \<or> m > 0xff \<and> e > 33 \<or> m > 0xffff \<and> e > 32"
proof -
  have p: "(256 :: nat) ^ (e - 3) = 2 ^ (8 * (e - 3))" by (simp add: power_mult)
  have big: "2 ^ 256 \<le> m * 256 ^ (e - 3)" if "2 ^ k \<le> m" "256 \<le> k + 8 * (e - 3)" for k
  proof -
    have "(2 :: nat) ^ 256 \<le> 2 ^ (k + 8 * (e - 3))" using that(2) by (intro power_increasing) auto
    also have "\<dots> \<le> m * 2 ^ (8 * (e - 3))" using that(1) by (simp add: power_add)
    finally show ?thesis by (simp only: p)
  qed
  have small: "m * 256 ^ (e - 3) < 2 ^ 256" if "m < 2 ^ k" "k + 8 * (e - 3) \<le> 256" for k
  proof -
    have "m * 2 ^ (8 * (e - 3)) < 2 ^ k * 2 ^ (8 * (e - 3))" using that(1) by simp
    also have "\<dots> \<le> 2 ^ 256" unfolding power_add [symmetric] using that(2) by (intro power_increasing) auto
    finally show ?thesis by (simp only: p)
  qed
  consider "e > 34" | "e = 34" | "e = 33" | "e \<le> 32" by linarith
  then show ?thesis
  proof cases
    case 1
    then have "2 ^ 256 \<le> m * 256 ^ (e - 3)" using assms(1) by (intro big [of 0]) auto
    with 1 show ?thesis by blast
  next
    case 2
    have A: "2 ^ 256 \<le> m * 256 ^ (e - 3) \<longleftrightarrow> m > 0xff"
    proof (cases "m > 0xff")
      case True
      then have "2 ^ 8 \<le> m" "256 \<le> 8 + 8 * (e - 3)" using 2 by simp_all
      from big [OF this] True show ?thesis by blast
    next
      case False
      then have "m * 256 ^ (e - 3) < 2 ^ 256" using 2 by (intro small [of 8]) auto
      then have "\<not> 2 ^ 256 \<le> m * 256 ^ (e - 3)" by (simp only: not_le)
      with False show ?thesis by blast
    qed
    show ?thesis unfolding A using 2 by auto
  next
    case 3
    have A: "2 ^ 256 \<le> m * 256 ^ (e - 3) \<longleftrightarrow> m > 0xffff"
    proof (cases "m > 0xffff")
      case True
      then have "2 ^ 16 \<le> m" "256 \<le> 16 + 8 * (e - 3)" using 3 by simp_all
      from big [OF this] True show ?thesis by blast
    next
      case False
      then have "m * 256 ^ (e - 3) < 2 ^ 256" using 3 by (intro small [of 16]) auto
      then have "\<not> 2 ^ 256 \<le> m * 256 ^ (e - 3)" by (simp only: not_le)
      with False show ?thesis by blast
    qed
    show ?thesis unfolding A using 3 by auto
  next
    case 4
    then have "m * 256 ^ (e - 3) < 2 ^ 256" using assms by (intro small [of 24]) auto
    then have A: "\<not> 2 ^ 256 \<le> m * 256 ^ (e - 3)" by (simp only: not_le)
    show ?thesis unfolding eq_False [THEN iffD2, OF A] using 4 by auto
  qed
qed

definition compact_word :: "u32 \<Rightarrow> u32" where
  "compact_word c = (if compact_size c \<le> 3 then drop_bit (8 * (3 - compact_size c)) (c AND 0x007fffff)
                     else c AND 0x007fffff)"

lemma unat_compact_word:
  "unat (compact_word c) = (if compact_size c \<le> 3 then mantissa c div 256 ^ (3 - compact_size c) else mantissa c)"
proof -
  have "(256 :: nat) ^ (3 - compact_size c) = 2 ^ (8 * (3 - compact_size c))" by (simp add: power_mult)
  then show ?thesis unfolding compact_word_def mantissa_def by (simp only: unat_drop_bit split: if_split) blast
qed

lemma compact_value:
  "mantissa c * 256 ^ compact_size c div 256 ^ 3 =
     (if compact_size c \<le> 3 then unat (compact_word c) else unat (compact_word c) * 256 ^ (compact_size c - 3))"
proof (cases "compact_size c \<le> 3")
  case True
  then have e: "(256 :: nat) ^ 3 = 256 ^ (3 - compact_size c) * 256 ^ compact_size c"
    by (simp only: power_add [symmetric]) simp
  have "mantissa c * 256 ^ compact_size c div 256 ^ 3 = mantissa c div 256 ^ (3 - compact_size c)"
    unfolding e by (rule div_mult_mult2) simp
  then show ?thesis using True by (simp only: unat_compact_word if_True)
next
  case False
  then have "mantissa c * 256 ^ compact_size c = mantissa c * 256 ^ (compact_size c - 3) * 256 ^ 3"
    by (simp only: mult.assoc power_add [symmetric]) simp
  then have "mantissa c * 256 ^ compact_size c div 256 ^ 3 = mantissa c * 256 ^ (compact_size c - 3)"
    by (simp only:) simp
  then show ?thesis using False by (simp only: unat_compact_word if_False)
qed

lemma compact_overflow:
  "2 ^ 256 \<le> mantissa c * 256 ^ compact_size c div 256 ^ 3 \<longleftrightarrow>
     compact_word c \<noteq> 0 \<and> (compact_size c > 34 \<or> compact_word c > 0xff \<and> compact_size c > 33 \<or>
       compact_word c > 0xffff \<and> compact_size c > 32)" (is "?L \<longleftrightarrow> ?R")
proof -
  let ?m = "unat (compact_word c)" and ?e = "compact_size c"
  have g: "compact_word c > 0xff \<longleftrightarrow> ?m > 0xff" "compact_word c > 0xffff \<longleftrightarrow> ?m > 0xffff"
    "compact_word c \<noteq> 0 \<longleftrightarrow> ?m \<noteq> 0"
    by (simp_all add: word_less_nat_alt word_unat_eq_iff)
  show ?thesis
  proof (cases "?e \<le> 3 \<or> ?m = 0")
    case True
    have "?m < 2 ^ 32" using unat_lt2p [of "compact_word c"] by simp
    then have "?m < 2 ^ 256" by (rule less_le_trans) simp
    then have "\<not> ?L" using True unfolding compact_value not_le by auto
    moreover have "\<not> ?R" using True g by auto
    ultimately show ?thesis by blast
  next
    case False
    have "?m < 2 ^ 24" using False mantissa_less [of c] by (simp add: unat_compact_word)
    then show ?thesis using overflow_bound [of ?m ?e] False unfolding compact_value g by auto
  qed
qed

text \<open>
  C27. The target of a block is what its compact form says: \<^verbatim>\<open>SetCompact\<close> computes
  mantissa times 256 to the (size - 3), rounded down, in 256 bits; the overflow flag is set exactly
  when that number does not fit into 256 bits, and the sign flag exactly when a non-zero number has
  the sign bit.
\<close>

theorem SetCompact_target:
  "let N = mantissa c * 256 ^ compact_size c div 256 ^ 3; (r, negative, overflow) = SetCompact c in
     uval r = N mod 2 ^ 256 \<and> (overflow \<longleftrightarrow> 2 ^ 256 \<le> N) \<and> (negative \<longleftrightarrow> N \<noteq> 0 \<and> bit c 23)"
proof -
  let ?N = "mantissa c * 256 ^ compact_size c div 256 ^ 3"
  obtain r neg ov where r: "SetCompact c = (r, neg, ov)" by (metis prod_cases3)
  have d: "neg = (compact_word c \<noteq> 0 \<and> c AND 0x00800000 \<noteq> 0)"
    "ov = (compact_word c \<noteq> 0 \<and> (compact_size c > 34 \<or> compact_word c > 0xff \<and> compact_size c > 33 \<or>
       compact_word c > 0xffff \<and> compact_size c > 32))"
    using r unfolding SetCompact_def Let_def compact_size_def [symmetric] compact_word_def [symmetric] by simp_all
  have "uval r = ?N mod 2 ^ 256"
  proof (cases "compact_size c \<le> 3")
    case True
    have "unat (compact_word c) < 2 ^ 256" using unat_lt2p [of "compact_word c"] by (rule less_le_trans) simp
    then show ?thesis using uval_SetCompact [of c] True unfolding compact_value r
      by (simp only: fst_conv if_True unat_compact_word mod_less)
  next
    case False
    then show ?thesis using uval_SetCompact [of c] unfolding compact_value r
      by (simp only: fst_conv if_False unat_compact_word)
  qed
  moreover have "ov \<longleftrightarrow> 2 ^ 256 \<le> ?N" unfolding d compact_overflow ..
  moreover have "compact_word c \<noteq> 0 \<longleftrightarrow> ?N \<noteq> 0" unfolding compact_value by (simp add: word_unat_eq_iff)
  then have "neg \<longleftrightarrow> ?N \<noteq> 0 \<and> bit c 23" unfolding d using and_exp_eq_0_iff_not_bit [of c 23] by simp
  ultimately show ?thesis unfolding r Let_def prod.case by blast
qed

section \<open>Arithmetic\<close>

text \<open>One step of a digit loop: the low half is the digit, the high half goes into the rest.\<close>

lemma digit_step:
  fixes n :: u64
  shows "unat (ucast n :: u32) + 2 ^ 32 * ((unat (drop_bit 32 n) + R) mod M) = (unat n + 2 ^ 32 * R) mod (2 ^ 32 * M)"
proof -
  have "unat n = unat n mod 2 ^ 32 + 2 ^ 32 * (unat n div 2 ^ 32)" by simp
  then have "unat n + 2 ^ 32 * R = unat n mod 2 ^ 32 + 2 ^ 32 * (unat n div 2 ^ 32 + R)"
    by (simp only: add_mult_distrib2)
  then show ?thesis unfolding u64_digits by (simp only: horner_mod [of "unat n mod 2 ^ 32" "2 ^ 32"] mod_less_divisor zero_less_power zero_less_numeral)
qed

lemma muladd_bound:
  fixes p x a c :: nat
  assumes "p < 2 ^ 32" "x < 2 ^ 32" "a < 2 ^ 32" "c < 2 ^ 32"
  shows "c + a + p * x < 2 ^ 64"
proof -
  have "p * x \<le> (2 ^ 32 - 1) * (2 ^ 32 - 1)" using assms by (intro mult_mono) auto
  moreover have "(2 ^ 32 - 1) * (2 ^ 32 - 1) = (2 ^ 64 - 2 ^ 33 + 1 :: nat)" by simp
  ultimately have "p * x \<le> 2 ^ 64 - 2 ^ 33 + 1" by (simp only:)
  then show ?thesis using assms by simp
qed

lemma muladd_u64:
  fixes carry :: u64 and x p b :: u32
  assumes "unat carry < 2 ^ 32"
  shows "unat (carry + ucast x + ucast p * ucast b) = unat carry + unat x + unat p * unat b"
    "unat (drop_bit 32 (carry + ucast x + ucast p * ucast b)) < 2 ^ 32"
proof -
  have bnd: "unat p < 2 ^ 32" "unat b < 2 ^ 32" "unat x < 2 ^ 32"
    using unat_lt2p [of p] unat_lt2p [of b] unat_lt2p [of x] by simp_all
  note m = muladd_bound [OF bnd assms]
  have 1: "unat (ucast p * ucast b :: u64) = unat p * unat b"
    using m by (subst unat_u64_mult) simp_all
  have 2: "unat (carry + ucast x) = unat carry + unat x" using m by (subst unat_u64_plus) simp_all
  show *: "unat (carry + ucast x + ucast p * ucast b) = unat carry + unat x + unat p * unat b"
    using m by (subst unat_u64_plus) (simp_all add: 1 2)
  show "unat (drop_bit 32 (carry + ucast x + ucast p * ucast b)) < 2 ^ 32"
    using unat_lt2p [of "carry + ucast x + ucast p * ucast b"] unfolding u64_digits
    by (intro less_mult_imp_div_less) simp
qed

lemma length_mul_row [simp]: "length xs \<le> length bs \<Longrightarrow> length (mul_row c p xs bs) = length xs"
  by (induction c p xs bs rule: mul_row.induct) (simp_all add: Let_def)

lemma uval_mul_row:
  "unat c < 2 ^ 32 \<Longrightarrow> length xs \<le> length bs \<Longrightarrow>
     uval (mul_row c p xs bs) = (unat c + uval xs + unat p * uval bs) mod 2 ^ (32 * length xs)"
proof (induction c p xs bs rule: mul_row.induct)
  case (1 carry p x xs b bs)
  define n where "n = carry + ucast x + ucast p * ucast b"
  note m = muladd_u64 [OF 1(2), of x p b, folded n_def]
  have "uval (mul_row (drop_bit 32 n) p xs bs) = (unat (drop_bit 32 n) + (uval xs + unat p * uval bs)) mod 2 ^ (32 * length xs)"
    using 1(1) [OF n_def] 1(3) m(2) by (simp add: add.assoc)
  then have "uval (mul_row carry p (x # xs) (b # bs)) =
      (unat n + 2 ^ 32 * (uval xs + unat p * uval bs)) mod (2 ^ 32 * 2 ^ (32 * length xs))"
    by (simp only: mul_row.simps Let_def n_def [symmetric] uval.simps digit_step)
  also have "unat n + 2 ^ 32 * (uval xs + unat p * uval bs) = unat carry + uval (x # xs) + unat p * uval (b # bs)"
    unfolding m(1) by (simp add: algebra_simps)
  also have "2 ^ 32 * 2 ^ (32 * length xs) = (2 ^ (32 * length (x # xs)) :: nat)" by (simp add: power_add)
  finally show ?case .
qed auto

lemma add_digits_eq: "add_digits c xs ys = mul_row c 1 xs ys"
  by (induction c xs ys rule: add_digits.induct) (simp_all add: Let_def)

lemma mul32_digits_eq: "mul32_digits c b xs = mul_row c b (replicate (length xs) 0) xs"
  by (induction c b xs rule: mul32_digits.induct) (simp_all add: Let_def)

lemma uval_add:
  "length a = length b \<Longrightarrow> uval (base_uint_add a b) = (uval a + uval b) mod 2 ^ (32 * length a)"
  by (simp add: base_uint_add_def add_digits_eq uval_mul_row)

lemma length_base_uint_add [simp]: "length a = length b \<Longrightarrow> length (base_uint_add a b) = length b"
  by (simp add: base_uint_add_def add_digits_eq)

lemma uval_mul32: "uval (base_uint_mul32 a b) = unat b * uval a mod 2 ^ (32 * length a)"
  by (simp add: base_uint_mul32_def mul32_digits_eq uval_mul_row)

lemma uval_append: "uval (xs @ ys) = uval xs + 2 ^ (32 * length xs) * uval ys"
  by (induction xs) (simp_all add: power_add algebra_simps)

lemma uval_take_Suc: "j < length xs \<Longrightarrow> uval (take (Suc j) xs) = uval (take j xs) + 2 ^ (32 * j) * unat (xs ! j)"
  by (simp add: take_Suc_conv_app_nth uval_append)

lemma mul_fold:
  assumes b: "length b = WIDTH" and pn: "length pn = WIDTH"
  shows "m \<le> WIDTH \<Longrightarrow>
    (let a = fold (\<lambda>j a. take j a @ mul_row 0 (pn ! j) (drop j a) b) [0..<m] (replicate WIDTH 0) in
     length a = WIDTH \<and> uval a = uval (take m pn) * uval b mod 2 ^ 256)"
proof (induction m)
  case 0
  then show ?case by (simp add: Let_def)
next
  case (Suc m)
  define a where "a = fold (\<lambda>j a. take j a @ mul_row 0 (pn ! j) (drop j a) b) [0..<m] (replicate WIDTH 0)"
  have a: "length a = WIDTH" "uval a = uval (take m pn) * uval b mod 2 ^ 256"
    using Suc by (simp_all add: Let_def a_def)
  let ?r = "mul_row 0 (pn ! m) (drop m a) b"
  have l: "length (take m a) = m" "length (drop m a) = WIDTH - m" using a Suc.prems by simp_all
  have e: "(2 ^ 256 :: nat) = 2 ^ (32 * m) * 2 ^ (32 * (WIDTH - m))"
    unfolding power_add [symmetric] using Suc.prems by (intro arg_cong [where f = "(^) 2"]) simp
  have r: "uval ?r = (uval (drop m a) + unat (pn ! m) * uval b) mod 2 ^ (32 * (WIDTH - m))"
    using a b l by (subst uval_mul_row) simp_all
  have "uval (take m a) < 2 ^ (32 * m)" using uval_less [of "take m a"] l by simp
  then have "uval (take m a @ ?r) =
      (uval (take m a) + 2 ^ (32 * m) * (uval (drop m a) + unat (pn ! m) * uval b)) mod 2 ^ 256"
    unfolding uval_append r l e by (rule horner_mod)
  also have "uval (take m a) + 2 ^ (32 * m) * (uval (drop m a) + unat (pn ! m) * uval b) =
      uval (take m a @ drop m a) + 2 ^ (32 * m) * unat (pn ! m) * uval b"
    unfolding uval_append l by (simp only: add_mult_distrib2 mult.assoc add.assoc)
  also have "\<dots> mod 2 ^ 256 = (uval (take m pn) * uval b + 2 ^ (32 * m) * unat (pn ! m) * uval b) mod 2 ^ 256"
    unfolding append_take_drop_id a(2) by (rule mod_add_left_eq)
  also have "uval (take m pn) * uval b + 2 ^ (32 * m) * unat (pn ! m) * uval b = uval (take (Suc m) pn) * uval b"
    using Suc.prems pn by (simp only: uval_take_Suc add_mult_distrib)
  finally show ?case using a b l Suc.prems by (simp add: Let_def a_def [symmetric] del: power_numeral)
qed

lemma uval_mul:
  assumes "length a = WIDTH" "length b = WIDTH"
  shows "uval (base_uint_mul a b) = uval a * uval b mod 2 ^ 256" "length (base_uint_mul a b) = WIDTH"
  using mul_fold [OF assms(2,1) order_refl] assms unfolding base_uint_mul_def Let_def by simp_all

lemma uval_inc: "uval (base_uint_inc xs) = (uval xs + 1) mod 2 ^ (32 * length xs)"
proof (induction xs)
  case Nil
  then show ?case by simp
next
  case (Cons x xs)
  have e: "(2 ^ (32 * length (x # xs)) :: nat) = 2 ^ 32 * 2 ^ (32 * length xs)" by (simp add: power_add)
  show ?case
  proof (cases "x + 1 = 0")
    case True
    then have "x = - 1" by (simp add: eq_neg_iff_add_eq_0)
    then have "unat x = 2 ^ 32 - 1" by (simp add: unsigned_minus_1_eq_mask mask_eq_exp_minus_1)
    then have "uval (x # xs) + 1 = 0 + 2 ^ 32 * (uval xs + 1)" by (simp add: algebra_simps)
    moreover have "uval (base_uint_inc (x # xs)) = 0 + 2 ^ 32 * ((uval xs + 1) mod 2 ^ (32 * length xs))"
      using True Cons by simp
    ultimately show ?thesis unfolding e by (simp only: horner_mod zero_less_power zero_less_numeral)
  next
    case False
    have m: "unat (x + 1) = (unat x + 1) mod 2 ^ 32" by (simp add: unat_word_ariths)
    have "unat x + 1 \<noteq> 2 ^ 32"
    proof
      assume "unat x + 1 = 2 ^ 32"
      then have "unat (x + 1) = 0" unfolding m by simp
      then show False using False by (simp add: word_unat_eq_iff)
    qed
    then have u: "unat (x + 1) = unat x + 1" unfolding m using unat_lt2p [of x] by simp
    have "uval (base_uint_inc (x # xs)) = uval (x # xs) + 1" using False u by simp
    moreover have "uval ((x + 1) # xs) < 2 ^ (32 * length ((x + 1) # xs))" by (rule uval_less)
    ultimately show ?thesis using False u by simp
  qed
qed

lemma length_base_uint_inc [simp]: "length (base_uint_inc xs) = length xs"
  by (induction xs) simp_all

lemma unat_NOT: "unat (NOT x) = 2 ^ 32 - 1 - unat x" for x :: u32
proof -
  have "NOT x = - 1 - x" by (simp add: not_eq_complement)
  moreover have "unat (- 1 - x) = unat (- 1 :: u32) - unat x" by (intro unat_sub) simp
  ultimately show ?thesis by (simp add: unsigned_minus_1_eq_mask mask_eq_exp_minus_1)
qed

lemma uval_NOT: "uval (map (\<lambda>x. NOT x) xs) + uval xs + 1 = 2 ^ (32 * length xs)"
proof (induction xs)
  case Nil
  then show ?case by simp
next
  case (Cons x xs)
  have "unat (NOT x) + unat x + 1 = 2 ^ 32" unfolding unat_NOT using unat_lt2p [of x] by simp
  then have "uval (map (\<lambda>x. NOT x) (x # xs)) + uval (x # xs) + 1 =
      2 ^ 32 * (uval (map (\<lambda>x. NOT x) xs) + uval xs + 1)"
    by (simp add: algebra_simps)
  then show ?case unfolding Cons by (simp add: power_add)
qed

lemma uval_neg: "uval (base_uint_neg b) = (2 ^ (32 * length b) - uval b) mod 2 ^ (32 * length b)"
proof -
  have "uval (map (\<lambda>x. NOT x) b) + 1 = 2 ^ (32 * length b) - uval b" using uval_NOT [of b] by simp
  then show ?thesis unfolding base_uint_neg_def uval_inc by simp
qed

lemma length_base_uint_neg [simp]: "length (base_uint_neg b) = length b"
  by (simp add: base_uint_neg_def)

lemma uval_sub:
  assumes "length a = length b"
  shows "uval (base_uint_sub a b) = (uval a + 2 ^ (32 * length b) - uval b) mod 2 ^ (32 * length b)"
    "length (base_uint_sub a b) = length b"
proof -
  have "uval a + (2 ^ (32 * length b) - uval b) = uval a + 2 ^ (32 * length b) - uval b"
    using uval_less [of b] by simp
  then show "uval (base_uint_sub a b) = (uval a + 2 ^ (32 * length b) - uval b) mod 2 ^ (32 * length b)"
    unfolding base_uint_sub_def using assms by (simp add: uval_add uval_neg mod_add_right_eq)
  show "length (base_uint_sub a b) = length b" using assms by (simp add: base_uint_sub_def)
qed

lemma uval_sub_le:
  assumes "length a = length b" "uval b \<le> uval a"
  shows "uval (base_uint_sub a b) = uval a - uval b"
proof -
  have e: "uval a + 2 ^ (32 * length b) - uval b = (uval a - uval b) + 2 ^ (32 * length b)"
    using assms(2) by (rule Nat.diff_add_assoc2)
  have "uval a - uval b < 2 ^ (32 * length b)"
    using uval_less [of a] unfolding assms(1) by (rule le_less_trans [OF diff_le_self])
  then show ?thesis unfolding uval_sub(1) [OF assms(1)] e mod_add_self2 by (rule mod_less)
qed

lemma sgn_nat_diff: "a < b \<Longrightarrow> sgn (int a - int b) = - 1" "b < a \<Longrightarrow> sgn (int a - int b) = 1"
  by simp_all

lemma compare_digits_sgn:
  "length xs = length ys \<Longrightarrow> compare_digits xs ys = sgn (int (uval (rev xs)) - int (uval (rev ys)))"
proof (induction xs ys rule: list_induct2)
  case Nil
  then show ?case by simp
next
  case (Cons x xs y ys)
  define B where "B = (2 ^ (32 * length ys) :: nat)"
  have v: "uval (rev (x # xs)) = uval (rev xs) + B * unat x" "uval (rev (y # ys)) = uval (rev ys) + B * unat y"
    using Cons.hyps by (simp_all add: uval_append B_def)
  have b: "uval (rev xs) < B" "uval (rev ys) < B"
    using uval_less [of "rev xs"] uval_less [of "rev ys"] Cons.hyps by (simp_all add: B_def)
  have lt: "uval (rev us) + B * unat u < uval (rev vs) + B * unat v"
    if "u < v" "uval (rev us) < B" for u v :: u32 and us vs
  proof -
    have "B * (unat u + 1) \<le> B * unat v" using that(1) by (intro mult_left_mono) (simp_all add: word_less_nat_alt)
    then show ?thesis using that(2) by simp
  qed
  consider "x < y" | "y < x" | "x = y" by (rule linorder_cases)
  then show ?case
  proof cases
    case 1
    then have "compare_digits (x # xs) (y # ys) = - 1" by simp
    then show ?thesis unfolding v sgn_nat_diff(1) [OF lt [OF 1 b(1), of ys]] .
  next
    case 2
    then have "compare_digits (x # xs) (y # ys) = 1" by simp
    then show ?thesis unfolding v sgn_nat_diff(2) [OF lt [OF 2 b(2), of xs]] .
  next
    case 3
    have "int (uval (rev xs) + B * unat x) - int (uval (rev ys) + B * unat x) = int (uval (rev xs)) - int (uval (rev ys))"
      unfolding of_nat_add by simp
    then show ?thesis using Cons.IH 3 unfolding v by (simp only: compare_digits.simps less_irrefl if_False)
  qed
qed

lemma CompareTo_sgn: "length a = length b \<Longrightarrow> CompareTo a b = sgn (int (uval a) - int (uval b))"
  by (simp add: CompareTo_def compare_digits_sgn)

lemma bit_top: "m < 2 ^ Suc k \<Longrightarrow> bit m k \<longleftrightarrow> 2 ^ k \<le> m" for m :: nat
proof -
  assume m: "m < 2 ^ Suc k"
  show ?thesis
  proof (cases "2 ^ k \<le> m")
    case True
    then have "m div 2 ^ k = 1" using m by (intro div_nat_eqI) simp_all
    then show ?thesis using True by (simp add: bit_iff_odd)
  next
    case False
    then show ?thesis by (simp add: bit_iff_odd)
  qed
qed

lemma top_bit_bounds:
  "w \<noteq> 0 \<Longrightarrow> unat w < 2 ^ Suc n \<Longrightarrow> n < 32 \<Longrightarrow>
     2 ^ (top_bit w n - 1) \<le> unat w \<and> unat w < 2 ^ top_bit w n \<and> 0 < top_bit w n"
proof (induction n)
  case 0
  then show ?case by (simp add: word_unat_eq_iff)
next
  case (Suc n)
  have b: "w AND push_bit (Suc n) 1 \<noteq> 0 \<longleftrightarrow> 2 ^ Suc n \<le> unat w"
    using Suc.prems and_exp_eq_0_iff_not_bit [of w "Suc n"] bit_top [of "unat w" "Suc n"]
    by (simp add: push_bit_of_1 bit_unsigned_iff)
  show ?case
  proof (cases "2 ^ Suc n \<le> unat w")
    case True
    then show ?thesis using Suc.prems b by simp
  next
    case False
    then show ?thesis using Suc b by (simp only: top_bit.simps) simp
  qed
qed

lemma bits_digits_bounds:
  "if uval (rev xs) = 0 then bits_digits xs = 0
   else 2 ^ (bits_digits xs - 1) \<le> uval (rev xs) \<and> uval (rev xs) < 2 ^ bits_digits xs \<and> 0 < bits_digits xs"
proof (induction xs)
  case Nil
  then show ?case by simp
next
  case (Cons x xs)
  define B where "B = (2 ^ (32 * length xs) :: nat)"
  have v: "uval (rev (x # xs)) = uval (rev xs) + B * unat x" by (simp add: uval_append B_def)
  have b: "uval (rev xs) < B" "0 < B" using uval_less [of "rev xs"] by (simp_all add: B_def)
  show ?case
  proof (cases "x = 0")
    case True
    then show ?thesis using Cons unfolding v by (simp split: if_split_asm)
  next
    case False
    define t where "t = top_bit x 31"
    have t: "2 ^ (t - 1) \<le> unat x" "unat x + 1 \<le> 2 ^ t" "0 < t"
      using top_bit_bounds [OF False, of 31] unat_lt2p [of x] by (simp_all add: t_def)
    have bd: "bits_digits (x # xs) = 32 * length xs + t" using False by (simp add: t_def)
    have "B * 2 ^ (t - 1) \<le> B * unat x" using t(1) by (rule mult_left_mono) simp
    then have lo: "2 ^ (32 * length xs + t - 1) \<le> uval (rev (x # xs))"
      using t(3) unfolding v B_def by (simp add: power_add [symmetric])
    have "B * (unat x + 1) \<le> B * 2 ^ t" using t(2) by (rule mult_left_mono) simp
    then have hi: "uval (rev (x # xs)) < 2 ^ (32 * length xs + t)"
      using b unfolding v by (simp add: power_add B_def)
    have "0 < unat x" using False by (simp add: unat_gt_0)
    then show ?thesis using lo hi t(3) b(2) unfolding bd v by simp
  qed
qed

lemma base_uint_bits_0: "base_uint_bits a = 0 \<longleftrightarrow> uval a = 0"
  using bits_digits_bounds [of "rev a"] by (auto simp: base_uint_bits_def split: if_splits)

lemma base_uint_bits_bounds:
  "uval a \<noteq> 0 \<Longrightarrow> 2 ^ (base_uint_bits a - 1) \<le> uval a \<and> uval a < 2 ^ base_uint_bits a"
  using bits_digits_bounds [of "rev a"] by (simp add: base_uint_bits_def)

lemma uval_set_bit:
  assumes "length pn = WIDTH" "s < 256" "\<not> bit (uval pn) s"
  shows "uval (pn[s div 32 := pn ! (s div 32) OR push_bit (s mod 32) 1]) = uval pn + 2 ^ s"
proof -
  have s: "s div 32 < length pn" using assms by auto
  have "uval (pn[s div 32 := pn ! (s div 32) OR push_bit (s mod 32) 1]) = uval pn OR push_bit s 1"
  proof (rule bit_eqI)
    fix n
    have eq: "n = s" if "n div 32 = s div 32" "n mod 32 = s mod 32" using that by (metis mod_div_mult_eq)
    show "bit (uval (pn[s div 32 := pn ! (s div 32) OR push_bit (s mod 32) 1])) n = bit (uval pn OR push_bit s 1) n"
      using s eq by (cases "n div 32 = s div 32")
        (auto simp: bit_uval bit_or_iff bit_push_bit_iff nth_list_update bit_exp_iff)
  qed
  also have "\<dots> = uval pn + push_bit s 1"
    using assms(3) by (intro disjunctive_add [symmetric]) (auto simp: bit_push_bit_iff bit_exp_iff)
  finally show ?thesis by (simp add: push_bit_of_1)
qed

lemma CompareTo_ge: "length a = length b \<Longrightarrow> CompareTo a b \<ge> 0 \<longleftrightarrow> uval b \<le> uval a"
  by (simp add: CompareTo_sgn sgn_if)

lemma div_loop_value:
  assumes "0 < D"
  shows "length num = WIDTH \<Longrightarrow> length d = WIDTH \<Longrightarrow> length pn = WIDTH \<Longrightarrow> n \<le> 256 \<Longrightarrow>
    (n \<noteq> 0 \<longrightarrow> uval d = D * 2 ^ (n - 1)) \<Longrightarrow> uval num < D * 2 ^ n \<Longrightarrow> 2 ^ n dvd uval pn \<Longrightarrow>
    uval (div_loop n num d pn) = uval pn + uval num div D"
proof (induction n arbitrary: num d pn)
  case 0
  then show ?case by simp
next
  case (Suc s)
  have d: "uval d = D * 2 ^ s" using Suc.prems(5) by simp
  have d': "s \<noteq> 0 \<longrightarrow> uval (base_uint_shr d 1) = D * 2 ^ (s - 1)"
    unfolding uval_shr [OF Suc.prems(2)] d by (cases s) simp_all
  have ge: "CompareTo num d \<ge> 0 \<longleftrightarrow> D * 2 ^ s \<le> uval num"
    using Suc.prems(1,2) d by (simp add: CompareTo_ge)
  have dvd: "2 ^ s dvd uval pn" using Suc.prems(7) by (rule dvd_trans [rotated]) simp
  show ?case
  proof (cases "D * 2 ^ s \<le> uval num")
    case True
    define num' where "num' = base_uint_sub num d"
    define pn' where "pn' = pn[s div 32 := pn ! (s div 32) OR push_bit (s mod 32) 1]"
    have num': "uval num' = uval num - D * 2 ^ s" "length num' = WIDTH"
      using True Suc.prems(1,2) d by (simp_all add: num'_def uval_sub_le uval_sub)
    have "\<not> bit (uval pn) s" using Suc.prems(7) by (auto simp: bit_iff_odd elim!: dvdE)
    then have pn': "uval pn' = uval pn + 2 ^ s" using uval_set_bit Suc.prems(3,4) by (simp add: pn'_def)
    have "uval (div_loop s num' (base_uint_shr d 1) pn') = uval pn' + uval num' div D"
      using Suc.prems dvd d' num' pn' by (intro Suc.IH) (simp_all add: pn'_def)
    moreover have "uval num = uval num' + 2 ^ s * D" using num'(1) True by (simp add: mult.commute)
    then have "uval num div D = uval num' div D + 2 ^ s" using assms by simp
    moreover have "div_loop (Suc s) num d pn = div_loop s num' (base_uint_shr d 1) pn'"
      using ge True unfolding div_loop.simps Let_def num'_def pn'_def by (simp only: if_True)
    ultimately show ?thesis unfolding pn' by simp
  next
    case False
    have "uval (div_loop s num (base_uint_shr d 1) pn) = uval pn + uval num div D"
      using Suc.prems dvd d' False by (intro Suc.IH) simp_all
    then show ?thesis using ge False by (simp add: Let_def)
  qed
qed

lemma uval_less_256: "length a = WIDTH \<Longrightarrow> uval a < 2 ^ 256"
  using uval_less [of a] by simp

lemma uval_div:
  assumes a: "length a = WIDTH" and b: "length b = WIDTH" "uval b \<noteq> 0"
  shows "\<exists>q. base_uint_div a b = Ret q \<and> uval q = uval a div uval b"
proof -
  let ?na = "base_uint_bits a" and ?nb = "base_uint_bits b"
  have zero: "uval (base_uint_of 0) = 0" unfolding base_uint_of_def uval.simps uval_zeros by simp
  have nb: "?nb \<noteq> 0" "2 ^ (?nb - 1) \<le> uval b" using b base_uint_bits_0 base_uint_bits_bounds by auto
  have na: "uval a < 2 ^ ?na" using base_uint_bits_bounds [of a] by (cases "uval a = 0") auto
  show ?thesis
  proof (cases "?nb > ?na")
    case True
    have "(2 :: nat) ^ ?na \<le> 2 ^ (?nb - 1)" using True by (intro power_increasing) simp_all
    with na have "uval a < 2 ^ (?nb - 1)" by (rule less_le_trans)
    then have "uval a div uval b = 0" using nb(2) by simp
    then show ?thesis using True nb(1) by (simp add: base_uint_div_def Let_def zero)
  next
    case False
    define s where "s = ?na - ?nb"
    have nz: "uval a \<noteq> 0" using False nb(1) base_uint_bits_0 [of a] by auto
    have na256: "?na \<le> 256"
    proof (rule ccontr)
      assume "\<not> ?na \<le> 256"
      then have "(2 :: nat) ^ 256 \<le> 2 ^ (?na - 1)" by (intro power_increasing) auto
      then show False using base_uint_bits_bounds [OF nz] uval_less_256 [OF a] by linarith
    qed
    have "uval b * 2 ^ s < 2 ^ ?nb * 2 ^ s" using base_uint_bits_bounds [OF b(2)] by simp
    also have "\<dots> = 2 ^ ?na" using False by (simp add: s_def power_add [symmetric])
    also have "\<dots> \<le> 2 ^ 256" using na256 by (rule power_increasing) simp
    finally have d: "uval (base_uint_shl b s) = uval b * 2 ^ s" unfolding uval_shl [OF b(1)] by (rule mod_less)
    have "?na = ?nb - 1 + Suc s" using False nb(1) by (simp add: s_def)
    then have "(2 :: nat) ^ ?na = 2 ^ (?nb - 1) * 2 ^ Suc s" by (simp only: power_add)
    also have "\<dots> \<le> uval b * 2 ^ Suc s" using nb(2) by (rule mult_right_mono) simp
    finally have "uval a < uval b * 2 ^ Suc s" using na by (rule less_le_trans [rotated])
    moreover have "Suc s \<le> 256" using na256 nb(1) by (simp add: s_def)
    ultimately have "uval (div_loop (Suc s) a (base_uint_shl b s) (base_uint_of 0)) =
        uval (base_uint_of 0) + uval a div uval b"
      using a b d zero by (intro div_loop_value) simp_all
    then show ?thesis using False nb(1) zero by (simp add: base_uint_div_def Let_def s_def del: div_loop.simps)
  qed
qed

section \<open>Byte order\<close>

lemma ReadLE32_WriteLE32_append: "ReadLE32 (WriteLE32 x @ r) = x"
  by (simp add: ReadLE32_def WriteLE32_def le_word_le_bytes)

lemma UintToArith256_ArithToUint256:
  assumes "length a = WIDTH"
  shows "UintToArith256 (ArithToUint256 a) = a" "length (ArithToUint256 a) = 32"
proof -
  obtain a0 a1 a2 a3 a4 a5 a6 a7 where a: "a = [a0, a1, a2, a3, a4, a5, a6, a7]"
    using assms by (auto simp: length_Suc_conv numeral_eq_Suc)
  have "[0..<WIDTH] = [0, 1, 2, 3, 4, 5, 6, 7]" by (simp add: upt_rec)
  then show "UintToArith256 (ArithToUint256 a) = a"
    using ReadLE32_WriteLE32_append [of a7 "[]"]
    by (simp add: a UintToArith256_def ArithToUint256_def byte_simps ReadLE32_WriteLE32_append)
  show "length (ArithToUint256 a) = 32" by (simp add: a ArithToUint256_def byte_simps)
qed

text \<open>
  C26. The 256-bit arithmetic is arithmetic modulo the 256th power of two: sums, differences,
  products with a word or a big integer and left shifts wrap, right shifts and quotients round
  down, the comparison is the numeric one, the bit count is that of the number, division by zero
  is the only error, and the conversion to a hash and back is the identity.
\<close>

theorem base_uint_arithmetic:
  assumes "length a = WIDTH" "length b = WIDTH"
  shows "uval (base_uint_add a b) = (uval a + uval b) mod 2 ^ 256 \<and>
    uval (base_uint_sub a b) = (uval a + 2 ^ 256 - uval b) mod 2 ^ 256 \<and>
    uval (base_uint_mul32 a w) = unat w * uval a mod 2 ^ 256 \<and>
    uval (base_uint_mul a b) = uval a * uval b mod 2 ^ 256 \<and>
    uval (base_uint_shl a s) = uval a * 2 ^ s mod 2 ^ 256 \<and>
    uval (base_uint_shr a s) = uval a div 2 ^ s \<and>
    (if uval b = 0 then base_uint_div a b = Throw (runtime_error ''Division by zero'')
     else \<exists>q. base_uint_div a b = Ret q \<and> uval q = uval a div uval b) \<and>
    CompareTo a b = sgn (int (uval a) - int (uval b)) \<and>
    (if uval a = 0 then base_uint_bits a = 0
     else 2 ^ (base_uint_bits a - 1) \<le> uval a \<and> uval a < 2 ^ base_uint_bits a) \<and>
    UintToArith256 (ArithToUint256 a) = a"
proof (intro conjI)
  have e: "32 * length a = 256" "32 * length b = 256" using assms by simp_all
  show "uval (base_uint_add a b) = (uval a + uval b) mod 2 ^ 256"
    using uval_add [of a b] assms unfolding e by simp
  show "uval (base_uint_sub a b) = (uval a + 2 ^ 256 - uval b) mod 2 ^ 256"
    using uval_sub(1) [of a b] assms unfolding e by simp
  show "uval (base_uint_mul32 a w) = unat w * uval a mod 2 ^ 256" using uval_mul32 [of a w] unfolding e .
  show "if uval b = 0 then base_uint_div a b = Throw (runtime_error ''Division by zero'')
     else \<exists>q. base_uint_div a b = Ret q \<and> uval q = uval a div uval b"
    using uval_div [OF assms] by (simp add: base_uint_div_def base_uint_bits_0)
  show "if uval a = 0 then base_uint_bits a = 0
     else 2 ^ (base_uint_bits a - 1) \<le> uval a \<and> uval a < 2 ^ base_uint_bits a"
    using base_uint_bits_0 base_uint_bits_bounds by simp
qed (use assms in \<open>simp_all only: uval_mul uval_shl uval_shr CompareTo_sgn UintToArith256_ArithToUint256\<close>)

lemma base_uint_arithmetic_witness:
  "uval (base_uint_add (replicate 8 0xffffffff) (3 # replicate 7 0)) =
     (uval (replicate 8 0xffffffff) + uval (3 # replicate 7 0)) mod 2 ^ 256 \<and>
   (\<exists>q. base_uint_div (replicate 8 0xffffffff) (3 # replicate 7 0) = Ret q \<and>
     uval q = uval (replicate 8 0xffffffff) div uval (3 # replicate 7 0))"
  using base_uint_arithmetic [of "replicate 8 0xffffffff" "3 # replicate 7 0"]
  by (simp only: length_replicate list.size) simp

end
