(* ===== verification/Sv2_Messages.thy ===== *)
theory Sv2_Messages
  imports Sv2_Primitives Arith_Uint256
begin

text \<open>
  The Stratum v2 messages of the template distribution protocol (\<^verbatim>\<open>src/src/sv2/messages.h\<close>,
  \<^verbatim>\<open>src/src/sv2/messages.cpp\<close>): their fields, the encodings the template provider writes, the
  decodings it applies to what clients send, the 6-byte message header and the form in which
  messages travel between the connection manager and the transport.
\<close>

section \<open>Message types\<close>

text \<open>
  The scoped enumeration has \<^verbatim>\<open>uint8_t\<close> as its underlying type and is filled by
  \<^verbatim>\<open>static_cast\<close> from any byte, so a message type is a byte with ten named values.
\<close>

type_synonym sv2_msg_type = u8

definition SETUP_CONNECTION :: sv2_msg_type where "SETUP_CONNECTION = 0x00"
definition SETUP_CONNECTION_SUCCESS :: sv2_msg_type where "SETUP_CONNECTION_SUCCESS = 0x01"
definition SETUP_CONNECTION_ERROR :: sv2_msg_type where "SETUP_CONNECTION_ERROR = 0x02"
definition NEW_TEMPLATE :: sv2_msg_type where "NEW_TEMPLATE = 0x71"
definition SET_NEW_PREV_HASH :: sv2_msg_type where "SET_NEW_PREV_HASH = 0x72"
definition REQUEST_TRANSACTION_DATA :: sv2_msg_type where "REQUEST_TRANSACTION_DATA = 0x73"
definition REQUEST_TRANSACTION_DATA_SUCCESS :: sv2_msg_type where "REQUEST_TRANSACTION_DATA_SUCCESS = 0x74"
definition REQUEST_TRANSACTION_DATA_ERROR :: sv2_msg_type where "REQUEST_TRANSACTION_DATA_ERROR = 0x75"
definition SUBMIT_SOLUTION :: sv2_msg_type where "SUBMIT_SOLUTION = 0x76"
definition COINBASE_OUTPUT_CONSTRAINTS :: sv2_msg_type where "COINBASE_OUTPUT_CONSTRAINTS = 0x70"

lemmas msg_type_defs = SETUP_CONNECTION_def SETUP_CONNECTION_SUCCESS_def SETUP_CONNECTION_ERROR_def
  NEW_TEMPLATE_def SET_NEW_PREV_HASH_def REQUEST_TRANSACTION_DATA_def REQUEST_TRANSACTION_DATA_SUCCESS_def
  REQUEST_TRANSACTION_DATA_ERROR_def SUBMIT_SOLUTION_def COINBASE_OUTPUT_CONSTRAINTS_def

definition SV2_MSG_NAMES :: "(sv2_msg_type \<times> string) list" where
  "SV2_MSG_NAMES =
     [(SETUP_CONNECTION, ''SetupConnection''),
      (SETUP_CONNECTION_SUCCESS, ''SetupConnectionSuccess''),
      (SETUP_CONNECTION_ERROR, ''SetupConnectionError''),
      (NEW_TEMPLATE, ''NewTemplate''),
      (SET_NEW_PREV_HASH, ''SetNewPrevHash''),
      (REQUEST_TRANSACTION_DATA, ''RequestTransactionData''),
      (REQUEST_TRANSACTION_DATA_SUCCESS, ''RequestTransactionData.Success''),
      (REQUEST_TRANSACTION_DATA_ERROR, ''RequestTransactionData.Error''),
      (SUBMIT_SOLUTION, ''SubmitSolution''),
      (COINBASE_OUTPUT_CONSTRAINTS, ''CoinbaseOutputConstraints'')]"

section \<open>Messages of the client\<close>

record sv2_setup_connection =
  sc_protocol :: u8
  sc_min_version :: u16
  sc_max_version :: u16
  sc_flags :: u32
  sc_endpoint_host :: bytes
  sc_endpoint_port :: u16
  sc_vendor :: bytes
  sc_hardware_version :: bytes
  sc_firmware :: bytes
  sc_device_id :: bytes

definition Unserialize_SetupConnection :: "sv2_setup_connection reader" where
  "Unserialize_SetupConnection =
     rd_bind ser_readdata8 (\<lambda>protocol. rd_bind ser_readdata16 (\<lambda>min_version.
     rd_bind ser_readdata16 (\<lambda>max_version. rd_bind ser_readdata32 (\<lambda>flags.
     rd_bind Unserialize_string (\<lambda>host. rd_bind ser_readdata16 (\<lambda>port.
     rd_bind Unserialize_string (\<lambda>vendor. rd_bind Unserialize_string (\<lambda>hardware.
     rd_bind Unserialize_string (\<lambda>firmware. rd_bind Unserialize_string (\<lambda>device.
     rd_return \<lparr>sc_protocol = protocol, sc_min_version = min_version, sc_max_version = max_version,
       sc_flags = flags, sc_endpoint_host = host, sc_endpoint_port = port, sc_vendor = vendor,
       sc_hardware_version = hardware, sc_firmware = firmware, sc_device_id = device\<rparr>))))))))))"

record sv2_coinbase_output_constraints =
  co_max_additional_size :: u32
  co_max_additional_sigops :: u16

definition Serialize_CoinbaseOutputConstraints :: "sv2_coinbase_output_constraints \<Rightarrow> bytes" where
  "Serialize_CoinbaseOutputConstraints m =
     ser_writedata32 (co_max_additional_size m) @ ser_writedata16 (co_max_additional_sigops m)"

text \<open>The second field is younger than some clients: when it cannot be read its default is used.\<close>

definition rd_catch :: "'a reader \<Rightarrow> 'a \<Rightarrow> 'a reader" where
  "rd_catch m d s = (case m s of Throw e \<Rightarrow> Ret (d, s) | r \<Rightarrow> r)"

definition Unserialize_CoinbaseOutputConstraints :: "sv2_coinbase_output_constraints reader" where
  "Unserialize_CoinbaseOutputConstraints =
     rd_bind ser_readdata32 (\<lambda>size. rd_bind (rd_catch ser_readdata16 400) (\<lambda>sigops.
     rd_return \<lparr>co_max_additional_size = size, co_max_additional_sigops = sigops\<rparr>))"

definition Unserialize_RequestTransactionData :: "u64 reader" where
  "Unserialize_RequestTransactionData = ser_readdata64"

record sv2_submit_solution =
  ss_template_id :: u64
  ss_version :: u32
  ss_header_timestamp :: u32
  ss_header_nonce :: u32
  ss_coinbase_tx :: transaction

definition Unserialize_SubmitSolution :: "sv2_submit_solution reader" where
  "Unserialize_SubmitSolution =
     rd_bind ser_readdata64 (\<lambda>id. rd_bind ser_readdata32 (\<lambda>version.
     rd_bind ser_readdata32 (\<lambda>timestamp. rd_bind ser_readdata32 (\<lambda>nonce.
     rd_bind (DataStream_ignore 2) (\<lambda>_. rd_bind (UnserializeTransaction True) (\<lambda>tx.
     rd_return \<lparr>ss_template_id = id, ss_version = version, ss_header_timestamp = timestamp,
       ss_header_nonce = nonce, ss_coinbase_tx = tx\<rparr>))))))"

section \<open>Messages of the template provider\<close>

record sv2_setup_connection_success =
  scs_used_version :: u16
  scs_flags :: u32

definition Serialize_SetupConnectionSuccess :: "sv2_setup_connection_success \<Rightarrow> bytes" where
  "Serialize_SetupConnectionSuccess m = ser_writedata16 (scs_used_version m) @ ser_writedata32 (scs_flags m)"

record sv2_setup_connection_error =
  sce_flags :: u32
  sce_error_code :: bytes

definition Serialize_SetupConnectionError :: "sv2_setup_connection_error \<Rightarrow> bytes" where
  "Serialize_SetupConnectionError m = ser_writedata32 (sce_flags m) @ Serialize_string (sce_error_code m)"

record sv2_new_template =
  nt_template_id :: u64
  nt_future_template :: bool
  nt_version :: u32
  nt_coinbase_tx_version :: u32
  nt_coinbase_prefix :: bytes
  nt_coinbase_tx_input_sequence :: u32
  nt_coinbase_tx_value_remaining :: u64
  nt_coinbase_tx_outputs_count :: u32
  nt_coinbase_tx_outputs :: "ctxout list"
  nt_coinbase_tx_locktime :: u32
  nt_merkle_path :: "bytes list"

text \<open>The two-byte length in front of a byte string (\<^verbatim>\<open>B0_64K\<close>); the size is cut to 16 bits.\<close>

definition B0_64K :: "bytes \<Rightarrow> bytes" where
  "B0_64K b = ser_writedata16 (of_nat (length b)) @ b"

definition Serialize_NewTemplate :: "sv2_new_template \<Rightarrow> bytes" where
  "Serialize_NewTemplate m =
     ser_writedata64 (nt_template_id m) @ Serialize_bool (nt_future_template m) @
     ser_writedata32 (nt_version m) @ ser_writedata32 (nt_coinbase_tx_version m) @
     Serialize_bytevec (nt_coinbase_prefix m) @ ser_writedata32 (nt_coinbase_tx_input_sequence m) @
     ser_writedata64 (nt_coinbase_tx_value_remaining m) @ ser_writedata32 (nt_coinbase_tx_outputs_count m) @
     (if nt_coinbase_tx_outputs_count m > 0
      then B0_64K (concat (map Serialize_CTxOut (nt_coinbase_tx_outputs m)))
      else ser_writedata16 0) @
     ser_writedata32 (nt_coinbase_tx_locktime m) @ VectorFormatter_Ser id (nt_merkle_path m)"

definition OP_RETURN :: u8 where "OP_RETURN = 0x6a"

definition CURRENT_VERSION :: u32 where "CURRENT_VERSION = 2"

text \<open>A coinbase without inputs or outputs would be read out of range, which is an abort here.\<close>

definition Sv2NewTemplateMsg ::
  "cblockheader \<Rightarrow> transaction \<Rightarrow> bytes list \<Rightarrow> u64 \<Rightarrow> bool \<Rightarrow> sv2_new_template res" where
  "Sv2NewTemplateMsg header coinbase_tx coinbase_merkle_path template_id future_template =
     (let outputs = filter (\<lambda>x. scriptPubKey x \<noteq> [] \<and> scriptPubKey x ! 0 = OP_RETURN) (vout coinbase_tx) in
      case (vin coinbase_tx, vout coinbase_tx) of
        (i # _, x # _) \<Rightarrow> Ret
          \<lparr>nt_template_id = template_id, nt_future_template = future_template, nt_version = nVersion header,
           nt_coinbase_tx_version = CURRENT_VERSION, nt_coinbase_prefix = scriptSig i,
           nt_coinbase_tx_input_sequence = nSequence i, nt_coinbase_tx_value_remaining = nValue x,
           nt_coinbase_tx_outputs_count = of_nat (length outputs), nt_coinbase_tx_outputs = outputs,
           nt_coinbase_tx_locktime = nLockTime coinbase_tx, nt_merkle_path = coinbase_merkle_path\<rparr>
      | _ \<Rightarrow> Abort ''coinbase_tx: out of range'')"

record sv2_set_new_prev_hash =
  snp_template_id :: u64
  snp_prev_hash :: bytes
  snp_header_timestamp :: u32
  snp_nBits :: u32
  snp_target :: bytes

definition Serialize_SetNewPrevHash :: "sv2_set_new_prev_hash \<Rightarrow> bytes" where
  "Serialize_SetNewPrevHash m =
     ser_writedata64 (snp_template_id m) @ snp_prev_hash m @ ser_writedata32 (snp_header_timestamp m) @
     ser_writedata32 (snp_nBits m) @ snp_target m"

definition Sv2SetNewPrevHashMsg :: "cblockheader \<Rightarrow> u64 \<Rightarrow> sv2_set_new_prev_hash" where
  "Sv2SetNewPrevHashMsg header template_id =
     \<lparr>snp_template_id = template_id, snp_prev_hash = hashPrevBlock header, snp_header_timestamp = nTime header,
      snp_nBits = nBits header, snp_target = ArithToUint256 (fst (SetCompact (nBits header)))\<rparr>"

record sv2_request_transaction_data_success =
  rts_template_id :: u64
  rts_excess_data :: bytes
  rts_transactions_list :: "transaction list"

definition u24_bytes :: "u32 \<Rightarrow> bytes" where
  "u24_bytes n = [ucast (n AND 0xff), ucast (drop_bit 8 n AND 0xff), ucast (drop_bit 16 n AND 0xff)]"

definition B0_16M :: "bytes \<Rightarrow> bytes" where
  "B0_16M b = u24_bytes (of_nat (length b)) @ b"

definition Serialize_RequestTransactionDataSuccess :: "sv2_request_transaction_data_success \<Rightarrow> bytes" where
  "Serialize_RequestTransactionDataSuccess m =
     ser_writedata64 (rts_template_id m) @
     (if rts_excess_data m = [] then ser_writedata16 0 else B0_64K (rts_excess_data m)) @
     ser_writedata16 (of_nat (length (rts_transactions_list m))) @
     concat (map (\<lambda>tx. B0_16M (SerializeTransaction True tx)) (rts_transactions_list m))"

record sv2_request_transaction_data_error =
  rte_template_id :: u64
  rte_error_code :: bytes

definition Serialize_RequestTransactionDataError :: "sv2_request_transaction_data_error \<Rightarrow> bytes" where
  "Serialize_RequestTransactionDataError m =
     ser_writedata64 (rte_template_id m) @ Serialize_string (rte_error_code m)"

section \<open>Header and framing\<close>

record sv2_net_header =
  h_msg_type :: sv2_msg_type
  h_msg_len :: u32

definition Sv2NetHeader_Serialize :: "sv2_net_header \<Rightarrow> bytes" where
  "Sv2NetHeader_Serialize h =
     ser_writedata16 0 @ ser_writedata8 (h_msg_type h) @ u24_bytes (h_msg_len h)"

definition Sv2NetHeader_Unserialize :: "sv2_net_header reader" where
  "Sv2NetHeader_Unserialize =
     rd_bind (DataStream_ignore 2) (\<lambda>_. rd_bind ser_readdata8 (\<lambda>msg_type.
     rd_bind ser_readdata8 (\<lambda>l0. rd_bind ser_readdata8 (\<lambda>l1. rd_bind ser_readdata8 (\<lambda>l2.
     let len = ucast l2; len = push_bit 8 len OR ucast l1; len = push_bit 8 len OR ucast l0 in
     rd_return \<lparr>h_msg_type = msg_type, h_msg_len = len\<rparr>)))))"

record sv2_net_msg =
  m_msg_type :: sv2_msg_type
  m_msg :: bytes

definition Sv2NetMsg_header :: "sv2_net_msg \<Rightarrow> sv2_net_header" where
  "Sv2NetMsg_header m = \<lparr>h_msg_type = m_msg_type m, h_msg_len = of_nat (length (m_msg m))\<rparr>"

definition Sv2NetMsg_Serialize :: "sv2_net_msg \<Rightarrow> bytes" where
  "Sv2NetMsg_Serialize m = ser_writedata8 (m_msg_type m) @ m_msg m"

definition Sv2NetMsg_Unserialize :: "sv2_net_msg reader" where
  "Sv2NetMsg_Unserialize =
     rd_bind ser_readdata8 (\<lambda>t s.
       rd_bind (DataStream_read (DataStream_size s)) (\<lambda>msg. rd_return \<lparr>m_msg_type = t, m_msg = msg\<rparr>) s)"

text \<open>The wrappers that carry a message through the interfaces shared with the other transports.\<close>

record c_serialized_net_msg =
  csn_data :: bytes
  csn_m_type :: string

definition to_CSerializedNetMsg :: "sv2_net_msg \<Rightarrow> c_serialized_net_msg" where
  "to_CSerializedNetMsg m = \<lparr>csn_data = Sv2NetMsg_Serialize m, csn_m_type = ''''\<rparr>"

definition of_CSerializedNetMsg :: "c_serialized_net_msg \<Rightarrow> sv2_net_msg res" where
  "of_CSerializedNetMsg net_msg =
     res_bind (Assume (csn_m_type net_msg = '''') ''net_msg.m_type'')
       (\<lambda>_. res_bind (Sv2NetMsg_Unserialize (DataStream (csn_data net_msg))) (\<lambda>(m, _). Ret m))"

definition of_CNetMessage :: "data_stream \<Rightarrow> sv2_net_msg res" where
  "of_CNetMessage m_recv = res_bind (Sv2NetMsg_Unserialize m_recv) (\<lambda>(m, _). Ret m)"

section \<open>Stratum v2 data types\<close>

text \<open>
  Readers for the data types of the Stratum v2 specification, which a client applies to what the
  template provider writes: byte strings with a length of one, two or three bytes and sequences
  with a count of one or two bytes.
\<close>

definition sv2_B0_255 :: "bytes reader" where
  "sv2_B0_255 = rd_bind ser_readdata8 (\<lambda>n. DataStream_read (unat n))"

definition sv2_B0_64K :: "bytes reader" where
  "sv2_B0_64K = rd_bind ser_readdata16 (\<lambda>n. DataStream_read (unat n))"

definition sv2_U24 :: "u32 reader" where
  "sv2_U24 = rd_bind (DataStream_read 3) (\<lambda>b. rd_return (le_word b))"

definition sv2_B0_16M :: "bytes reader" where
  "sv2_B0_16M = rd_bind sv2_U24 (\<lambda>n. DataStream_read (unat n))"

definition sv2_SEQ0_255 :: "'a reader \<Rightarrow> 'a list reader" where
  "sv2_SEQ0_255 un = rd_bind ser_readdata8 (\<lambda>n. Unser_elems un (unat n))"

definition sv2_SEQ0_64K :: "'a reader \<Rightarrow> 'a list reader" where
  "sv2_SEQ0_64K un = rd_bind ser_readdata16 (\<lambda>n. Unser_elems un (unat n))"

text \<open>A field whose bytes are an encoding of their own, which they must fill.\<close>

definition sv2_nested :: "bytes reader \<Rightarrow> 'a reader \<Rightarrow> 'a reader" where
  "sv2_nested field un = rd_bind field (\<lambda>b.
     case un (DataStream b) of
       Ret (x, s) \<Rightarrow> if ds_rest s = [] then rd_return x else rd_throw (ios_failure ''trailing bytes'')
     | _ \<Rightarrow> rd_throw (ios_failure ''malformed field''))"

definition sv2_NewTemplate :: "sv2_new_template reader" where
  "sv2_NewTemplate =
     rd_bind ser_readdata64 (\<lambda>id. rd_bind Unserialize_bool (\<lambda>future.
     rd_bind ser_readdata32 (\<lambda>version. rd_bind ser_readdata32 (\<lambda>cb_version.
     rd_bind sv2_B0_255 (\<lambda>prefix. rd_bind ser_readdata32 (\<lambda>sequence.
     rd_bind ser_readdata64 (\<lambda>remaining. rd_bind ser_readdata32 (\<lambda>count.
     rd_bind (sv2_nested sv2_B0_64K (Unser_elems Unserialize_CTxOut (unat count))) (\<lambda>outputs.
     rd_bind ser_readdata32 (\<lambda>locktime. rd_bind (sv2_SEQ0_255 (DataStream_read 32)) (\<lambda>path.
     rd_return \<lparr>nt_template_id = id, nt_future_template = future, nt_version = version,
       nt_coinbase_tx_version = cb_version, nt_coinbase_prefix = prefix,
       nt_coinbase_tx_input_sequence = sequence, nt_coinbase_tx_value_remaining = remaining,
       nt_coinbase_tx_outputs_count = count, nt_coinbase_tx_outputs = outputs,
       nt_coinbase_tx_locktime = locktime, nt_merkle_path = path\<rparr>)))))))))))"

definition sv2_RequestTransactionDataSuccess :: "sv2_request_transaction_data_success reader" where
  "sv2_RequestTransactionDataSuccess =
     rd_bind ser_readdata64 (\<lambda>id. rd_bind sv2_B0_64K (\<lambda>excess.
     rd_bind (sv2_SEQ0_64K (sv2_nested sv2_B0_16M (UnserializeTransaction True))) (\<lambda>txs.
     rd_return \<lparr>rts_template_id = id, rts_excess_data = excess, rts_transactions_list = txs\<rparr>)))"

section \<open>Lemmas on the data types\<close>

lemma WriteCompactSize_byte: "n < 253 \<Longrightarrow> WriteCompactSize (of_nat n) = ser_writedata8 (of_nat n)"
proof -
  assume n: "n < 253"
  then have "(of_nat n :: u64) < 253" by (simp add: word_less_nat_alt unat_of_nat_eq)
  moreover have "ucast (of_nat n :: u64) = (of_nat n :: u8)"
    using n by (simp add: word_unat_eq_iff unat_ucast_mod unat_of_nat_eq)
  ultimately show ?thesis by (simp add: WriteCompactSize_def)
qed

lemma reads_counted:
  assumes "unat (of_nat n :: 'a::len word) = n" "reads rd (wr (of_nat n)) (of_nat n :: 'a word)" "reads (k n) b x"
  shows "reads (rd_bind rd (\<lambda>c. k (unat c))) (wr (of_nat n) @ b) x"
  by (rule reads_bind [OF assms(2) _ refl]) (simp add: assms)

lemma reads_B0_255: "length b < 253 \<Longrightarrow> reads sv2_B0_255 (Serialize_bytevec b) b"
  unfolding sv2_B0_255_def Serialize_bytevec_def
  by (simp add: WriteCompactSize_byte)
    (intro reads_counted reads_data reads_read refl, simp add: unat_of_nat_eq)

lemma reads_B0_64K: "length b < 2 ^ 16 \<Longrightarrow> reads sv2_B0_64K (B0_64K b) b"
  unfolding sv2_B0_64K_def B0_64K_def
  by (intro reads_counted reads_data reads_read refl) (simp add: unat_of_nat_eq)

lemma ucast_and_255: "(ucast (x AND 0xff) :: u8) = ucast (x :: u32)"
proof -
  have "(0xff :: u32) = mask 8" by (simp add: mask_eq_exp_minus_1)
  then have "x AND 0xff = take_bit 8 x" by (simp only: take_bit_eq_mask)
  then show ?thesis by (simp only: word_unat_eq_iff unat_ucast_mod unsigned_take_bit_eq) (simp add: take_bit_eq_mod)
qed

lemma u24_bytes_le: "u24_bytes n = le_bytes 3 n"
  by (simp add: u24_bytes_def le_bytes_def ucast_and_255 upt_rec)

lemma le_word_u24: "le_word (u24_bytes n) = take_bit 24 n"
proof (rule bit_eqI)
  fix k :: nat
  have "k div 8 < 3 \<longleftrightarrow> k < 24" by auto
  then show "bit (le_word (u24_bytes n) :: u32) k = bit (take_bit 24 n) k"
    by (cases "k < 24") (simp_all add: u24_bytes_le bit_le_word bit_le_bytes_nth bit_take_bit_iff)
qed

lemma u24_small: "n < 2 ^ 24 \<Longrightarrow> take_bit 24 n = n" for n :: u32
  by (simp only: word_unat_eq_iff unsigned_take_bit_eq) (simp add: take_bit_nat_eq_self word_less_nat_alt)

lemma reads_U24: "reads sv2_U24 (u24_bytes n) (take_bit 24 n)"
  unfolding sv2_U24_def
  by (rule reads_fixed) (simp_all add: le_word_u24, simp add: u24_bytes_le)

lemma reads_B0_16M:
  assumes "length b < 2 ^ 24" shows "reads sv2_B0_16M (B0_16M b) b"
proof -
  have u: "unat (of_nat (length b) :: u32) = length b" using assms by (simp add: unat_of_nat_eq)
  then have "(of_nat (length b) :: u32) < 2 ^ 24" using assms by (simp add: word_less_nat_alt)
  then have "reads sv2_U24 (u24_bytes (of_nat (length b))) (of_nat (length b))"
    using reads_U24 [of "of_nat (length b)"] by (simp add: u24_small)
  then show ?thesis unfolding sv2_B0_16M_def B0_16M_def
    by (rule reads_bind [OF _ reads_read refl]) (simp add: u)
qed

lemma reads_nested:
  assumes "reads field e b" "reads un b x" "length b < 2 ^ 64"
  shows "reads (sv2_nested field un) e x"
proof -
  obtain s where s: "un (DataStream b) = Ret (x, s)" "ds_rest s = []"
    using reads_DataStream [OF assms(2,3)] by blast
  show ?thesis unfolding sv2_nested_def
    by (rule reads_bind [OF assms(1), where c = "[]"]) (simp_all add: s reads_return)
qed

lemma reads_SEQ0_255:
  assumes "length xs < 253" "reads (Unser_elems un (length xs)) b xs"
  shows "reads (sv2_SEQ0_255 un) (WriteCompactSize (of_nat (length xs)) @ b) xs"
  unfolding sv2_SEQ0_255_def WriteCompactSize_byte [OF assms(1)]
  by (intro reads_counted reads_data assms(2)) (use assms(1) in \<open>simp add: unat_of_nat_eq\<close>)

lemma reads_SEQ0_64K:
  assumes "length xs < 2 ^ 16" "reads (Unser_elems un (length xs)) b xs"
  shows "reads (sv2_SEQ0_64K un) (ser_writedata16 (of_nat (length xs)) @ b) xs"
  unfolding sv2_SEQ0_64K_def
  by (intro reads_counted reads_data assms(2)) (use assms(1) in \<open>simp add: unat_of_nat_eq\<close>)

lemma reads_elems_map:
  assumes "\<And>x. x \<in> set xs \<Longrightarrow> reads un (w x) x"
  shows "reads (Unser_elems un (length xs)) (concat (map w xs)) xs"
  using assms
proof (induction xs)
  case Nil
  then show ?case by (simp add: reads_return)
next
  case (Cons x xs)
  then have "reads un (w x) x" "reads (Unser_elems un (length xs)) (concat (map w xs)) xs" by simp_all
  then show ?case by (auto intro!: reads_bind reads_last)
qed

section \<open>Header\<close>

lemma u24_of_bytes:
  "push_bit 8 (push_bit 8 (ucast l2) OR ucast l1) OR ucast l0 = (le_word [l0, l1, l2] :: u32)"
  by (simp add: or.commute)

lemma reads_Sv2NetHeader:
  assumes "length ext = 2"
  shows "reads Sv2NetHeader_Unserialize (ext @ ser_writedata8 (h_msg_type h) @ u24_bytes (h_msg_len h))
    (h\<lparr>h_msg_len := take_bit 24 (h_msg_len h)\<rparr>)"
proof -
  obtain l0 l1 l2 where l: "u24_bytes (h_msg_len h) = [l0, l1, l2]" by (simp add: u24_bytes_def)
  then have len: "push_bit 8 (push_bit 8 (ucast l2) OR ucast l1) OR ucast l0 = take_bit 24 (h_msg_len h)"
    unfolding u24_of_bytes using le_word_u24 [of "h_msg_len h"] by simp
  have e: "u24_bytes (h_msg_len h) = ser_writedata8 l0 @ ser_writedata8 l1 @ ser_writedata8 l2"
    by (simp add: l ser_writedata8_def)
  show ?thesis unfolding Sv2NetHeader_Unserialize_def e
    by (rule reads_bind [OF reads_ignore _ refl], simp add: assms, rule reads_bind [OF reads_data(1) _ refl],
        rule reads_bind [OF reads_data(1) _ refl], rule reads_bind [OF reads_data(1) _ refl],
        unfold Let_def, rule reads_last [OF reads_data(1)], unfold len) simp
qed

lemma Sv2NetHeader_Unserialize_Ret:
  assumes "ds_wf st" "Sv2NetHeader_Unserialize st = Ret (h, st')"
  shows "ds_wf st' \<and> h_msg_len h < 2 ^ 24 \<and>
    (\<exists>ext. length ext = 2 \<and>
      ds_rest st = ext @ ser_writedata8 (h_msg_type h) @ u24_bytes (h_msg_len h) @ ds_rest st')"
proof -
  have rd: "\<exists>x s'. DataStream_read 2 st = Ret (x, s') \<and> DataStream_ignore 2 st = Ret ((), s')"
    if "DataStream_ignore 2 st = Ret ((), s'')" for s''
    using that assms(1) DataStream_ignore_read [OF assms(1), of 2]
    by (auto simp: DataStream_read_def DataStream_ignore_def CheckedAdd_def Let_def split: if_splits)
  obtain u s1 t s2 l0 s3 l1 s4 l2 where 1: "DataStream_ignore 2 st = Ret (u, s1)"
    and 2: "ser_readdata8 s1 = Ret (t, s2)" and 3: "ser_readdata8 s2 = Ret (l0, s3)"
    and 4: "ser_readdata8 s3 = Ret (l1, s4)" and 5: "ser_readdata8 s4 = Ret (l2, st')"
    and h: "h = \<lparr>h_msg_type = t, h_msg_len = push_bit 8 (push_bit 8 (ucast l2) OR ucast l1) OR ucast l0\<rparr>"
    using assms(2) by (auto simp: Sv2NetHeader_Unserialize_def rd_bind_Ret Let_def)
  obtain ext where ext: "DataStream_read 2 st = Ret (ext, s1)" using rd [of s1] 1 by auto
  note c8 = canonD [OF canon_data(1)]
  have s1: "ds_wf s1" "ds_rest st = ext @ ds_rest s1" "length ext = 2"
    using canonD [OF canon_read assms(1) ext] DataStream_read_length [OF assms(1) ext] by auto
  have l: "h_msg_len h = le_word [l0, l1, l2]" unfolding h u24_of_bytes by simp
  have u: "u24_bytes (h_msg_len h) = [l0, l1, l2]"
    unfolding l u24_bytes_le using le_bytes_le_word [of "[l0, l1, l2]", where ?'a = 32] by (simp add: numeral_3_eq_3)
  have "h_msg_len h = take_bit 24 (h_msg_len h)" using le_word_u24 [of "h_msg_len h"] unfolding u by (simp only: l)
  then have "unat (h_msg_len h) < 2 ^ 24" by (metis take_bit_nat_less_exp unsigned_take_bit_eq)
  then have "h_msg_len h < 2 ^ 24" by (simp add: word_less_nat_alt)
  moreover have "ds_wf st' \<and> ds_rest s1 = ser_writedata8 t @ u24_bytes (h_msg_len h) @ ds_rest st'"
    using c8 [OF s1(1) 2] c8 [OF _ 3] c8 [OF _ 4] c8 [OF _ 5] unfolding u by (auto simp: ser_writedata8_def)
  ultimately show ?thesis using s1 h by auto
qed

section \<open>SetupConnection\<close>

text \<open>What a client writes: the fields in order.\<close>

definition Serialize_SetupConnection :: "sv2_setup_connection \<Rightarrow> bytes" where
  "Serialize_SetupConnection m =
     ser_writedata8 (sc_protocol m) @ ser_writedata16 (sc_min_version m) @ ser_writedata16 (sc_max_version m) @
     ser_writedata32 (sc_flags m) @ Serialize_string (sc_endpoint_host m) @ ser_writedata16 (sc_endpoint_port m) @
     Serialize_string (sc_vendor m) @ Serialize_string (sc_hardware_version m) @
     Serialize_string (sc_firmware m) @ Serialize_string (sc_device_id m)"

definition wf_setup_connection :: "sv2_setup_connection \<Rightarrow> bool" where
  "wf_setup_connection m \<longleftrightarrow>
     length (sc_endpoint_host m) \<le> unat MAX_SIZE \<and> length (sc_vendor m) \<le> unat MAX_SIZE \<and>
     length (sc_hardware_version m) \<le> unat MAX_SIZE \<and> length (sc_firmware m) \<le> unat MAX_SIZE \<and>
     length (sc_device_id m) \<le> unat MAX_SIZE"

interpretation setup_codec: codec Serialize_SetupConnection Unserialize_SetupConnection wf_setup_connection
  unfolding Serialize_SetupConnection_def [abs_def] Unserialize_SetupConnection_def
  by (intro codec_field [OF u8_codec.codec_axioms] codec_field [OF u16_codec.codec_axioms]
      codec_field [OF u32_codec.codec_axioms] codec_field [OF string_codec.codec_axioms]
      codec_last [OF string_codec.codec_axioms])
    (auto simp: wf_setup_connection_def)

section \<open>NewTemplate\<close>

text \<open>
  Templates whose variable parts fit the fields of the specification: a coinbase prefix and a merkle
  path of less than 253 elements, for which the compact size is one byte, and less than 64 KiB of
  outputs.
\<close>

definition wf_new_template :: "sv2_new_template \<Rightarrow> bool" where
  "wf_new_template m \<longleftrightarrow>
     length (nt_coinbase_prefix m) < 253 \<and>
     length (nt_coinbase_tx_outputs m) < 2 ^ 32 \<and>
     nt_coinbase_tx_outputs_count m = of_nat (length (nt_coinbase_tx_outputs m)) \<and>
     (\<forall>x \<in> set (nt_coinbase_tx_outputs m). wf_ctxout x) \<and>
     length (concat (map Serialize_CTxOut (nt_coinbase_tx_outputs m))) < 2 ^ 16 \<and>
     length (nt_merkle_path m) < 253 \<and> (\<forall>h \<in> set (nt_merkle_path m). length h = 32)"

lemma reads_outputs:
  assumes "wf_new_template m"
  shows "reads (sv2_nested sv2_B0_64K (Unser_elems Unserialize_CTxOut (unat (nt_coinbase_tx_outputs_count m))))
    (if nt_coinbase_tx_outputs_count m > 0
     then B0_64K (concat (map Serialize_CTxOut (nt_coinbase_tx_outputs m))) else ser_writedata16 0)
    (nt_coinbase_tx_outputs m)"
proof -
  let ?o = "nt_coinbase_tx_outputs m"
  have c: "unat (nt_coinbase_tx_outputs_count m) = length ?o"
    using assms by (simp add: wf_new_template_def unat_of_nat_eq)
  have b: "length (concat (map Serialize_CTxOut ?o)) < 2 ^ 16" using assms by (simp add: wf_new_template_def)
  have "(if nt_coinbase_tx_outputs_count m > 0 then B0_64K (concat (map Serialize_CTxOut ?o)) else ser_writedata16 0) =
      B0_64K (concat (map Serialize_CTxOut ?o))"
  proof (cases "?o = []")
    case True
    then show ?thesis using c by (simp add: B0_64K_def)
  next
    case False
    then have "0 < unat (nt_coinbase_tx_outputs_count m)" using c by simp
    then show ?thesis by (simp add: word_less_nat_alt)
  qed
  moreover have "reads (Unser_elems Unserialize_CTxOut (length ?o)) (concat (map Serialize_CTxOut ?o)) ?o"
    using assms by (intro reads_elems_map txout_codec.reads_un) (simp add: wf_new_template_def)
  ultimately show ?thesis unfolding c using b
    by (simp only:) (rule reads_nested [OF reads_B0_64K], simp_all)
qed

lemma reads_merkle_path:
  assumes "wf_new_template m"
  shows "reads (sv2_SEQ0_255 (DataStream_read 32)) (VectorFormatter_Ser id (nt_merkle_path m)) (nt_merkle_path m)"
  unfolding VectorFormatter_Ser_def using assms
  by (intro reads_SEQ0_255 reads_elems_map) (simp_all add: wf_new_template_def reads_read)

lemma reads_NewTemplate:
  assumes "wf_new_template m"
  shows "reads sv2_NewTemplate (Serialize_NewTemplate m) m"
proof -
  have p: "reads sv2_B0_255 (Serialize_bytevec (nt_coinbase_prefix m)) (nt_coinbase_prefix m)"
    using assms by (simp add: reads_B0_255 wf_new_template_def)
  show ?thesis unfolding sv2_NewTemplate_def Serialize_NewTemplate_def
    by (rule reads_bind [OF reads_data(4) _ refl], rule reads_bind [OF reads_bool _ refl],
        rule reads_bind [OF reads_data(3) _ refl], rule reads_bind [OF reads_data(3) _ refl],
        rule reads_bind [OF p _ refl], rule reads_bind [OF reads_data(3) _ refl],
        rule reads_bind [OF reads_data(4) _ refl], rule reads_bind [OF reads_data(3) _ refl],
        rule reads_bind [OF reads_outputs [OF assms] _ refl], rule reads_bind [OF reads_data(3) _ refl],
        rule reads_last [OF reads_merkle_path [OF assms]]) simp
qed

section \<open>RequestTransactionData.Success\<close>

definition wf_transaction_data :: "sv2_request_transaction_data_success \<Rightarrow> bool" where
  "wf_transaction_data m \<longleftrightarrow>
     length (rts_excess_data m) < 2 ^ 16 \<and> length (rts_transactions_list m) < 2 ^ 16 \<and>
     (\<forall>tx \<in> set (rts_transactions_list m). wf_transaction tx \<and> length (SerializeTransaction True tx) < 2 ^ 24)"

lemma reads_RequestTransactionDataSuccess:
  assumes "wf_transaction_data m"
  shows "reads sv2_RequestTransactionDataSuccess (Serialize_RequestTransactionDataSuccess m) m"
proof -
  have "(if rts_excess_data m = [] then ser_writedata16 0 else B0_64K (rts_excess_data m)) = B0_64K (rts_excess_data m)"
    by (simp add: B0_64K_def)
  then have x: "reads sv2_B0_64K (if rts_excess_data m = [] then ser_writedata16 0 else B0_64K (rts_excess_data m))
      (rts_excess_data m)"
    using assms by (simp add: reads_B0_64K wf_transaction_data_def)
  have "reads (sv2_nested sv2_B0_16M (UnserializeTransaction True)) (B0_16M (SerializeTransaction True tx)) tx"
    if "tx \<in> set (rts_transactions_list m)" for tx
    using assms that by (intro reads_nested [OF reads_B0_16M tx_codec.reads_un]) (auto simp: wf_transaction_data_def)
  then have "reads (sv2_SEQ0_64K (sv2_nested sv2_B0_16M (UnserializeTransaction True)))
      (ser_writedata16 (of_nat (length (rts_transactions_list m))) @
       concat (map (\<lambda>tx. B0_16M (SerializeTransaction True tx)) (rts_transactions_list m))) (rts_transactions_list m)"
    using assms by (intro reads_SEQ0_64K reads_elems_map) (auto simp: wf_transaction_data_def)
  then show ?thesis unfolding sv2_RequestTransactionDataSuccess_def Serialize_RequestTransactionDataSuccess_def
    by (rule reads_bind [OF reads_data(4) reads_bind [OF x reads_last refl] refl]) simp
qed

section \<open>SubmitSolution\<close>

text \<open>What a client writes, with the coinbase transaction as a \<^verbatim>\<open>B0_64K\<close> field.\<close>

definition sv2_SubmitSolution_bytes :: "sv2_submit_solution \<Rightarrow> bytes" where
  "sv2_SubmitSolution_bytes m =
     ser_writedata64 (ss_template_id m) @ ser_writedata32 (ss_version m) @
     ser_writedata32 (ss_header_timestamp m) @ ser_writedata32 (ss_header_nonce m) @
     B0_64K (SerializeTransaction True (ss_coinbase_tx m))"

lemma reads_SubmitSolution:
  assumes "wf_transaction (ss_coinbase_tx m)"
  shows "reads Unserialize_SubmitSolution (sv2_SubmitSolution_bytes m) m"
proof -
  have i: "reads (DataStream_ignore 2) (ser_writedata16 x) ()" for x
    by (rule reads_ignore) (simp add: ser_writedata16_def)
  show ?thesis unfolding Unserialize_SubmitSolution_def sv2_SubmitSolution_bytes_def B0_64K_def
    by (rule reads_bind [OF reads_data(4) _ refl], rule reads_bind [OF reads_data(3) _ refl],
        rule reads_bind [OF reads_data(3) _ refl], rule reads_bind [OF reads_data(3) _ refl],
        rule reads_bind [OF i _ refl], rule reads_last [OF tx_codec.reads_un [OF assms]]) simp
qed

section \<open>CoinbaseOutputConstraints and framing\<close>

lemma CoinbaseOutputConstraints_short:
  assumes "ds_wf st" "ds_rest st = ser_writedata32 n @ r" "length r < 2"
  shows "\<exists>st'. Unserialize_CoinbaseOutputConstraints st =
    Ret (\<lparr>co_max_additional_size = n, co_max_additional_sigops = 400\<rparr>, st')"
proof -
  obtain s1 where s1: "ser_readdata32 st = Ret (n, s1)" "ds_wf s1" "ds_rest s1 = r"
    using readsD [OF reads_data(3) assms(1,2)] by blast
  have "DataStream_read 2 s1 = Throw (ios_failure ''DataStream::read(): end of data'')"
    using s1 assms(3) by (intro DataStream_read_short) simp_all
  then have "rd_catch ser_readdata16 400 s1 = Ret (400, s1)"
    by (simp add: rd_catch_def ser_readdata16_def rd_bind_def)
  then show ?thesis by (simp add: Unserialize_CoinbaseOutputConstraints_def rd_bind_def s1 rd_return_def)
qed

lemma CoinbaseOutputConstraints_full:
  assumes "ds_wf st" "ds_rest st = Serialize_CoinbaseOutputConstraints m @ r"
  shows "\<exists>st'. Unserialize_CoinbaseOutputConstraints st = Ret (m, st')"
proof -
  obtain s1 where s1: "ser_readdata32 st = Ret (co_max_additional_size m, s1)" "ds_wf s1"
      "ds_rest s1 = ser_writedata16 (co_max_additional_sigops m) @ r"
    using readsD [OF reads_data(3) assms(1), of "co_max_additional_size m"] assms(2)
    by (auto simp: Serialize_CoinbaseOutputConstraints_def)
  obtain s2 where "ser_readdata16 s1 = Ret (co_max_additional_sigops m, s2)"
    using readsD [OF reads_data(2) s1(2,3)] by blast
  then show ?thesis by (simp add: Unserialize_CoinbaseOutputConstraints_def rd_bind_def s1 rd_return_def rd_catch_def)
qed

lemma reads_Sv2NetMsg_all:
  assumes "ds_wf st" "ds_rest st = Sv2NetMsg_Serialize m"
  shows "\<exists>st'. Sv2NetMsg_Unserialize st = Ret (m, st')"
proof -
  obtain s1 where s1: "ser_readdata8 st = Ret (m_msg_type m, s1)" "ds_wf s1" "ds_rest s1 = m_msg m"
    using readsD [OF reads_data(1) assms(1)] assms(2) unfolding Sv2NetMsg_Serialize_def by blast
  obtain s2 where "DataStream_read (DataStream_size s1) s1 = Ret (m_msg m, s2)"
    using DataStream_read_ok [OF s1(2), of "DataStream_size s1"] s1(3) by (auto simp: DataStream_size_rest)
  then show ?thesis by (simp add: Sv2NetMsg_Unserialize_def rd_bind_def s1 rd_return_def)
qed

lemma of_to_CSerializedNetMsg:
  "length (m_msg m) < 2 ^ 64 - 1 \<Longrightarrow> of_CSerializedNetMsg (to_CSerializedNetMsg m) = Ret m"
  using reads_Sv2NetMsg_all [of "DataStream (Sv2NetMsg_Serialize m)" m]
  by (auto simp: of_CSerializedNetMsg_def to_CSerializedNetMsg_def Sv2NetMsg_Serialize_def ser_writedata8_def)

lemma of_CNetMessage_type:
  assumes "ds_wf st" "ds_rest st = t # msg"
  shows "of_CNetMessage st = Ret \<lparr>m_msg_type = t, m_msg = msg\<rparr>"
  using reads_Sv2NetMsg_all [of st "\<lparr>m_msg_type = t, m_msg = msg\<rparr>"] assms
  by (auto simp: of_CNetMessage_def Sv2NetMsg_Serialize_def ser_writedata8_def)

section \<open>Properties\<close>


definition sample_template :: sv2_new_template where
  "sample_template = \<lparr>nt_template_id = 5, nt_future_template = True, nt_version = 0x20000000,
     nt_coinbase_tx_version = 2, nt_coinbase_prefix = [3, 1, 2, 3], nt_coinbase_tx_input_sequence = - 1,
     nt_coinbase_tx_value_remaining = 312500000, nt_coinbase_tx_outputs_count = 1,
     nt_coinbase_tx_outputs = [\<lparr>nValue = 0, scriptPubKey = [OP_RETURN, 1, 7]\<rparr>], nt_coinbase_tx_locktime = 0,
     nt_merkle_path = [zeros 32, zeros 32]\<rparr>"


text \<open>
  C22. A client decodes the transactions it asked for: the list of a \<^verbatim>\<open>RequestTransactionData.Success\<close>
  message is read back by the data types of the specification, each transaction with its witness,
  when there are less than 65536 of them and each takes less than 16 MiB.
\<close>

theorem RequestTransactionDataSuccess_wire:
  assumes "wf_transaction_data m" "ds_wf st" "ds_rest st = Serialize_RequestTransactionDataSuccess m @ rest"
  shows "\<exists>st'. sv2_RequestTransactionDataSuccess st = Ret (m, st') \<and> ds_rest st' = rest"
  by (rule readsD [OF reads_RequestTransactionDataSuccess [OF assms(1)] assms(2,3)]) blast

definition sample_transaction_data :: sv2_request_transaction_data_success where
  "sample_transaction_data =
     \<lparr>rts_template_id = 5, rts_excess_data = [], rts_transactions_list = [sample_tx, sample_tx]\<rparr>"

lemma RequestTransactionDataSuccess_wire_witness:
  "\<exists>st'. sv2_RequestTransactionDataSuccess (DataStream (Serialize_RequestTransactionDataSuccess sample_transaction_data @ [])) =
     Ret (sample_transaction_data, st') \<and> ds_rest st' = []"
proof (rule RequestTransactionDataSuccess_wire)
  show "wf_transaction_data sample_transaction_data"
    by (simp add: wf_transaction_data_def sample_transaction_data_def wf_sample_tx length_sample_tx)
  have "length (Serialize_RequestTransactionDataSuccess sample_transaction_data) = 216" by code_simp
  then show "ds_wf (DataStream (Serialize_RequestTransactionDataSuccess sample_transaction_data @ []))" by simp
qed simp

text \<open>
  C23. The solution of a client arrives: \<^verbatim>\<open>SubmitSolution\<close> returns the header fields and the coinbase
  transaction of the message, with its witness. The two length bytes in front of the transaction
  have no influence: any two bytes give the same result.
\<close>

theorem SubmitSolution_parse:
  assumes "wf_transaction (ss_coinbase_tx m)" "ds_wf st" "length len = 2"
    and "ds_rest st = ser_writedata64 (ss_template_id m) @ ser_writedata32 (ss_version m) @
      ser_writedata32 (ss_header_timestamp m) @ ser_writedata32 (ss_header_nonce m) @ len @
      SerializeTransaction True (ss_coinbase_tx m) @ rest"
  shows "\<exists>st'. Unserialize_SubmitSolution st = Ret (m, st') \<and> ds_rest st' = rest"
proof -
  have "reads Unserialize_SubmitSolution (ser_writedata64 (ss_template_id m) @ ser_writedata32 (ss_version m) @
      ser_writedata32 (ss_header_timestamp m) @ ser_writedata32 (ss_header_nonce m) @ len @
      SerializeTransaction True (ss_coinbase_tx m)) m"
    unfolding Unserialize_SubmitSolution_def
    by (rule reads_bind [OF reads_data(4) _ refl], rule reads_bind [OF reads_data(3) _ refl],
        rule reads_bind [OF reads_data(3) _ refl], rule reads_bind [OF reads_data(3) _ refl],
        rule reads_bind [OF reads_ignore _ refl], simp add: assms(3),
        rule reads_last [OF tx_codec.reads_un [OF assms(1)]]) simp
  from readsD [OF this assms(2), of rest] show ?thesis using assms(4) by auto
qed

definition sample_solution :: sv2_submit_solution where
  "sample_solution = \<lparr>ss_template_id = 5, ss_version = 0x20000000, ss_header_timestamp = 1700000000,
     ss_header_nonce = 42, ss_coinbase_tx = sample_tx\<rparr>"

lemma SubmitSolution_parse_witness:
  "\<exists>st'. Unserialize_SubmitSolution (DataStream (ser_writedata64 5 @ ser_writedata32 0x20000000 @
      ser_writedata32 1700000000 @ ser_writedata32 42 @ [0, 0] @ SerializeTransaction True sample_tx @ [])) =
     Ret (sample_solution, st') \<and> ds_rest st' = []"
proof (rule SubmitSolution_parse)
  show "wf_transaction (ss_coinbase_tx sample_solution)" by (simp add: sample_solution_def wf_sample_tx)
  show "ds_wf (DataStream (ser_writedata64 5 @ ser_writedata32 0x20000000 @
      ser_writedata32 1700000000 @ ser_writedata32 42 @ [0, 0] @ SerializeTransaction True sample_tx @ []))"
    by (simp add: length_sample_tx ser_writedata64_def ser_writedata32_def)
qed (simp_all add: sample_solution_def)


definition sample_setup :: sv2_setup_connection where
  "sample_setup = \<lparr>sc_protocol = 2, sc_min_version = 2, sc_max_version = 2, sc_flags = 0,
     sc_endpoint_host = [0x61], sc_endpoint_port = 8442, sc_vendor = [0x62, 0x63], sc_hardware_version = [],
     sc_firmware = [], sc_device_id = [0x64]\<rparr>"


text \<open>
  C25. The header of a message round-trips: type and length are read back for every length the
  24-bit field can hold, whatever the extension bytes, and every accepted header is of this form
  with a length below 16 MiB.
\<close>

theorem Sv2NetHeader_roundtrip:
  assumes "ds_wf st"
  shows "(\<exists>st'. Sv2NetHeader_Unserialize st = Ret (h, st') \<and> ds_rest st' = rest) \<longleftrightarrow>
    h_msg_len h < 2 ^ 24 \<and> (\<exists>ext. length ext = 2 \<and>
      ds_rest st = ext @ drop 2 (Sv2NetHeader_Serialize h) @ rest)"
proof -
  have d: "drop 2 (Sv2NetHeader_Serialize h) = ser_writedata8 (h_msg_type h) @ u24_bytes (h_msg_len h)"
    by (simp add: Sv2NetHeader_Serialize_def ser_writedata16_def)
  have h: "h\<lparr>h_msg_len := take_bit 24 (h_msg_len h)\<rparr> = h" if "h_msg_len h < 2 ^ 24"
    using that by (simp add: u24_small)
  show ?thesis unfolding d
    using Sv2NetHeader_Unserialize_Ret [OF assms, of h] readsD [OF reads_Sv2NetHeader [of _ h] assms] h
    by (metis append_assoc)
qed

lemma Sv2NetHeader_roundtrip_witness:
  "\<exists>st'. Sv2NetHeader_Unserialize (DataStream ([0, 0, 0x71, 1, 2, 0] @ [])) =
     Ret (\<lparr>h_msg_type = NEW_TEMPLATE, h_msg_len = 513\<rparr>, st') \<and> ds_rest st' = []"
proof -
  have "drop 2 (Sv2NetHeader_Serialize \<lparr>h_msg_type = NEW_TEMPLATE, h_msg_len = 513\<rparr>) = [0x71, 1, 2, 0]"
    by code_simp
  then show ?thesis
    using Sv2NetHeader_roundtrip [of "DataStream ([0, 0, 0x71, 1, 2, 0] @ [])"
        "\<lparr>h_msg_type = NEW_TEMPLATE, h_msg_len = 513\<rparr>" "[]"]
    by (auto intro!: exI [of _ "[0, 0]"])
qed

text \<open>
  C40. Strings of a client are read as compact sizes, while the specification gives them a length
  byte (\<^verbatim>\<open>STR0_255\<close>): up to 252 bytes the two agree, and a string of 254 or 255 bytes is never
  read as the client wrote it.
\<close>

theorem Unserialize_string_STR0_255:
  assumes "ds_wf st" "length b \<le> 255" "ds_rest st = of_nat (length b) # b @ rest"
  shows "if length b < 253 then \<exists>st'. Unserialize_string st = Ret (b, st') \<and> ds_rest st' = rest
    else length b \<noteq> 253 \<longrightarrow> \<not> (\<exists>st'. Unserialize_string st = Ret (b, st'))"
proof (cases "length b < 253")
  case True
  have "length b \<le> unat MAX_SIZE" using True by (simp add: MAX_SIZE_def)
  moreover have "Serialize_string b = of_nat (length b) # b"
    using True by (simp add: Serialize_string_def WriteCompactSize_byte ser_writedata8_def)
  ultimately show ?thesis using True assms readsD [OF string_codec.reads_un assms(1), of b rest] by auto
next
  case False
  have "hd (Serialize_string b) = 253"
    using False assms(2) by (simp add: Serialize_string_def WriteCompactSize_def word_less_nat_alt word_le_nat_alt
        unat_of_nat_eq ser_writedata8_def)
  moreover have "Serialize_string b \<noteq> []" by (simp add: Serialize_string_def WriteCompactSize_def ser_writedata8_def)
  ultimately have "hd (ds_rest st) = 253" if "Unserialize_string st = Ret (b, st')" for st'
    using Unserialize_string_Ret [OF assms(1) that] by simp
  moreover have "(of_nat (length b) :: u8) \<noteq> 253" if "length b \<noteq> 253"
    using that assms(2) by (auto simp: word_unat_eq_iff unat_of_nat_eq)
  ultimately show ?thesis using False assms(3) by auto
qed

lemma Unserialize_string_STR0_255_witness:
  "\<not> (\<exists>st'. Unserialize_string (DataStream (of_nat (length (zeros 254)) # zeros 254 @ [])) = Ret (zeros 254, st'))"
  using Unserialize_string_STR0_255 [of "DataStream (of_nat (length (zeros 254)) # zeros 254 @ [])" "zeros 254" "[]"]
  by simp

end
