(* ===== verification/Sv2_Transport.thy ===== *)
theory Sv2_Transport
  imports Sv2_Noise Sv2_Messages
begin

text \<open>
  The transport of a connection, \<^verbatim>\<open>src/src/sv2/transport.h\<close> and \<^verbatim>\<open>src/src/sv2/transport.cpp\<close>: the
  receive and send state machines, the handshake in both roles, the packet format (an encrypted
  header of 22 bytes, then the encrypted payload), and the send buffer.

  The class members are the fields of \<^verbatim>\<open>sv2_transport\<close>; the members that nothing reads
  (\<^verbatim>\<open>m_recv_aad\<close>, \<^verbatim>\<open>m_send_garbage\<close>, \<^verbatim>\<open>m_send_type\<close>), the locks, the log lines and the reserved
  capacity of the receive buffer are left out. A call that draws random bytes or reads the clock
  takes the draw \<^verbatim>\<open>d\<close> and the time \<^verbatim>\<open>now\<close>; \<^verbatim>\<open>S\<close> is the curve library.

  The lemmas show that an invariant ties buffer sizes to states, that no call aborts or throws
  while it holds, that cutting the incoming bytes differently changes nothing, and that what one
  end packs the other end unpacks.
\<close>

section \<open>State\<close>

definition SV2_HEADER_PLAIN_SIZE :: nat where "SV2_HEADER_PLAIN_SIZE = 6"
definition SV2_HEADER_ENCRYPTED_SIZE :: nat where
  "SV2_HEADER_ENCRYPTED_SIZE = SV2_HEADER_PLAIN_SIZE + TAGLEN"

lemmas transport_sizes = SV2_HEADER_PLAIN_SIZE_def SV2_HEADER_ENCRYPTED_SIZE_def TAGLEN_def
  ELLSWIFT_PUB_KEY_SIZE_def HANDSHAKE_STEP2_SIZE_def SIGNATURE_NOISE_MESSAGE_SIZE_def

datatype recv_state = RECV_HANDSHAKE_STEP_1 | RECV_HANDSHAKE_STEP_2 | RECV_APP | RECV_APP_READY

datatype send_state = SEND_HANDSHAKE_STEP_1 | SEND_HANDSHAKE_STEP_2 | SEND_READY

record sv2_transport =
  t_cipher :: sv2_cipher
  t_initiating :: bool
  t_recv_buffer :: bytes
  t_recv_state :: recv_state
  t_send_buffer :: bytes
  t_send_pos :: u32
  t_send_state :: send_state
  t_header :: sv2_net_header
  t_message :: sv2_net_msg

definition SetReceiveState :: "recv_state \<Rightarrow> sv2_transport \<Rightarrow> sv2_transport res" where
  "SetReceiveState recv_state t =
     res_bind (case t_recv_state t of
         RECV_HANDSHAKE_STEP_1 \<Rightarrow> Assume (recv_state = RECV_HANDSHAKE_STEP_2) ''recv_state''
       | RECV_HANDSHAKE_STEP_2 \<Rightarrow> Assume (recv_state = RECV_APP) ''recv_state''
       | RECV_APP \<Rightarrow> Assume (recv_state = RECV_APP_READY) ''recv_state''
       | RECV_APP_READY \<Rightarrow> Assume (recv_state = RECV_APP) ''recv_state'')
     (\<lambda>_. Ret (t\<lparr>t_recv_state := recv_state\<rparr>))"

definition SetSendState :: "send_state \<Rightarrow> sv2_transport \<Rightarrow> sv2_transport res" where
  "SetSendState send_state t =
     res_bind (case t_send_state t of
         SEND_HANDSHAKE_STEP_1 \<Rightarrow> Assume (send_state = SEND_HANDSHAKE_STEP_2) ''send_state''
       | SEND_HANDSHAKE_STEP_2 \<Rightarrow> Assume (send_state = SEND_READY) ''send_state''
       | SEND_READY \<Rightarrow> Assume False ''send_state'')
     (\<lambda>_. Ret (t\<lparr>t_send_state := send_state\<rparr>))"

section \<open>Construction and handshake\<close>

text \<open>
  \<^verbatim>\<open>m_message\<close> starts as the message that serializes a value-initialised header; \<^verbatim>\<open>m_header\<close>
  has no initialiser, so its first value is an argument.
\<close>

definition initial_message :: sv2_net_msg where
  "initial_message = \<lparr>m_msg_type = 0, m_msg = Sv2NetHeader_Serialize \<lparr>h_msg_type = 0, h_msg_len = 0\<rparr>\<rparr>"

definition transport_of :: "sv2_cipher \<Rightarrow> bool \<Rightarrow> recv_state \<Rightarrow> send_state \<Rightarrow> sv2_net_header \<Rightarrow> sv2_transport" where
  "transport_of c initiating rs ss hdr =
     \<lparr>t_cipher = c, t_initiating = initiating, t_recv_buffer = [], t_recv_state = rs,
      t_send_buffer = [], t_send_pos = 0, t_send_state = ss, t_header = hdr, t_message = initial_message\<rparr>"

definition Sv2Transport_responder ::
  "secp256k1 \<Rightarrow> draw \<Rightarrow> sv2_net_header \<Rightarrow> ckey \<Rightarrow> certificate \<Rightarrow> sv2_transport res" where
  "Sv2Transport_responder S d hdr static_key cert =
     noexcept (res_bind (Sv2Cipher_responder S d static_key cert) (\<lambda>c.
     Ret (transport_of c False RECV_HANDSHAKE_STEP_1 SEND_HANDSHAKE_STEP_2 hdr)))"

definition StartSendingHandshake :: "secp256k1 \<Rightarrow> draw \<Rightarrow> sv2_transport \<Rightarrow> sv2_transport res" where
  "StartSendingHandshake S d t =
     noexcept (res_bind (Assume (t_send_state t = SEND_HANDSHAKE_STEP_1) ''m_send_state'') (\<lambda>_.
     res_bind (Assume (t_send_buffer t = []) ''m_send_buffer'') (\<lambda>_.
     res_bind (GetHandshakeState (t_cipher t)) (\<lambda>hs.
     res_bind (WriteMsgEphemeralPK S d (zeros ELLSWIFT_PUB_KEY_SIZE) hs) (\<lambda>(msg, hs).
     Ret (t\<lparr>t_cipher := (t_cipher t)\<lparr>c_handshake_state := Some hs\<rparr>, t_send_buffer := msg,
            t_send_state := SEND_HANDSHAKE_STEP_2\<rparr>))))))"

definition Sv2Transport_initiator ::
  "secp256k1 \<Rightarrow> draw \<Rightarrow> draw \<Rightarrow> sv2_net_header \<Rightarrow> ckey \<Rightarrow> bytes \<Rightarrow> sv2_transport res" where
  "Sv2Transport_initiator S d d' hdr static_key authority_key =
     noexcept (res_bind (Sv2Cipher_initiator S d static_key authority_key) (\<lambda>c.
     StartSendingHandshake S d' (transport_of c True RECV_HANDSHAKE_STEP_2 SEND_HANDSHAKE_STEP_1 hdr)))"

definition SendHandshakeReply :: "secp256k1 \<Rightarrow> draw \<Rightarrow> sv2_transport \<Rightarrow> sv2_transport res" where
  "SendHandshakeReply S d t =
     noexcept (res_bind (Assume (t_send_state t = SEND_HANDSHAKE_STEP_2) ''m_send_state'') (\<lambda>_.
     res_bind (Assume (t_send_buffer t = []) ''m_send_buffer'') (\<lambda>_.
     res_bind (GetHandshakeState (t_cipher t)) (\<lambda>hs.
     res_bind (WriteMsgES S d (zeros HANDSHAKE_STEP2_SIZE) hs) (\<lambda>(msg, hs).
     res_bind (FinishHandshake ((t_cipher t)\<lparr>c_handshake_state := Some hs\<rparr>)) (\<lambda>c.
     res_bind (SetSendState SEND_READY (t\<lparr>t_cipher := c, t_send_buffer := msg\<rparr>)) (\<lambda>t.
     res_bind (Assume (t_recv_state t = RECV_HANDSHAKE_STEP_2) ''m_recv_state'') (\<lambda>_.
     SetReceiveState RECV_APP t))))))))"

section \<open>Sending\<close>

definition GetBytesToSend :: "bool \<Rightarrow> sv2_transport \<Rightarrow> (bytes \<times> bool) res" where
  "GetBytesToSend have_next_message t =
     res_bind (Assume (unat (t_send_pos t) \<le> length (t_send_buffer t)) ''m_send_pos'') (\<lambda>_.
     Ret (drop (unat (t_send_pos t)) (t_send_buffer t), have_next_message \<and> t_send_state t = SEND_READY))"

definition MarkBytesSent :: "nat \<Rightarrow> sv2_transport \<Rightarrow> sv2_transport res" where
  "MarkBytesSent bytes_sent t =
     (let pos = t_send_pos t + of_nat bytes_sent in
      res_bind (Assume (unat pos \<le> length (t_send_buffer t)) ''m_send_pos'') (\<lambda>_.
      if unat pos = length (t_send_buffer t) then Ret (t\<lparr>t_send_pos := 0, t_send_buffer := []\<rparr>)
      else Ret (t\<lparr>t_send_pos := pos\<rparr>)))"

text \<open>
  The header announces the size narrowed to 32 bits. The buffer is resized before the two
  encryptions write their parts of it, so a refused encryption leaves it filled.
\<close>

definition SetMessageToSend :: "c_serialized_net_msg \<Rightarrow> sv2_transport \<Rightarrow> (bool \<times> sv2_transport) res" where
  "SetMessageToSend msg t =
     (if t_send_state t \<noteq> SEND_READY then Ret (False, t)
      else if t_send_buffer t \<noteq> [] then Ret (False, t)
      else noexcept (res_bind (of_CSerializedNetMsg msg) (\<lambda>sv2_msg.
        let hdr = \<lparr>h_msg_type = m_msg_type sv2_msg, h_msg_len = of_nat (length (m_msg sv2_msg))\<rparr>;
            encrypted_msg_size = EncryptedMessageSize (length (m_msg sv2_msg));
            buffer = zeros ((SV2_HEADER_ENCRYPTED_SIZE + encrypted_msg_size) mod 2 ^ 64)
        in
        res_bind (Sv2Cipher_EncryptMessage (Sv2NetHeader_Serialize hdr)
            (take SV2_HEADER_ENCRYPTED_SIZE buffer) (t_cipher t)) (\<lambda>(ok, header_encrypted, c).
        let buffer = overwrite 0 header_encrypted buffer; t = t\<lparr>t_cipher := c, t_send_buffer := buffer\<rparr> in
        if \<not> ok then Ret (False, t)
        else
          res_bind (Sv2Cipher_EncryptMessage (m_msg sv2_msg)
            (take encrypted_msg_size (drop SV2_HEADER_ENCRYPTED_SIZE buffer)) (t_cipher t)) (\<lambda>(ok, payload_encrypted, c).
          Ret (ok, t\<lparr>t_cipher := c,
            t_send_buffer := overwrite SV2_HEADER_ENCRYPTED_SIZE payload_encrypted buffer\<rparr>))))))"

section \<open>Receiving\<close>

definition ProcessReceivedEphemeralKeyBytes ::
  "secp256k1 \<Rightarrow> draw \<Rightarrow> sv2_transport \<Rightarrow> (bool \<times> sv2_transport) res" where
  "ProcessReceivedEphemeralKeyBytes S d t =
     noexcept (res_bind (Assume (t_recv_state t = RECV_HANDSHAKE_STEP_1) ''m_recv_state'') (\<lambda>_.
     res_bind (Assume (length (t_recv_buffer t) \<le> ELLSWIFT_PUB_KEY_SIZE) ''m_recv_buffer'') (\<lambda>_.
     if length (t_recv_buffer t) = ELLSWIFT_PUB_KEY_SIZE then
       res_bind (GetHandshakeState (t_cipher t)) (\<lambda>hs.
       res_bind (ReadMsgEphemeralPK (t_recv_buffer t) hs) (\<lambda>hs.
       res_bind (SetReceiveState RECV_HANDSHAKE_STEP_2
         (t\<lparr>t_cipher := (t_cipher t)\<lparr>c_handshake_state := Some hs\<rparr>, t_recv_buffer := []\<rparr>)) (\<lambda>t.
       res_bind (Assume (length (t_send_buffer t) = 0) ''m_send_buffer'') (\<lambda>_.
       res_bind (SendHandshakeReply S d t) (\<lambda>t. Ret (True, t))))))
     else Ret (True, t))))"

definition ProcessReceivedHandshakeReplyBytes ::
  "secp256k1 \<Rightarrow> int \<Rightarrow> sv2_transport \<Rightarrow> (bool \<times> sv2_transport) res" where
  "ProcessReceivedHandshakeReplyBytes S now t =
     noexcept (res_bind (Assume (t_recv_state t = RECV_HANDSHAKE_STEP_2) ''m_recv_state'') (\<lambda>_.
     res_bind (Assume (length (t_recv_buffer t) \<le> HANDSHAKE_STEP2_SIZE) ''m_recv_buffer'') (\<lambda>_.
     if length (t_recv_buffer t) = HANDSHAKE_STEP2_SIZE then
       res_bind (GetHandshakeState (t_cipher t)) (\<lambda>hs.
       res_bind (ReadMsgES S now (t_recv_buffer t) hs) (\<lambda>(ok, hs).
       let t = t\<lparr>t_cipher := (t_cipher t)\<lparr>c_handshake_state := Some hs\<rparr>\<rparr> in
       if \<not> ok then Ret (False, t)
       else
         res_bind (FinishHandshake (t_cipher t)) (\<lambda>c.
         res_bind (SetReceiveState RECV_APP (t\<lparr>t_recv_buffer := [], t_cipher := c\<rparr>)) (\<lambda>t.
         res_bind (Assume (length (t_send_buffer t) = 0) ''m_send_buffer'') (\<lambda>_.
         res_bind (SetSendState SEND_READY t) (\<lambda>t. Ret (True, t)))))))
     else Ret (True, t))))"

text \<open>The last subtraction is one of \<^verbatim>\<open>size_t\<close> and would wrap.\<close>

definition GetMaxBytesToProcess :: "sv2_transport \<Rightarrow> nat res" where
  "GetMaxBytesToProcess t =
     (let size = length (t_recv_buffer t) in
      case t_recv_state t of
        RECV_HANDSHAKE_STEP_1 \<Rightarrow>
          res_bind (Assume (size \<le> ELLSWIFT_PUB_KEY_SIZE) ''m_recv_buffer'') (\<lambda>_. Ret (ELLSWIFT_PUB_KEY_SIZE - size))
      | RECV_HANDSHAKE_STEP_2 \<Rightarrow>
          res_bind (Assume (size \<le> HANDSHAKE_STEP2_SIZE) ''m_recv_buffer'') (\<lambda>_. Ret (HANDSHAKE_STEP2_SIZE - size))
      | RECV_APP \<Rightarrow>
          if size < SV2_HEADER_ENCRYPTED_SIZE then Ret (SV2_HEADER_ENCRYPTED_SIZE - size)
          else
            let expanded_size_with_header =
              (SV2_HEADER_ENCRYPTED_SIZE + EncryptedMessageSize (unat (h_msg_len (t_header t)))) mod 2 ^ 64
            in Ret ((expanded_size_with_header + 2 ^ 64 - size) mod 2 ^ 64)
      | RECV_APP_READY \<Rightarrow> Ret 0)"

definition MAX_CONTENTS_LEN :: nat where "MAX_CONTENTS_LEN = 16777215"

definition ProcessReceivedPacketBytes :: "sv2_transport \<Rightarrow> (bool \<times> sv2_transport) res" where
  "ProcessReceivedPacketBytes t =
     noexcept (res_bind (Assume (t_recv_state t = RECV_APP) ''m_recv_state'') (\<lambda>_.
     let size = length (t_recv_buffer t); msg_len = unat (h_msg_len (t_header t)) in
     res_bind (Assume (size \<le> SV2_HEADER_ENCRYPTED_SIZE \<or> msg_len > 0) ''m_msg_len'') (\<lambda>_.
     if size = SV2_HEADER_ENCRYPTED_SIZE then
       res_bind (Sv2Cipher_DecryptMessage (t_recv_buffer t) (zeros SV2_HEADER_PLAIN_SIZE) (t_cipher t))
         (\<lambda>(ok, header_plain, c).
       let t = t\<lparr>t_cipher := c\<rparr> in
       if \<not> ok then Ret (False, t)
       else
         res_bind (Sv2NetHeader_Unserialize (DataStream header_plain)) (\<lambda>(header, _).
         let t = t\<lparr>t_header := header\<rparr> in
         if unat (h_msg_len header) > MAX_CONTENTS_LEN then Ret (False, t)
         else if h_msg_len header = 0 then Ret (False, t)
         else Ret (True, t)))
     else if size > SV2_HEADER_ENCRYPTED_SIZE \<and>
             size = (SV2_HEADER_ENCRYPTED_SIZE + EncryptedMessageSize msg_len) mod 2 ^ 64 then
       res_bind (Sv2Cipher_DecryptMessage (drop SV2_HEADER_ENCRYPTED_SIZE (t_recv_buffer t)) (zeros msg_len)
         (t_cipher t)) (\<lambda>(ok, payload, c).
       let t = t\<lparr>t_cipher := c\<rparr> in
       if \<not> ok then Ret (False, t)
       else
         res_bind (SetReceiveState RECV_APP_READY
           (t\<lparr>t_recv_buffer := [], t_message := \<lparr>m_msg_type = h_msg_type (t_header t), m_msg = payload\<rparr>\<rparr>))
           (\<lambda>t. Ret (True, t)))
     else Ret (True, t))))"

text \<open>One switch of the receive loop, for the states that process bytes.\<close>

definition process_received :: "secp256k1 \<Rightarrow> int \<Rightarrow> draw \<Rightarrow> sv2_transport \<Rightarrow> (bool \<times> sv2_transport) res" where
  "process_received S now d t =
     (case t_recv_state t of
        RECV_HANDSHAKE_STEP_1 \<Rightarrow> ProcessReceivedEphemeralKeyBytes S d t
      | RECV_HANDSHAKE_STEP_2 \<Rightarrow> ProcessReceivedHandshakeReplyBytes S now t
      | RECV_APP \<Rightarrow> ProcessReceivedPacketBytes t
      | RECV_APP_READY \<Rightarrow> Ret (True, t))"

text \<open>
  \<^verbatim>\<open>ReceivedBytes\<close> returns whether the peer may go on, the bytes it did not take and the state.
  An iteration that takes no byte fails its assertion, so each one shortens the input.
\<close>

function ReceivedBytes ::
  "secp256k1 \<Rightarrow> int \<Rightarrow> draw \<Rightarrow> bytes \<Rightarrow> sv2_transport \<Rightarrow> (bool \<times> bytes \<times> sv2_transport) res" where
  "ReceivedBytes S now d msg_bytes t =
     (if msg_bytes = [] then Ret (True, [], t)
      else case GetMaxBytesToProcess t of
        Throw e \<Rightarrow> Abort ''std::terminate''
      | Abort m \<Rightarrow> Abort m
      | Ret limit \<Rightarrow>
          let max_read = min (length msg_bytes) limit;
              t = t\<lparr>t_recv_buffer := t_recv_buffer t @ take max_read msg_bytes\<rparr>;
              msg_bytes' = drop max_read msg_bytes
          in if t_recv_state t = RECV_APP_READY then Ret (True, msg_bytes', t)
             else (case process_received S now d t of
               Throw e \<Rightarrow> Abort ''std::terminate''
             | Abort m \<Rightarrow> Abort m
             | Ret (ok, t) \<Rightarrow>
                 if \<not> ok then Ret (False, msg_bytes', t)
                 else if max_read = 0 then Abort ''max_read > 0''
                 else ReceivedBytes S now d msg_bytes' t))"
  by pat_completeness auto
termination
  by (relation "measure (\<lambda>(S, now, d, msg_bytes, t). length msg_bytes)") auto

declare ReceivedBytes.simps [simp del]

definition ReceivedMessageComplete :: "sv2_transport \<Rightarrow> bool" where
  "ReceivedMessageComplete t \<longleftrightarrow> t_recv_state t = RECV_APP_READY"

text \<open>The message is handed out as the stream that \<^verbatim>\<open>Sv2NetMsg::operator CNetMessage\<close> fills.\<close>

definition GetReceivedMessage :: "sv2_transport \<Rightarrow> (data_stream \<times> sv2_transport) res" where
  "GetReceivedMessage t =
     noexcept (res_bind (Assume (t_recv_state t = RECV_APP_READY) ''m_recv_state'') (\<lambda>_.
     res_bind (SetReceiveState RECV_APP t) (\<lambda>t.
     Ret (DataStream (Sv2NetMsg_Serialize (t_message t)), t))))"

definition RecvStateAsString :: "recv_state \<Rightarrow> string" where
  "RecvStateAsString s = (case s of RECV_HANDSHAKE_STEP_1 \<Rightarrow> ''HANDSHAKE_STEP_1''
     | RECV_HANDSHAKE_STEP_2 \<Rightarrow> ''HANDSHAKE_STEP_2'' | RECV_APP \<Rightarrow> ''APP'' | RECV_APP_READY \<Rightarrow> ''APP_READY'')"

definition SendStateAsString :: "send_state \<Rightarrow> string" where
  "SendStateAsString s = (case s of SEND_HANDSHAKE_STEP_1 \<Rightarrow> ''HANDSHAKE_STEP_1''
     | SEND_HANDSHAKE_STEP_2 \<Rightarrow> ''HANDSHAKE_STEP_2'' | SEND_READY \<Rightarrow> ''READY'')"

section \<open>Invariant\<close>

text \<open>
  What holds between two calls: the send position is inside the send buffer, and each receive
  state goes with a send state, a bound on the received bytes and, during the handshake, with
  the keys its next step needs.
\<close>

definition packet_size :: "sv2_net_header \<Rightarrow> nat" where
  "packet_size h = SV2_HEADER_ENCRYPTED_SIZE + EncryptedMessageSize (unat (h_msg_len h))"

definition responder_ready :: "handshake_state \<Rightarrow> bool" where
  "responder_ready hs \<longleftrightarrow> hs_ephemeral_key hs = None \<and> hs_static_key hs \<noteq> None \<and>
     length (hs_static_ellswift_pk hs) = 64 \<and>
     (case hs_certificate hs of None \<Rightarrow> False | Some cert \<Rightarrow> length (cert_sig cert) = 64)"

definition initiator_ready :: "handshake_state \<Rightarrow> bool" where
  "initiator_ready hs \<longleftrightarrow> hs_ephemeral_key hs \<noteq> None \<and> hs_authority_pubkey hs \<noteq> None"

definition handshaking :: "(handshake_state \<Rightarrow> bool) \<Rightarrow> sv2_transport \<Rightarrow> bool" where
  "handshaking P t \<longleftrightarrow> (case c_handshake_state (t_cipher t) of None \<Rightarrow> False | Some hs \<Rightarrow> P hs)"

definition send_inv :: "sv2_transport \<Rightarrow> bool" where
  "send_inv t \<longleftrightarrow> length (t_send_buffer t) < 2 ^ 32 \<and>
     (t_send_buffer t = [] \<and> t_send_pos t = 0 \<or> unat (t_send_pos t) < length (t_send_buffer t))"

definition recv_limit :: "sv2_transport \<Rightarrow> nat" where
  "recv_limit t = (case t_recv_state t of
       RECV_HANDSHAKE_STEP_1 \<Rightarrow> ELLSWIFT_PUB_KEY_SIZE
     | RECV_HANDSHAKE_STEP_2 \<Rightarrow> HANDSHAKE_STEP2_SIZE
     | RECV_APP \<Rightarrow> if length (t_recv_buffer t) < SV2_HEADER_ENCRYPTED_SIZE then SV2_HEADER_ENCRYPTED_SIZE
                  else packet_size (t_header t)
     | RECV_APP_READY \<Rightarrow> 0)"

definition recv_inv :: "sv2_transport \<Rightarrow> bool" where
  "recv_inv t \<longleftrightarrow> (case t_recv_state t of
       RECV_HANDSHAKE_STEP_1 \<Rightarrow> t_send_state t = SEND_HANDSHAKE_STEP_2 \<and> t_send_buffer t = [] \<and>
         handshaking responder_ready t \<and> length (t_recv_buffer t) < ELLSWIFT_PUB_KEY_SIZE
     | RECV_HANDSHAKE_STEP_2 \<Rightarrow> t_send_state t = SEND_HANDSHAKE_STEP_2 \<and>
         handshaking initiator_ready t \<and> length (t_recv_buffer t) < HANDSHAKE_STEP2_SIZE
     | RECV_APP \<Rightarrow> t_send_state t = SEND_READY \<and>
         (length (t_recv_buffer t) < SV2_HEADER_ENCRYPTED_SIZE \<or>
          length (t_recv_buffer t) < packet_size (t_header t) \<and>
          0 < unat (h_msg_len (t_header t)) \<and> unat (h_msg_len (t_header t)) \<le> MAX_CONTENTS_LEN)
     | RECV_APP_READY \<Rightarrow> t_send_state t = SEND_READY \<and> t_recv_buffer t = [])"

definition transport_inv :: "sv2_transport \<Rightarrow> bool" where
  "transport_inv t \<longleftrightarrow> send_inv t \<and> recv_inv t"

text \<open>
  The initiator expects the reply only after its own key has left the send buffer; the code
  asserts it when the reply is complete.
\<close>

definition key_sent :: "sv2_transport \<Rightarrow> bool" where
  "key_sent t \<longleftrightarrow> (t_recv_state t = RECV_HANDSHAKE_STEP_2 \<longrightarrow> t_send_buffer t = [])"

text \<open>The diagram of the receive states.\<close>

inductive recv_next :: "recv_state \<Rightarrow> recv_state \<Rightarrow> bool" where
  "recv_next RECV_HANDSHAKE_STEP_1 RECV_HANDSHAKE_STEP_2"
| "recv_next RECV_HANDSHAKE_STEP_2 RECV_APP"
| "recv_next RECV_APP RECV_APP_READY"
| "recv_next RECV_APP_READY RECV_APP"

code_pred recv_next .

inductive_simps recv_next_simps: "recv_next a b"

lemma recv_edges [simp]:
  "recv_next\<^sup>*\<^sup>* RECV_HANDSHAKE_STEP_1 RECV_APP" "recv_next\<^sup>*\<^sup>* RECV_HANDSHAKE_STEP_2 RECV_APP"
  "recv_next\<^sup>*\<^sup>* RECV_APP RECV_APP_READY" "recv_next\<^sup>*\<^sup>* RECV_APP_READY RECV_APP"
  by (meson converse_rtranclp_into_rtranclp r_into_rtranclp recv_next.intros)+

lemma SetReceiveState_Ret:
  "SetReceiveState s t = Ret t' \<longleftrightarrow> recv_next (t_recv_state t) s \<and> t' = t\<lparr>t_recv_state := s\<rparr>"
  by (cases "t_recv_state t") (auto simp: SetReceiveState_def res_simps recv_next_simps)

lemma msg_len_bound: "EncryptedMessageSize n < 2 ^ 30" if "n \<le> MAX_CONTENTS_LEN"
proof -
  have "num_chunks n \<le> 257" using that unfolding MAX_CONTENTS_LEN_def by (simp add: num_chunks_eq)
  then show ?thesis
    using that unfolding MAX_CONTENTS_LEN_def by (simp add: EncryptedMessageSize_eq)
qed

lemma packet_size_bounds:
  assumes "0 < unat (h_msg_len h)" "unat (h_msg_len h) \<le> MAX_CONTENTS_LEN"
  shows "22 < packet_size h" "packet_size h < 2 ^ 31"
    "(SV2_HEADER_ENCRYPTED_SIZE + EncryptedMessageSize (unat (h_msg_len h))) mod 2 ^ 64 = packet_size h"
proof -
  note b = msg_len_bound [OF assms(2)]
  then show 1: "packet_size h < 2 ^ 31" by (simp add: packet_size_def transport_sizes)
  have "0 < EncryptedMessageSize (unat (h_msg_len h))"
    using assms by (simp add: EncryptedMessageSize_eq MAX_CONTENTS_LEN_def)
  then show "22 < packet_size h" by (simp add: packet_size_def transport_sizes)
  show "(SV2_HEADER_ENCRYPTED_SIZE + EncryptedMessageSize (unat (h_msg_len h))) mod 2 ^ 64 = packet_size h"
    using 1 by (simp add: packet_size_def)
qed

lemma recv_inv_limit:
  assumes "recv_inv t" "t_recv_state t \<noteq> RECV_APP_READY"
  shows "length (t_recv_buffer t) < recv_limit t" "recv_limit t < 2 ^ 31"
  using assms packet_size_bounds [of "t_header t"]
  by (auto simp: recv_inv_def recv_limit_def transport_sizes split: recv_state.splits)

lemma wrap_diff: "s \<le> p \<Longrightarrow> p < M \<Longrightarrow> (p + M - s) mod M = p - s" for p s M :: nat
proof -
  assume a: "s \<le> p" "p < M"
  then have e: "p + M - s = (p - s) + M" by simp
  show "(p + M - s) mod M = p - s" unfolding e mod_add_self2 using a by simp
qed

lemma GetMaxBytesToProcess_inv:
  assumes "recv_inv t"
  shows "GetMaxBytesToProcess t = Ret (recv_limit t - length (t_recv_buffer t))"
proof (cases "t_recv_state t")
  case RECV_APP
  show ?thesis
  proof (cases "length (t_recv_buffer t) < SV2_HEADER_ENCRYPTED_SIZE")
    case False
    then have len: "length (t_recv_buffer t) < packet_size (t_header t)" "0 < unat (h_msg_len (t_header t))"
      "unat (h_msg_len (t_header t)) \<le> MAX_CONTENTS_LEN"
      using RECV_APP assms by (simp_all add: recv_inv_def)
    have "(packet_size (t_header t) + 2 ^ 64 - length (t_recv_buffer t)) mod 2 ^ 64 =
        packet_size (t_header t) - length (t_recv_buffer t)"
      by (rule wrap_diff) (use len(1) packet_size_bounds(2) [OF len(2,3)] in simp_all)
    then show ?thesis
      using False RECV_APP packet_size_bounds(3) [OF len(2,3)]
      by (simp add: GetMaxBytesToProcess_def recv_limit_def)
  qed (simp add: GetMaxBytesToProcess_def recv_limit_def RECV_APP)
qed (use assms in \<open>simp_all add: GetMaxBytesToProcess_def recv_limit_def recv_inv_def\<close>)

section \<open>Receiving, step by step\<close>

abbreviation received :: "bytes \<Rightarrow> sv2_transport \<Rightarrow> sv2_transport" where
  "received a t \<equiv> t\<lparr>t_recv_buffer := t_recv_buffer t @ a\<rparr>"

lemma process_received_partial:
  assumes "recv_inv t" "t_recv_state t \<noteq> RECV_APP_READY" "a \<noteq> []"
    and "length (t_recv_buffer t) + length a < recv_limit t"
  shows "process_received S now d (received a t) = Ret (True, received a t)" "recv_inv (received a t)"
    "recv_limit (received a t) = recv_limit t"
proof -
  show 1: "recv_limit (received a t) = recv_limit t"
    using assms by (auto simp: recv_limit_def split: recv_state.splits if_splits)
  show "recv_inv (received a t)"
    using assms by (auto simp: recv_inv_def recv_limit_def handshaking_def split: recv_state.splits if_splits)
  show "process_received S now d (received a t) = Ret (True, received a t)"
  proof (cases "t_recv_state t")
    case RECV_APP
    show ?thesis
    proof (cases "length (t_recv_buffer t) < 22")
      case True
      then show ?thesis using RECV_APP assms(4)
        by (simp add: process_received_def ProcessReceivedPacketBytes_def recv_limit_def transport_sizes Let_def)
    next
      case False
      moreover have "22 < length (t_recv_buffer t) + length a" using False assms(3) by (cases a) simp_all
      moreover have "0 < unat (h_msg_len (t_header t))" "unat (h_msg_len (t_header t)) \<le> MAX_CONTENTS_LEN"
        using assms(1) False RECV_APP by (simp_all add: recv_inv_def transport_sizes)
      ultimately show ?thesis using RECV_APP assms(4) packet_size_bounds(3) [of "t_header t"]
        by (simp add: process_received_def ProcessReceivedPacketBytes_def recv_limit_def Let_def transport_sizes)
    qed
  qed (use assms(2,4) in \<open>simp_all add: process_received_def ProcessReceivedEphemeralKeyBytes_def
      ProcessReceivedHandshakeReplyBytes_def recv_limit_def\<close>)
qed

lemma ReceivedBytes_Nil [simp]: "ReceivedBytes S now d [] t = Ret (True, [], t)"
  by (simp add: ReceivedBytes.simps)

lemma ReceivedBytes_ready:
  assumes "t_recv_state t = RECV_APP_READY"
  shows "ReceivedBytes S now d msg t = Ret (True, msg, t)"
  using assms by (cases "msg = []") (simp_all add: ReceivedBytes.simps [of S now d msg] GetMaxBytesToProcess_def Let_def)

lemma ReceivedBytes_short:
  assumes "recv_inv t" "t_recv_state t \<noteq> RECV_APP_READY"
    and "length (t_recv_buffer t) + length a < recv_limit t"
  shows "ReceivedBytes S now d a t = Ret (True, [], received a t)"
proof (cases "a = []")
  case False
  then show ?thesis
    using assms process_received_partial(1) [OF assms(1,2) False assms(3), of S now d]
    by (simp add: ReceivedBytes.simps [of S now d a] GetMaxBytesToProcess_inv [OF assms(1)] Let_def)
qed simp

lemma ReceivedBytes_full:
  assumes "recv_inv t" "t_recv_state t \<noteq> RECV_APP_READY"
    and "length (t_recv_buffer t) + length a = recv_limit t"
  shows "ReceivedBytes S now d (a @ b) t =
    (case process_received S now d (received a t) of
       Throw e \<Rightarrow> Abort ''std::terminate'' | Abort m \<Rightarrow> Abort m
     | Ret (ok, t') \<Rightarrow> if ok then ReceivedBytes S now d b t' else Ret (False, b, t'))"
proof -
  have a: "a \<noteq> []" "min (length (a @ b)) (recv_limit t - length (t_recv_buffer t)) = length a"
    using recv_inv_limit(1) [OF assms(1,2)] assms(3) by auto
  then show ?thesis
    using assms(2) ReceivedBytes.simps [of S now d "a @ b" t] GetMaxBytesToProcess_inv [OF assms(1)]
    by (simp add: Let_def split: res.splits prod.splits)
qed

section \<open>The end of a step\<close>

definition finished :: "handshake_state \<Rightarrow> sv2_cipher \<Rightarrow> sv2_cipher" where
  "finished hs c = c\<lparr>c_hash := m_hash_output (hs_symmetric_state hs), c_cs1 := fst (Split (hs_symmetric_state hs)),
     c_cs2 := snd (Split (hs_symmetric_state hs)), c_handshake_state := None\<rparr>"

lemma finished_update [simp]: "finished hs (c\<lparr>c_handshake_state := x\<rparr>) = finished hs c"
  by (simp add: finished_def)

lemma FinishHandshake_finished: "FinishHandshake (c\<lparr>c_handshake_state := Some hs\<rparr>) = Ret (finished hs c)"
  by (simp add: FinishHandshake_def finished_def split_beta)

lemma ProcessReceivedEphemeralKeyBytes_done:
  assumes "t_recv_state t = RECV_HANDSHAKE_STEP_1" "t_send_state t = SEND_HANDSHAKE_STEP_2" "t_send_buffer t = []"
    and "c_handshake_state (t_cipher t) = Some hs" "length (t_recv_buffer t) = 64"
    and "ReadMsgEphemeralPK (t_recv_buffer t) hs = Ret hs1" "WriteMsgES S d (zeros 234) hs1 = Ret (m, hs2)"
  shows "process_received S now d t =
    Ret (True, t\<lparr>t_cipher := finished hs2 (t_cipher t), t_recv_buffer := [], t_recv_state := RECV_APP,
                 t_send_buffer := m, t_send_state := SEND_READY\<rparr>)"
  using assms
  by (simp add: process_received_def ProcessReceivedEphemeralKeyBytes_def GetHandshakeState_def SetReceiveState_def
      SendHandshakeReply_def SetSendState_def FinishHandshake_finished transport_sizes)

lemma ProcessReceivedHandshakeReplyBytes_done:
  assumes "t_recv_state t = RECV_HANDSHAKE_STEP_2" "t_send_state t = SEND_HANDSHAKE_STEP_2" "t_send_buffer t = []"
    and "c_handshake_state (t_cipher t) = Some hs" "length (t_recv_buffer t) = 234"
    and "ReadMsgES S now (t_recv_buffer t) hs = Ret (ok, hs1)"
  shows "process_received S now d t =
    Ret (if ok then (True, t\<lparr>t_cipher := finished hs1 (t_cipher t), t_recv_buffer := [], t_recv_state := RECV_APP,
                         t_send_state := SEND_READY\<rparr>)
         else (False, t\<lparr>t_cipher := (t_cipher t)\<lparr>c_handshake_state := Some hs1\<rparr>\<rparr>))"
  using assms
  by (simp add: process_received_def ProcessReceivedHandshakeReplyBytes_def GetHandshakeState_def SetReceiveState_def
      SetSendState_def FinishHandshake_finished transport_sizes)

text \<open>The cipher state an end receives with and the one it sends with.\<close>

definition recv_cs :: "sv2_cipher \<Rightarrow> cipher_state" where
  "recv_cs c = (if c_initiator c then c_cs2 c else c_cs1 c)"

definition send_cs :: "sv2_cipher \<Rightarrow> cipher_state" where
  "send_cs c = (if c_initiator c then c_cs1 c else c_cs2 c)"

definition set_recv_cs :: "cipher_state \<Rightarrow> sv2_cipher \<Rightarrow> sv2_cipher" where
  "set_recv_cs cs c = (if c_initiator c then c\<lparr>c_cs2 := cs\<rparr> else c\<lparr>c_cs1 := cs\<rparr>)"

definition set_send_cs :: "cipher_state \<Rightarrow> sv2_cipher \<Rightarrow> sv2_cipher" where
  "set_send_cs cs c = (if c_initiator c then c\<lparr>c_cs1 := cs\<rparr> else c\<lparr>c_cs2 := cs\<rparr>)"

lemma cs_simps [simp]:
  "recv_cs (set_recv_cs cs c) = cs" "send_cs (set_recv_cs cs c) = send_cs c"
  "send_cs (set_send_cs cs c) = cs" "recv_cs (set_send_cs cs c) = recv_cs c"
  "c_initiator (set_recv_cs cs c) = c_initiator c" "c_initiator (set_send_cs cs c) = c_initiator c"
  "set_recv_cs cs (set_recv_cs cs' c) = set_recv_cs cs c" "set_send_cs cs (set_send_cs cs' c) = set_send_cs cs c"
  by (simp_all add: recv_cs_def send_cs_def set_recv_cs_def set_send_cs_def)

lemma Sv2Cipher_DecryptMessage_eq:
  assumes "length c = EncryptedMessageSize (length plain)"
  shows "Sv2Cipher_DecryptMessage c plain ci =
    res_bind (CipherState_DecryptMessage c plain (recv_cs ci)) (\<lambda>(ok, p, cs). Ret (ok, p, set_recv_cs cs ci))"
  using assms by (simp add: Sv2Cipher_DecryptMessage_def recv_cs_def set_recv_cs_def)

lemma Sv2Cipher_EncryptMessage_eq:
  assumes "length buf = EncryptedMessageSize (length p)"
  shows "Sv2Cipher_EncryptMessage p buf ci =
    res_bind (CipherState_EncryptMessage p buf (send_cs ci)) (\<lambda>(ok, c, cs). Ret (ok, c, set_send_cs cs ci))"
  using assms by (simp add: Sv2Cipher_EncryptMessage_def send_cs_def set_send_cs_def)

definition header_bytes :: "bytes \<Rightarrow> sv2_net_header \<Rightarrow> bytes" where
  "header_bytes ext h = ext @ ser_writedata8 (h_msg_type h) @ u24_bytes (h_msg_len h)"

lemma length_header_bytes [simp]: "length (header_bytes ext h) = length ext + 4"
  by (simp add: header_bytes_def ser_writedata8_def u24_bytes_def)

lemma Sv2NetHeader_Serialize_bytes: "Sv2NetHeader_Serialize h = header_bytes [0, 0] h"
  by (simp add: Sv2NetHeader_Serialize_def header_bytes_def ser_writedata16_def le_bytes_def WriteLE16_def upt_rec)

lemma header_bytes_read:
  assumes "length ext = 2" "h_msg_len h < 2 ^ 24"
  shows "\<exists>s. Sv2NetHeader_Unserialize (DataStream (header_bytes ext h)) = Ret (h, s)"
  using reads_DataStream [OF reads_Sv2NetHeader [OF assms(1), of h]] u24_small [OF assms(2)] assms(1)
    length_header_bytes [of ext h]
  by (auto simp: header_bytes_def)

lemma header_bytes_surj:
  assumes "length p = 6"
  obtains ext h where "length ext = 2" "h_msg_len h < 2 ^ 24" "p = header_bytes ext h"
proof -
  obtain e0 e1 ty l0 l1 l2 where p: "p = [e0, e1, ty, l0, l1, l2]"
    using assms by (auto simp: length_Suc_conv numeral_eq_Suc)
  let ?n = "le_word [l0, l1, l2] :: u32"
  have u: "u24_bytes ?n = [l0, l1, l2]"
    unfolding u24_bytes_le using le_bytes_le_word [of "[l0, l1, l2]", where ?'a = 32] by (simp add: numeral_3_eq_3)
  then have "?n = take_bit 24 ?n" using le_word_u24 [of ?n] by (simp only:)
  then have "unat ?n < 2 ^ 24" by (metis take_bit_nat_less_exp unsigned_take_bit_eq)
  then have "?n < 2 ^ 24" by (simp add: word_less_nat_alt)
  then show thesis
    using that [of "[e0, e1]" "\<lparr>h_msg_type = ty, h_msg_len = ?n\<rparr>"] u
    by (simp add: p header_bytes_def ser_writedata8_def)
qed

abbreviation sealed :: "cipher_state \<Rightarrow> bytes \<Rightarrow> bytes \<times> cipher_state" where
  "sealed cs p \<equiv> seal_chunks cs (chunks p)"

lemma small_len: "unat (h_msg_len h) \<le> MAX_CONTENTS_LEN \<longleftrightarrow> h_msg_len h < 2 ^ 24"
  by (simp add: word_less_nat_alt MAX_CONTENTS_LEN_def) arith

lemma length_sealed: "length p < 2 ^ 60 \<Longrightarrow> length (fst (sealed cs p)) = EncryptedMessageSize (length p)"
  by (simp add: length_seal_chunks length_chunks EncryptedMessageSize_eq)

lemma header_accepted:
  assumes "t_recv_state t = RECV_APP" "length ext = 2" "h_msg_len h < 2 ^ 24" "h_msg_len h \<noteq> 0"
    and "unat (cs_nonce (recv_cs (t_cipher t))) + 1 \<le> 2 ^ 64 - 1"
    and "sealed (recv_cs (t_cipher t)) (header_bytes ext h) = (t_recv_buffer t, cs)"
  shows "process_received S now d t =
    Ret (True, t\<lparr>t_cipher := set_recv_cs cs (t_cipher t), t_header := h\<rparr>)"
proof -
  have len: "length (t_recv_buffer t) = 22"
    using length_sealed [of "header_bytes ext h" "recv_cs (t_cipher t)"] assms(2,6)
    by (simp add: EncryptedMessageSize_small)
  have "CipherState_DecryptMessage (t_recv_buffer t) (zeros 6) (recv_cs (t_cipher t)) = Ret (True, header_bytes ext h, cs)"
    using DecryptMessage_sealed [of "header_bytes ext h" "zeros 6" "recv_cs (t_cipher t)"] assms
    by (simp add: num_chunks_small)
  then have "Sv2Cipher_DecryptMessage (t_recv_buffer t) (zeros 6) (t_cipher t) =
      Ret (True, header_bytes ext h, set_recv_cs cs (t_cipher t))"
    using len by (simp add: Sv2Cipher_DecryptMessage_eq EncryptedMessageSize_small)
  moreover have "unat (h_msg_len h) \<le> MAX_CONTENTS_LEN" using assms(3) by (simp only: small_len)
  ultimately show ?thesis
    using header_bytes_read [OF assms(2,3)] assms(1,4) len
    by (auto simp: process_received_def ProcessReceivedPacketBytes_def transport_sizes Let_def)
qed

lemma header_cases:
  assumes "t_recv_state t = RECV_APP" "length (t_recv_buffer t) = 22"
  obtains (refused) t' where "process_received S now d t = Ret (False, t')"
  | (accepted) ext h cs where "length ext = 2" "h_msg_len h < 2 ^ 24" "h_msg_len h \<noteq> 0"
      "unat (cs_nonce (recv_cs (t_cipher t))) + 1 \<le> 2 ^ 64 - 1"
      "sealed (recv_cs (t_cipher t)) (header_bytes ext h) = (t_recv_buffer t, cs)"
proof -
  obtain ok p cs where d: "CipherState_DecryptMessage (t_recv_buffer t) (zeros 6) (recv_cs (t_cipher t)) = Ret (ok, p, cs)"
    using DecryptMessage_total [of "zeros 6" "t_recv_buffer t" "recv_cs (t_cipher t)"] assms(2)
    by (auto simp: EncryptedMessageSize_small)
  then have D: "Sv2Cipher_DecryptMessage (t_recv_buffer t) (zeros 6) (t_cipher t) =
      Ret (ok, p, set_recv_cs cs (t_cipher t))"
    using assms(2) by (simp add: Sv2Cipher_DecryptMessage_eq EncryptedMessageSize_small)
  show thesis
  proof (cases ok)
    case False
    then show thesis using D assms
      by (intro refused) (simp add: process_received_def ProcessReceivedPacketBytes_def transport_sizes Let_def)
  next
    case True
    then have d': "CipherState_DecryptMessage (t_recv_buffer t) (zeros 6) (recv_cs (t_cipher t)) = Ret (True, p, cs)"
      using d by simp
    have "length (zeros 6) < 2 ^ 60" by simp
    note a = DecryptMessage_accepts [OF d' this]
    obtain ext h where h: "length ext = 2" "h_msg_len h < 2 ^ 24" "p = header_bytes ext h"
      using header_bytes_surj [of p] a(3) by auto
    obtain s where s: "Sv2NetHeader_Unserialize (DataStream p) = Ret (h, s)"
      using header_bytes_read [OF h(1,2)] h(3) by blast
    show thesis
    proof (cases "h_msg_len h = 0")
      case True
      then show thesis using D s assms \<open>ok\<close>
        by (intro refused) (simp add: process_received_def ProcessReceivedPacketBytes_def transport_sizes Let_def)
    next
      case False
      then show thesis using accepted [OF h(1,2)] a h(3) by (simp add: num_chunks_small prod_eq_iff)
    qed
  qed
qed

lemma payload_accepted:
  assumes "t_recv_state t = RECV_APP" "t_recv_buffer t = hd22 @ c" "length hd22 = 22"
    and "unat (h_msg_len (t_header t)) = length m" "0 < length m" "length m \<le> MAX_CONTENTS_LEN"
    and "unat (cs_nonce (recv_cs (t_cipher t))) + num_chunks (length m) \<le> 2 ^ 64 - 1"
    and "sealed (recv_cs (t_cipher t)) m = (c, cs)"
  shows "process_received S now d t =
    Ret (True, t\<lparr>t_cipher := set_recv_cs cs (t_cipher t), t_recv_buffer := [], t_recv_state := RECV_APP_READY,
                 t_message := \<lparr>m_msg_type = h_msg_type (t_header t), m_msg = m\<rparr>\<rparr>)"
proof -
  have small: "length m < 2 ^ 60" using assms(6) by (simp add: MAX_CONTENTS_LEN_def)
  have len: "length c = EncryptedMessageSize (length m)"
    using length_sealed [OF small, of "recv_cs (t_cipher t)"] assms(8) by simp
  have "CipherState_DecryptMessage c (zeros (length m)) (recv_cs (t_cipher t)) = Ret (True, m, cs)"
    using DecryptMessage_sealed [OF small, of "zeros (length m)" "recv_cs (t_cipher t)"] assms(7,8) by simp
  then have "Sv2Cipher_DecryptMessage c (zeros (length m)) (t_cipher t) = Ret (True, m, set_recv_cs cs (t_cipher t))"
    using len by (simp add: Sv2Cipher_DecryptMessage_eq)
  moreover note packet_size_bounds [of "t_header t"]
  ultimately show ?thesis
    using assms(1-6) len
    by (simp add: process_received_def ProcessReceivedPacketBytes_def SetReceiveState_def packet_size_def
        transport_sizes Let_def)
qed

lemma payload_cases:
  assumes "t_recv_state t = RECV_APP" "t_recv_buffer t = hd22 @ c" "length hd22 = 22"
    and "length (t_recv_buffer t) = packet_size (t_header t)"
    and "0 < unat (h_msg_len (t_header t))" "unat (h_msg_len (t_header t)) \<le> MAX_CONTENTS_LEN"
  obtains (refused) t' where "process_received S now d t = Ret (False, t')"
  | (accepted) m cs where "unat (h_msg_len (t_header t)) = length m"
      "unat (cs_nonce (recv_cs (t_cipher t))) + num_chunks (length m) \<le> 2 ^ 64 - 1"
      "sealed (recv_cs (t_cipher t)) m = (c, cs)"
proof -
  let ?n = "unat (h_msg_len (t_header t))"
  have small: "length (zeros ?n) < 2 ^ 60" using assms(6) by (simp add: MAX_CONTENTS_LEN_def)
  have len: "length c = EncryptedMessageSize (length (zeros ?n))"
    using assms(2-4) by (simp add: packet_size_def transport_sizes)
  obtain ok p cs where d: "CipherState_DecryptMessage c (zeros ?n) (recv_cs (t_cipher t)) = Ret (ok, p, cs)"
    using DecryptMessage_total [OF small len] by blast
  then have D: "Sv2Cipher_DecryptMessage c (zeros ?n) (t_cipher t) = Ret (ok, p, set_recv_cs cs (t_cipher t))"
    using len by (simp add: Sv2Cipher_DecryptMessage_eq)
  show thesis
  proof (cases ok)
    case False
    then show thesis using D assms packet_size_bounds [OF assms(5,6)] len
      by (intro refused) (simp add: process_received_def ProcessReceivedPacketBytes_def transport_sizes Let_def)
  next
    case True
    then have "CipherState_DecryptMessage c (zeros ?n) (recv_cs (t_cipher t)) = Ret (True, p, cs)" using d by simp
    from DecryptMessage_accepts [OF this small] show thesis using accepted [of p cs] by (simp add: prod_eq_iff)
  qed
qed

section \<open>No call aborts\<close>

lemma set_recv_cs_handshake [simp]: "c_handshake_state (set_recv_cs cs c) = c_handshake_state c"
  by (simp add: set_recv_cs_def)

text \<open>The responder never waits in the initiator's state.\<close>

definition server_state :: "sv2_transport \<Rightarrow> bool" where
  "server_state t \<longleftrightarrow> t_recv_state t \<noteq> RECV_HANDSHAKE_STEP_2"

text \<open>What holds of a call's result: the invariant again, and only edges of the diagram taken.\<close>

definition good_step :: "sv2_transport \<Rightarrow> sv2_transport \<Rightarrow> bool" where
  "good_step t t' \<longleftrightarrow> transport_inv t' \<and> key_sent t' \<and> recv_next\<^sup>*\<^sup>* (t_recv_state t) (t_recv_state t') \<and>
     (server_state t \<longrightarrow> server_state t') \<and>
     cs_nonce (send_cs (t_cipher t')) \<le> cs_nonce (send_cs (t_cipher t))"

lemma finished_nonce [simp]: "cs_nonce (send_cs (finished hs c)) = 0"
  by (simp add: send_cs_def finished_def Split_def split_beta Sv2CipherState_def)

lemma process_key_app:
  assumes "transport_inv t" "t_recv_state t = RECV_HANDSHAKE_STEP_1" "secp_ok S" "draw_ok d"
    and "length (t_recv_buffer t) + length a = 64"
  shows "\<exists>t'. process_received S now d (received a t) = Ret (True, t') \<and> good_step t t' \<and> length (t_send_buffer t') = 234 \<and>
    t_recv_state t' = RECV_APP"
proof -
  obtain hs sk cert where hs: "c_handshake_state (t_cipher t) = Some hs" "hs_ephemeral_key hs = None"
      "hs_static_key hs = Some sk" "length (hs_static_ellswift_pk hs) = 64" "hs_certificate hs = Some cert"
      "length (cert_sig cert) = 64"
    and t: "t_send_state t = SEND_HANDSHAKE_STEP_2" "t_send_buffer t = []" "t_send_pos t = 0"
    using assms(1,2)
    by (auto simp: transport_inv_def recv_inv_def send_inv_def handshaking_def responder_ready_def split: option.splits)
  let ?hs1 = "hs\<lparr>hs_remote_ephemeral_ellswift_pk := t_recv_buffer t @ a,
    hs_symmetric_state := MixHash [] (MixHash (t_recv_buffer t @ a) (hs_symmetric_state hs))\<rparr>"
  have r: "ReadMsgEphemeralPK (t_recv_buffer t @ a) hs = Ret ?hs1"
    using ReadMsgEphemeralPK_ok [of "t_recv_buffer t @ a" hs] assms(5) by simp
  have m: "\<exists>m hs2. WriteMsgES S d (zeros 234) ?hs1 = Ret (m, hs2) \<and> length m = 234"
    using WriteMsgES_ok [of ?hs1 sk cert d S "zeros 234"] hs assms(3,4) length_Certificate_Serialize [OF hs(6)]
    by (simp add: step2_def split_beta Let_def noise_sizes secp_ok_def)
  then obtain m hs2 where w: "WriteMsgES S d (zeros 234) ?hs1 = Ret (m, hs2)" "length m = 234" by blast
  show ?thesis
    using ProcessReceivedEphemeralKeyBytes_done [of "received a t" hs ?hs1 S d m hs2 now] hs(1) t r w assms(2,5)
    by (simp add: good_step_def transport_inv_def send_inv_def recv_inv_def key_sent_def server_state_def transport_sizes)
qed

lemma process_reply_good:
  assumes "transport_inv t" "key_sent t" "t_recv_state t = RECV_HANDSHAKE_STEP_2"
    and "length (t_recv_buffer t) + length a = 234"
  shows "\<exists>ok t'. process_received S now d (received a t) = Ret (ok, t') \<and> (ok \<longrightarrow> good_step t t')"
proof -
  obtain hs ek authority where hs: "c_handshake_state (t_cipher t) = Some hs" "hs_ephemeral_key hs = Some ek"
      "hs_authority_pubkey hs = Some authority"
    and t: "t_send_state t = SEND_HANDSHAKE_STEP_2" "t_send_buffer t = []" "t_send_pos t = 0"
    using assms(1-3)
    by (auto simp: transport_inv_def recv_inv_def send_inv_def handshaking_def initiator_ready_def key_sent_def server_state_def
        split: option.splits)
  obtain ok hs1 where "ReadMsgES S now (t_recv_buffer t @ a) hs = Ret (ok, hs1)"
    using ReadMsgES_total [OF hs(2,3), of "t_recv_buffer t @ a" S now] assms(4) by auto
  then show ?thesis
    using ProcessReceivedHandshakeReplyBytes_done [of "received a t" hs S now ok hs1 d] hs(1) t assms(3,4)
    by (cases ok) (auto simp: good_step_def transport_inv_def send_inv_def recv_inv_def key_sent_def server_state_def transport_sizes)
qed

lemma process_packet_good:
  assumes inv: "transport_inv t" and app: "t_recv_state t = RECV_APP"
    and full: "length (t_recv_buffer t) + length a = recv_limit t"
  shows "\<exists>ok t'. process_received S now d (received a t) = Ret (ok, t') \<and> (ok \<longrightarrow> good_step t t')"
proof (cases "length (t_recv_buffer t) < 22")
  case True
  have len: "length (t_recv_buffer (received a t)) = 22"
    using True full app by (simp add: recv_limit_def transport_sizes)
  have app': "t_recv_state (received a t) = RECV_APP" using app by simp
  show ?thesis
  proof (rule header_cases [OF app' len, of S now d thesis for thesis])
    fix ext h cs
    assume a: "length ext = 2" "h_msg_len h < 2 ^ 24" "h_msg_len h \<noteq> 0"
      "unat (cs_nonce (recv_cs (t_cipher (received a t)))) + 1 \<le> 2 ^ 64 - 1"
      "sealed (recv_cs (t_cipher (received a t))) (header_bytes ext h) = (t_recv_buffer (received a t), cs)"
    have h: "0 < unat (h_msg_len h)" "unat (h_msg_len h) \<le> MAX_CONTENTS_LEN"
      using a(2,3) by (simp_all only: small_len unat_gt_0 not_False_eq_True)
    show ?thesis
      using header_accepted [OF app' a, of S now d] app inv packet_size_bounds(1) [OF h] h len
      by (auto simp: good_step_def transport_inv_def send_inv_def recv_inv_def key_sent_def server_state_def transport_sizes)
  qed auto
next
  case False
  then have len: "0 < unat (h_msg_len (t_header t))" "unat (h_msg_len (t_header t)) \<le> MAX_CONTENTS_LEN"
    using inv app by (simp_all add: transport_inv_def recv_inv_def transport_sizes)
  have buf: "t_recv_buffer (received a t) = take 22 (t_recv_buffer t) @ (drop 22 (t_recv_buffer t) @ a)"
    "length (take 22 (t_recv_buffer t)) = 22" using False by simp_all
  have size: "length (t_recv_buffer (received a t)) = packet_size (t_header (received a t))"
    using False full app by (simp add: recv_limit_def transport_sizes)
  have app': "t_recv_state (received a t) = RECV_APP" using app by simp
  have len': "0 < unat (h_msg_len (t_header (received a t)))" "unat (h_msg_len (t_header (received a t))) \<le> MAX_CONTENTS_LEN"
    using len by simp_all
  show ?thesis
  proof (rule payload_cases [OF app' buf size len', of S now d thesis for thesis])
    fix m cs
    assume m: "unat (h_msg_len (t_header (received a t))) = length m"
      "unat (cs_nonce (recv_cs (t_cipher (received a t)))) + num_chunks (length m) \<le> 2 ^ 64 - 1"
      "sealed (recv_cs (t_cipher (received a t))) m = (drop 22 (t_recv_buffer t) @ a, cs)"
    show ?thesis
      using payload_accepted [OF app' buf m(1) _ _ m(2,3), of S now d] len m(1) inv app
      by (auto simp: good_step_def transport_inv_def send_inv_def recv_inv_def key_sent_def server_state_def)
  qed auto
qed

lemma process_received_good:
  assumes "transport_inv t" "key_sent t" "t_recv_state t \<noteq> RECV_APP_READY" "secp_ok S" "draw_ok d"
    and "length (t_recv_buffer t) + length a = recv_limit t"
  shows "\<exists>ok t'. process_received S now d (received a t) = Ret (ok, t') \<and> (ok \<longrightarrow> good_step t t')"
proof (cases "t_recv_state t")
  case RECV_HANDSHAKE_STEP_1
  then show ?thesis using process_key_app [OF assms(1) _ assms(4,5), of a now] assms(6)
    by (auto simp: recv_limit_def transport_sizes)
next
  case RECV_HANDSHAKE_STEP_2
  then show ?thesis using process_reply_good [OF assms(1,2), of a S now d] assms(6)
    by (auto simp: recv_limit_def transport_sizes)
next
  case RECV_APP
  then show ?thesis using process_packet_good [OF assms(1) _ assms(6)] by blast
qed (use assms(3) in simp)

lemma good_step_refl: "transport_inv t \<Longrightarrow> key_sent t \<Longrightarrow> good_step t t"
  by (simp add: good_step_def)

lemma good_step_trans: "good_step t1 t2 \<Longrightarrow> good_step t2 t3 \<Longrightarrow> good_step t1 t3"
  by (auto simp: good_step_def)

lemma received_good:
  assumes "transport_inv t" "key_sent t" "t_recv_state t \<noteq> RECV_APP_READY"
    and "length (t_recv_buffer t) + length a < recv_limit t"
  shows "good_step t (received a t)"
proof (cases "a = []")
  case False
  then show ?thesis
    using assms process_received_partial(2) [of t a] by (simp add: good_step_def transport_inv_def send_inv_def key_sent_def server_state_def)
qed (use assms good_step_refl in simp)

text \<open>The loop on the input, cut at the end of the step in progress.\<close>

lemma input_cases:
  assumes "recv_inv t"
  obtains (ready) "t_recv_state t = RECV_APP_READY"
  | (short) "t_recv_state t \<noteq> RECV_APP_READY" "length (t_recv_buffer t) + length msg < recv_limit t"
  | (full) a b where "t_recv_state t \<noteq> RECV_APP_READY" "msg = a @ b" "length b < length msg"
      "length (t_recv_buffer t) + length a = recv_limit t"
proof -
  let ?n = "recv_limit t - length (t_recv_buffer t)"
  consider "t_recv_state t = RECV_APP_READY"
    | "t_recv_state t \<noteq> RECV_APP_READY" "length (t_recv_buffer t) + length msg < recv_limit t"
    | "t_recv_state t \<noteq> RECV_APP_READY" "recv_limit t \<le> length (t_recv_buffer t) + length msg" by linarith
  then show thesis
  proof cases
    case 3
    then show thesis using full [of "take ?n msg" "drop ?n msg"] recv_inv_limit(1) [OF assms] by simp
  qed (use ready short in auto)
qed

lemma ReceivedBytes_good:
  assumes "transport_inv t" "key_sent t" "secp_ok S" "draw_ok d"
  shows "\<exists>ok rest t'. ReceivedBytes S now d msg t = Ret (ok, rest, t') \<and> (\<exists>used. msg = used @ rest) \<and>
    (ok \<longrightarrow> good_step t t' \<and> (t_recv_state t' = RECV_APP_READY \<or> rest = []))"
  using assms(1,2)
proof (induction "length msg" arbitrary: msg t rule: less_induct)
  case less
  have inv: "recv_inv t" using less.prems(1) by (simp add: transport_inv_def)
  show ?case
  proof (rule input_cases [OF inv, where msg = msg])
    assume "t_recv_state t = RECV_APP_READY"
    then show ?thesis using good_step_refl less.prems by (auto simp: ReceivedBytes_ready)
  next
    assume s: "t_recv_state t \<noteq> RECV_APP_READY" "length (t_recv_buffer t) + length msg < recv_limit t"
    show ?thesis
      using ReceivedBytes_short [OF inv s, of S now d] received_good [OF less.prems s] by auto
  next
    fix a b
    assume f: "t_recv_state t \<noteq> RECV_APP_READY" "msg = a @ b" "length b < length msg"
      "length (t_recv_buffer t) + length a = recv_limit t"
    obtain ok t1 where p: "process_received S now d (received a t) = Ret (ok, t1)" "ok \<Longrightarrow> good_step t t1"
      using process_received_good [OF less.prems f(1) assms(3,4) f(4), of now] by blast
    show ?thesis
    proof (cases ok)
      case True
      then have "transport_inv t1" "key_sent t1" using p(2) by (simp_all add: good_step_def)
      from less.hyps [OF f(3) this] obtain ok' rest t' used where r: "ReceivedBytes S now d b t1 = Ret (ok', rest, t')"
        "b = used @ rest" "ok' \<Longrightarrow> good_step t1 t' \<and> (t_recv_state t' = RECV_APP_READY \<or> rest = [])" by blast
      have "ReceivedBytes S now d msg t = Ret (ok', rest, t')"
        unfolding f(2) ReceivedBytes_full [OF inv f(1,4)] p(1) using True r(1) by simp
      moreover have "msg = (a @ used) @ rest" using f(2) r(2) by simp
      ultimately show ?thesis using r(3) good_step_trans [OF p(2) [OF True]] by blast
    next
      case False
      then show ?thesis unfolding f(2) ReceivedBytes_full [OF inv f(1,4)] p(1) by auto
    qed
  qed
qed

lemma ReceivedBytes_split:
  assumes "transport_inv t" "key_sent t" "secp_ok S" "draw_ok d"
    and "ReceivedBytes S now d a t = Ret (ok, rest, t')"
  shows "ReceivedBytes S now d (a @ b) t =
    (if ok then ReceivedBytes S now d (rest @ b) t' else Ret (False, rest @ b, t'))"
  using assms(1,2,5)
proof (induction "length a" arbitrary: a t rule: less_induct)
  case less
  have inv: "recv_inv t" using less.prems(1) by (simp add: transport_inv_def)
  show ?case
  proof (rule input_cases [OF inv, where msg = a])
    assume "t_recv_state t = RECV_APP_READY"
    then show ?thesis using less.prems by (auto simp: ReceivedBytes_ready)
  next
    assume s: "t_recv_state t \<noteq> RECV_APP_READY" "length (t_recv_buffer t) + length a < recv_limit t"
    then have r: "ok" "rest = []" "t' = received a t"
      using less.prems(3) by (simp_all add: ReceivedBytes_short [OF inv])
    have "ReceivedBytes S now d (a @ b) t = ReceivedBytes S now d b (received a t)"
    proof (cases "a = []")
      case False
      note p = process_received_partial [OF inv s(1) False s(2)]
      have s': "t_recv_state (received a t) \<noteq> RECV_APP_READY" using s(1) by simp
      show ?thesis
      proof (rule input_cases [OF p(2), where msg = b])
        assume "t_recv_state (received a t) \<noteq> RECV_APP_READY"
          "length (t_recv_buffer (received a t)) + length b < recv_limit (received a t)"
        then show ?thesis using ReceivedBytes_short [OF inv s(1), of "a @ b"] ReceivedBytes_short [OF p(2), of b] p(3) by simp
      next
        fix b1 b2
        assume "b = b1 @ b2" "length (t_recv_buffer (received a t)) + length b1 = recv_limit (received a t)"
        then show ?thesis
          using ReceivedBytes_full [OF inv s(1), of "a @ b1" S now d b2] ReceivedBytes_full [OF p(2) s', of b1 S now d b2] p(3)
          by simp
      qed (use s' in simp)
    qed simp
    then show ?thesis using r by simp
  next
    fix a1 a2
    assume f: "t_recv_state t \<noteq> RECV_APP_READY" "a = a1 @ a2" "length a2 < length a"
      "length (t_recv_buffer t) + length a1 = recv_limit t"
    obtain ok1 t1 where p: "process_received S now d (received a1 t) = Ret (ok1, t1)" "ok1 \<Longrightarrow> good_step t t1"
      using process_received_good [OF less.prems(1,2) f(1) assms(3,4) f(4), of now] by blast
    have full: "ReceivedBytes S now d (a1 @ x) t =
        (if ok1 then ReceivedBytes S now d x t1 else Ret (False, x, t1))" for x
      using ReceivedBytes_full [OF inv f(1,4), of S now d x] p(1) by simp
    show ?thesis
    proof (cases ok1)
      case True
      then have t1: "transport_inv t1" "key_sent t1" using p(2) by (simp_all add: good_step_def)
      have "ReceivedBytes S now d a2 t1 = Ret (ok, rest, t')" using less.prems(3) full [of a2] True f(2) by simp
      from less.hyps [OF f(3) t1 this] show ?thesis using full [of "a2 @ b"] True f(2) by simp
    next
      case False
      then show ?thesis using less.prems(3) full [of a2] full [of "a2 @ b"] f(2) by simp
    qed
  qed
qed

section \<open>A transport that refused its input\<close>

text \<open>
  After a refusal the connection is only kept until its send queue is empty. Whatever bytes arrive
  then, the sending side is not touched.
\<close>

definition same_sender :: "sv2_transport \<Rightarrow> sv2_transport \<Rightarrow> bool" where
  "same_sender t t' \<longleftrightarrow> t_recv_state t' \<in> {RECV_APP, RECV_APP_READY} \<and> t_send_state t' = t_send_state t \<and>
     t_send_buffer t' = t_send_buffer t \<and> t_send_pos t' = t_send_pos t \<and> send_cs (t_cipher t') = send_cs (t_cipher t)"

lemma Sv2Cipher_DecryptMessage_send:
  "Sv2Cipher_DecryptMessage c p ci = Ret (ok, p', ci') \<Longrightarrow> send_cs ci' = send_cs ci"
  by (auto simp: Sv2Cipher_DecryptMessage_def send_cs_def res_simps split: if_splits)

lemma process_packet_sender:
  assumes "t_recv_state t = RECV_APP" "process_received S now d t = Ret (ok, t')"
  shows "same_sender t t'"
proof -
  have "ensures (\<lambda>(ok, t'). same_sender t t') (ProcessReceivedPacketBytes t)"
    unfolding ProcessReceivedPacketBytes_def Let_def
    by (intro ensures_intro)
      (auto simp: same_sender_def SetReceiveState_Ret assms(1) dest: Sv2Cipher_DecryptMessage_send)
  then show ?thesis using assms by (auto simp: process_received_def dest: ensuresD)
qed

lemma ReceivedBytes_sender:
  "t_recv_state t \<in> {RECV_APP, RECV_APP_READY} \<Longrightarrow> ReceivedBytes S now d msg t = Ret (ok, rest, t') \<Longrightarrow> same_sender t t'"
proof (induction "length msg" arbitrary: msg t rule: less_induct)
  case less
  show ?case
  proof (cases "t_recv_state t = RECV_APP_READY \<or> msg = []")
    case True
    then show ?thesis using less.prems by (auto simp: ReceivedBytes_ready same_sender_def)
  next
    case False
    then have app: "t_recv_state t = RECV_APP" "msg \<noteq> []" using less.prems(1) by auto
    have "\<exists>limit. GetMaxBytesToProcess t = Ret limit" using app by (simp add: GetMaxBytesToProcess_def Let_def)
    then obtain limit where l: "GetMaxBytesToProcess t = Ret limit" by blast
    define n where "n = min (length msg) limit"
    let ?t = "received (take n msg) t"
    obtain ok1 t1 where p: "process_received S now d ?t = Ret (ok1, t1)"
      "if ok1 then 0 < n \<and> ReceivedBytes S now d (drop n msg) t1 = Ret (ok, rest, t') else t' = t1"
      using less.prems(2) app l
      by (auto simp: ReceivedBytes.simps [of S now d msg] n_def Let_def split: res.splits prod.splits if_splits)
    have s1: "same_sender t t1" using process_packet_sender [OF _ p(1)] app by (simp add: same_sender_def)
    show ?thesis
    proof (cases ok1)
      case True
      then have "same_sender t1 t'" using less.hyps [of "drop n msg" t1] p(2) s1 app(2) by (simp add: same_sender_def)
      then show ?thesis using s1 by (simp add: same_sender_def)
    qed (use p(2) s1 in simp)
  qed
qed

definition app_half :: "sv2_transport \<Rightarrow> bool" where
  "app_half t \<longleftrightarrow> t_recv_state t \<in> {RECV_APP, RECV_APP_READY} \<and> t_send_state t = SEND_READY \<and> send_inv t"

lemma app_half_server: "app_half t \<Longrightarrow> server_state t"
  by (auto simp: app_half_def server_state_def)

lemma same_sender_half: "app_half t \<Longrightarrow> same_sender t t' \<Longrightarrow> app_half t'"
  by (simp add: app_half_def same_sender_def send_inv_def)

lemma inv_app_half: "transport_inv t \<Longrightarrow> t_recv_state t \<in> {RECV_APP, RECV_APP_READY} \<Longrightarrow> app_half t"
  by (auto simp: app_half_def transport_inv_def recv_inv_def)

lemma ReceivedBytes_half:
  assumes "app_half t" "ReceivedBytes S now d msg t = Ret (ok, rest, t')"
  shows "app_half t'" "send_cs (t_cipher t') = send_cs (t_cipher t)"
proof -
  have "same_sender t t'" using ReceivedBytes_sender [OF _ assms(2)] assms(1) by (auto simp: app_half_def)
  then show "app_half t'" "send_cs (t_cipher t') = send_cs (t_cipher t)"
    using same_sender_half [OF assms(1)] by (simp_all add: same_sender_def)
qed

lemma ReceivedBytes_refused:
  assumes "transport_inv t" "server_state t" "secp_ok S" "draw_ok d"
    and "ReceivedBytes S now d msg t = Ret (ok, rest, t')"
  shows "(ok \<longrightarrow> transport_inv t') \<and> (transport_inv t' \<or> app_half t') \<and> server_state t' \<and>
    cs_nonce (send_cs (t_cipher t')) \<le> cs_nonce (send_cs (t_cipher t))"
proof -
  have k: "key_sent t" using assms(2) by (simp add: key_sent_def server_state_def)
  have inv: "recv_inv t" using assms(1) by (simp add: transport_inv_def)
  have good: "ok \<longrightarrow> good_step t t'" using ReceivedBytes_good [OF assms(1) k assms(3,4), of now msg] assms(5) by auto
  have "app_half t' \<and> cs_nonce (send_cs (t_cipher t')) \<le> cs_nonce (send_cs (t_cipher t))" if "\<not> ok"
  proof (cases "t_recv_state t = RECV_HANDSHAKE_STEP_1")
    case False
    then have "app_half t"
      using inv_app_half [OF assms(1)] assms(2) by (cases "t_recv_state t") (auto simp: server_state_def)
    from ReceivedBytes_half [OF this assms(5)] show ?thesis by simp
  next
    case True
    show ?thesis
    proof (rule input_cases [OF inv, where msg = msg])
      fix a b
      assume f: "t_recv_state t \<noteq> RECV_APP_READY" "msg = a @ b" "length (t_recv_buffer t) + length a = recv_limit t"
      obtain t1 where p: "process_received S now d (received a t) = Ret (True, t1)" "good_step t t1" "t_recv_state t1 = RECV_APP"
        using process_key_app [OF assms(1) True assms(3,4)] f(3) True by (auto simp: recv_limit_def transport_sizes)
      have "app_half t1" using inv_app_half p(2,3) by (simp add: good_step_def)
      moreover have "ReceivedBytes S now d b t1 = Ret (ok, rest, t')"
        using assms(5) ReceivedBytes_full [OF inv f(1,3), of S now d b] p(1) f(2) by simp
      ultimately show ?thesis using ReceivedBytes_half [of t1] p(2) by (simp add: good_step_def)
    qed (use True that assms(5) ReceivedBytes_short [OF inv] in auto)
  qed
  then show ?thesis using good assms(2) app_half_server by (auto simp: good_step_def)
qed

section \<open>Packets\<close>

text \<open>
  The packet of a message under a cipher state: the sealed header, with any two extension bytes,
  and the sealed payload; and the cipher state after it.
\<close>

definition packet :: "bytes \<Rightarrow> cipher_state \<Rightarrow> sv2_net_msg \<Rightarrow> bytes \<times> cipher_state" where
  "packet ext cs m =
     (let (c1, cs1) = sealed cs (header_bytes ext (Sv2NetMsg_header m)); (c2, cs2) = sealed cs1 (m_msg m)
      in (c1 @ c2, cs2))"

definition nonces_left :: "cipher_state \<Rightarrow> nat \<Rightarrow> bool" where
  "nonces_left cs n \<longleftrightarrow> unat (cs_nonce cs) + n \<le> 2 ^ 64 - 1"

definition packet_nonces :: "sv2_net_msg \<Rightarrow> nat" where
  "packet_nonces m = 1 + num_chunks (length (m_msg m))"

lemma sealed_header_nonce:
  assumes "length ext = 2" "nonces_left cs 1" "sealed cs (header_bytes ext h) = (c, cs')"
  shows "unat (cs_nonce cs') = unat (cs_nonce cs) + 1"
proof -
  have "length (chunks (header_bytes ext h)) = 1"
    using length_chunks [of "header_bytes ext h"] assms(1) by (simp add: num_chunks_small)
  then show ?thesis
    using seal_chunks_nonce [of cs "chunks (header_bytes ext h)"] assms(2,3) by (simp add: nonces_left_def)
qed

lemma packet_split:
  assumes "length ext = 2" "length (m_msg m) < 2 ^ 60" "nonces_left cs (packet_nonces m)"
  obtains c1 cs1 c2 cs2 where "sealed cs (header_bytes ext (Sv2NetMsg_header m)) = (c1, cs1)"
    "sealed cs1 (m_msg m) = (c2, cs2)" "packet ext cs m = (c1 @ c2, cs2)" "length c1 = 22"
    "length c2 = EncryptedMessageSize (length (m_msg m))" "nonces_left cs 1"
    "nonces_left cs1 (num_chunks (length (m_msg m)))" "unat (cs_nonce cs2) = unat (cs_nonce cs) + packet_nonces m"
proof -
  let ?h = "header_bytes ext (Sv2NetMsg_header m)"
  obtain c1 cs1 where 1: "sealed cs ?h = (c1, cs1)" by (cases "sealed cs ?h")
  obtain c2 cs2 where 2: "sealed cs1 (m_msg m) = (c2, cs2)" by (cases "sealed cs1 (m_msg m)")
  have n1: "unat (cs_nonce cs1) = unat (cs_nonce cs) + 1"
    using sealed_header_nonce [OF assms(1) _ 1] assms(3) by (simp add: nonces_left_def packet_nonces_def)
  then have n2: "unat (cs_nonce cs2) = unat (cs_nonce cs) + packet_nonces m"
    using seal_chunks_nonce [of cs1 "chunks (m_msg m)"] 2 length_chunks [OF assms(2)] assms(3)
    by (simp add: nonces_left_def packet_nonces_def)
  have "length c1 = 22" "length c2 = EncryptedMessageSize (length (m_msg m))"
    using length_sealed [of ?h cs] length_sealed [OF assms(2), of cs1] 1 2 assms(1)
    by (simp_all add: EncryptedMessageSize_small)
  then show thesis
    using that [OF 1 2] 1 2 n1 n2 assms(3) by (simp add: packet_def nonces_left_def packet_nonces_def)
qed

lemma EncryptedMessageSize_bound: "n < 2 ^ 60 \<Longrightarrow> EncryptedMessageSize n < 2 ^ 62"
  by (simp add: EncryptedMessageSize_eq num_chunks_eq)

lemma SetMessageToSend_steps:
  assumes "t_send_state t = SEND_READY" "t_send_buffer t = []" "length (m_msg m) < 2 ^ 60"
    and "Sv2Cipher_EncryptMessage (header_bytes [0, 0] (Sv2NetMsg_header m)) (zeros 22) (t_cipher t) = Ret (ok1, c1, ci1)"
    and "length c1 = 22" "length c2 = EncryptedMessageSize (length (m_msg m))"
    and "Sv2Cipher_EncryptMessage (m_msg m) (zeros (EncryptedMessageSize (length (m_msg m)))) ci1 = Ret (ok2, c2, ci2)"
  shows "SetMessageToSend (to_CSerializedNetMsg m) t =
    Ret (if ok1 then (ok2, t\<lparr>t_cipher := ci2, t_send_buffer := c1 @ c2\<rparr>)
         else (False, t\<lparr>t_cipher := ci1, t_send_buffer := c1 @ zeros (EncryptedMessageSize (length (m_msg m)))\<rparr>))"
proof -
  let ?E = "EncryptedMessageSize (length (m_msg m))" and ?H = "header_bytes [0, 0] (Sv2NetMsg_header m)"
  have "(22 + ?E) mod 2 ^ 64 = 22 + ?E" using EncryptedMessageSize_bound [OF assms(3)] by simp
  then have z: "zeros ((22 + ?E) mod 2 ^ 64) = zeros 22 @ zeros ?E" by (simp only: replicate_add)
  have o: "overwrite 0 c1 (zeros 22 @ zeros ?E) = c1 @ zeros ?E" "overwrite 22 c2 (c1 @ zeros ?E) = c1 @ c2"
    using assms(5,6) overwrite_append [of 22 c1 c2 "zeros ?E" "[]"] by (simp_all add: overwrite_head)
  have u: "of_CSerializedNetMsg (to_CSerializedNetMsg m) = Ret m"
    by (rule of_to_CSerializedNetMsg) (use assms(3) in simp)
  have h: "Sv2NetHeader_Serialize \<lparr>h_msg_type = m_msg_type m, h_msg_len = of_nat (length (m_msg m))\<rparr> = ?H"
    by (simp add: Sv2NetHeader_Serialize_bytes Sv2NetMsg_header_def)
  have sz: "SV2_HEADER_ENCRYPTED_SIZE = 22" by (simp add: transport_sizes)
  show ?thesis
    unfolding SetMessageToSend_def u sz res_bind.simps Let_def h z using assms o by simp
qed

lemma SetMessageToSend_packet:
  assumes "t_send_state t = SEND_READY" "t_send_buffer t = []" "length (m_msg m) < 2 ^ 60"
    and "nonces_left (send_cs (t_cipher t)) (packet_nonces m)"
    and "packet [0, 0] (send_cs (t_cipher t)) m = (p, cs)"
  shows "SetMessageToSend (to_CSerializedNetMsg m) t =
    Ret (True, t\<lparr>t_cipher := set_send_cs cs (t_cipher t), t_send_buffer := p\<rparr>)"
proof -
  let ?E = "EncryptedMessageSize (length (m_msg m))"
  have two: "length [0, 0 :: u8] = 2" by simp
  obtain c1 cs1 c2 where s: "sealed (send_cs (t_cipher t)) (header_bytes [0, 0] (Sv2NetMsg_header m)) = (c1, cs1)"
    "sealed cs1 (m_msg m) = (c2, cs)" "p = c1 @ c2" "length c1 = 22" "length c2 = ?E"
    and n: "nonces_left (send_cs (t_cipher t)) 1" "nonces_left cs1 (num_chunks (length (m_msg m)))"
    using packet_split [OF two assms(3,4)] assms(5) by (metis prod.inject)
  have e1: "Sv2Cipher_EncryptMessage (header_bytes [0, 0] (Sv2NetMsg_header m)) (zeros 22) (t_cipher t) =
      Ret (True, c1, set_send_cs cs1 (t_cipher t))"
    using EncryptMessage_ok [of "header_bytes [0, 0] (Sv2NetMsg_header m)" "zeros 22" "send_cs (t_cipher t)"] s(1) n(1)
    by (simp add: Sv2Cipher_EncryptMessage_eq EncryptedMessageSize_small num_chunks_small nonces_left_def)
  have e2: "Sv2Cipher_EncryptMessage (m_msg m) (zeros ?E) (set_send_cs cs1 (t_cipher t)) =
      Ret (True, c2, set_send_cs cs (t_cipher t))"
    using EncryptMessage_ok [OF assms(3), of "zeros ?E" cs1] s(2) n(2)
    by (simp add: Sv2Cipher_EncryptMessage_eq nonces_left_def)
  show ?thesis using SetMessageToSend_steps [OF assms(1-3) e1 s(4,5) e2] s(3) by simp
qed

lemma Sv2NetMsg_header_small:
  assumes "0 < length (m_msg m)" "length (m_msg m) \<le> MAX_CONTENTS_LEN"
  shows "unat (h_msg_len (Sv2NetMsg_header m)) = length (m_msg m)" "h_msg_len (Sv2NetMsg_header m) < 2 ^ 24"
    "h_msg_len (Sv2NetMsg_header m) \<noteq> 0"
proof -
  have "length (m_msg m) < 2 ^ LENGTH(32)" using assms(2) by (simp add: MAX_CONTENTS_LEN_def)
  then show 1: "unat (h_msg_len (Sv2NetMsg_header m)) = length (m_msg m)"
    by (simp add: Sv2NetMsg_header_def unat_of_nat_eq)
  then show "h_msg_len (Sv2NetMsg_header m) < 2 ^ 24" using assms(2) by (simp only: small_len [symmetric])
  show "h_msg_len (Sv2NetMsg_header m) \<noteq> 0" using 1 assms(1) by auto
qed

definition app_idle :: "sv2_transport \<Rightarrow> bool" where
  "app_idle t \<longleftrightarrow> t_recv_state t = RECV_APP \<and> t_recv_buffer t = [] \<and> t_send_state t = SEND_READY"

lemma app_idle_inv: "app_idle t \<Longrightarrow> recv_inv t" "app_idle t \<Longrightarrow> recv_limit t = 22"
  by (simp_all add: app_idle_def recv_inv_def recv_limit_def transport_sizes)

text \<open>The state of the receiver when a packet has been taken in.\<close>

definition delivered :: "cipher_state \<Rightarrow> sv2_net_msg \<Rightarrow> sv2_transport \<Rightarrow> sv2_transport" where
  "delivered cs m t = t\<lparr>t_cipher := set_recv_cs cs (t_cipher t), t_recv_state := RECV_APP_READY,
     t_header := Sv2NetMsg_header m, t_message := m\<rparr>"

lemma header_then_payload:
  assumes "app_idle t" "length ext = 2" "h_msg_len h < 2 ^ 24" "h_msg_len h \<noteq> 0"
    and "nonces_left (recv_cs (t_cipher t)) 1" "sealed (recv_cs (t_cipher t)) (header_bytes ext h) = (c1, cs1)"
  defines "t1 \<equiv> t\<lparr>t_recv_buffer := c1, t_cipher := set_recv_cs cs1 (t_cipher t), t_header := h\<rparr>"
  shows "ReceivedBytes S now d (c1 @ b) t = ReceivedBytes S now d b t1"
    "recv_inv t1" "recv_limit t1 = packet_size h" "length c1 = 22"
proof -
  show len: "length c1 = 22"
    using length_sealed [of "header_bytes ext h" "recv_cs (t_cipher t)"] assms(2,6)
    by (simp add: EncryptedMessageSize_small)
  have idle: "t_recv_state t = RECV_APP" "t_recv_buffer t = []" "t_send_state t = SEND_READY"
    using assms(1) by (simp_all add: app_idle_def)
  have "process_received S now d (received c1 t) =
      Ret (True, (received c1 t)\<lparr>t_cipher := set_recv_cs cs1 (t_cipher (received c1 t)), t_header := h\<rparr>)"
    by (rule header_accepted) (use idle assms(2-6) in \<open>simp_all add: nonces_left_def\<close>)
  then show "ReceivedBytes S now d (c1 @ b) t = ReceivedBytes S now d b t1"
    using ReceivedBytes_full [OF app_idle_inv(1) [OF assms(1)], of c1 S now d b] idle len app_idle_inv(2) [OF assms(1)]
    by (simp add: t1_def)
  have h: "0 < unat (h_msg_len h)" "unat (h_msg_len h) \<le> MAX_CONTENTS_LEN"
    using assms(3,4) by (simp_all only: small_len unat_gt_0 not_False_eq_True)
  show "recv_inv t1" "recv_limit t1 = packet_size h"
    using idle len h packet_size_bounds(1) [OF h] by (simp_all add: t1_def recv_inv_def recv_limit_def transport_sizes)
qed

lemma ReceivedBytes_packet:
  assumes idle: "app_idle t" and ext: "length ext = 2"
    and len: "0 < length (m_msg m)" "length (m_msg m) \<le> MAX_CONTENTS_LEN"
    and left: "nonces_left (recv_cs (t_cipher t)) (packet_nonces m)"
    and p: "packet ext (recv_cs (t_cipher t)) m = (p, cs)"
  shows "ReceivedBytes S now d (p @ rest) t = Ret (True, rest, delivered cs m t)"
proof -
  have small: "length (m_msg m) < 2 ^ 60" using len(2) by (simp add: MAX_CONTENTS_LEN_def)
  obtain c1 cs1 c2 where s: "sealed (recv_cs (t_cipher t)) (header_bytes ext (Sv2NetMsg_header m)) = (c1, cs1)"
    "sealed cs1 (m_msg m) = (c2, cs)" "p = c1 @ c2" "length c2 = EncryptedMessageSize (length (m_msg m))"
    and n: "nonces_left (recv_cs (t_cipher t)) 1" "nonces_left cs1 (num_chunks (length (m_msg m)))"
    using packet_split [OF ext small left] p by (metis prod.inject)
  note h = Sv2NetMsg_header_small [OF len]
  let ?t1 = "t\<lparr>t_recv_buffer := c1, t_cipher := set_recv_cs cs1 (t_cipher t), t_header := Sv2NetMsg_header m\<rparr>"
  note r = header_then_payload [OF idle ext h(2,3) n(1) s(1)]
  have app: "t_recv_state ?t1 = RECV_APP" using idle by (simp add: app_idle_def)
  have "process_received S now d (received c2 ?t1) = Ret (True, delivered cs m t)"
    using payload_accepted [of "received c2 ?t1" c1 c2 "m_msg m" cs S now d] app r(4) h(1) len n(2) s(2) idle
    by (simp add: delivered_def nonces_left_def Sv2NetMsg_header_def app_idle_def)
  moreover have "length (t_recv_buffer ?t1) + length c2 = recv_limit ?t1"
    using r(3,4) s(4) h(1) by (simp add: packet_size_def transport_sizes)
  ultimately show ?thesis
    using r(1) [of S now d "c2 @ rest"] ReceivedBytes_full [OF r(2), of c2 S now d rest] app s(3)
    by (simp add: ReceivedBytes_ready delivered_def)
qed

lemma app_short_no_message:
  assumes "recv_inv t" "t_recv_state t = RECV_APP" "ReceivedBytes S now d b t = Ret (ok, rest, t')"
    and "t_recv_state t' = RECV_APP_READY"
  obtains a b' where "b = a @ b'" "length (t_recv_buffer t) + length a = recv_limit t"
proof (rule input_cases [OF assms(1), where msg = b])
  assume s: "t_recv_state t \<noteq> RECV_APP_READY" "length (t_recv_buffer t) + length b < recv_limit t"
  then show thesis using ReceivedBytes_short [OF assms(1) s, of S now d] assms(2-4) by auto
qed (use assms that in auto)

lemma ReceivedBytes_accepts:
  assumes idle: "app_idle t" and r: "ReceivedBytes S now d msg t = Ret (True, rest, t')"
    and ready: "t_recv_state t' = RECV_APP_READY"
  shows "\<exists>ext m cs. length ext = 2 \<and> 0 < length (m_msg m) \<and> length (m_msg m) \<le> MAX_CONTENTS_LEN \<and>
    nonces_left (recv_cs (t_cipher t)) (packet_nonces m) \<and>
    msg = fst (packet ext (recv_cs (t_cipher t)) m) @ rest \<and>
    t' = delivered (snd (packet ext (recv_cs (t_cipher t)) m)) m t"
proof -
  note inv = app_idle_inv [OF idle]
  have app: "t_recv_state t = RECV_APP" "t_recv_buffer t = []" using idle by (simp_all add: app_idle_def)
  obtain a b where ab: "msg = a @ b" "length (t_recv_buffer t) + length a = recv_limit t"
    using app_short_no_message [OF inv(1) app(1) r ready] by blast
  have full: "ReceivedBytes S now d (a @ x) t = (case process_received S now d (received a t) of
       Throw e \<Rightarrow> Abort ''std::terminate'' | Abort m \<Rightarrow> Abort m
     | Ret (ok, t') \<Rightarrow> if ok then ReceivedBytes S now d x t' else Ret (False, x, t'))" for x
    by (rule ReceivedBytes_full) (use inv app ab(2) in simp_all)
  have a22: "t_recv_state (received a t) = RECV_APP" "length (t_recv_buffer (received a t)) = 22"
    using app ab(2) inv(2) by simp_all
  obtain ext h cs1 where h: "length ext = 2" "h_msg_len h < 2 ^ 24" "h_msg_len h \<noteq> 0"
    "nonces_left (recv_cs (t_cipher t)) 1" "sealed (recv_cs (t_cipher t)) (header_bytes ext h) = (a, cs1)"
    by (rule header_cases [OF a22, of S now d]) (use r full [of b] ab(1) app(2) in \<open>auto simp: nonces_left_def\<close>)
  let ?t1 = "t\<lparr>t_recv_buffer := a, t_cipher := set_recv_cs cs1 (t_cipher t), t_header := h\<rparr>"
  note p = header_then_payload [OF idle h]
  have r1: "ReceivedBytes S now d b ?t1 = Ret (True, rest, t')" using r ab(1) p(1) by simp
  have app1: "t_recv_state ?t1 = RECV_APP" using app by simp
  obtain c b' where cb: "b = c @ b'" "length (t_recv_buffer ?t1) + length c = recv_limit ?t1"
    using app_short_no_message [OF p(2) app1 r1 ready] by blast
  have full1: "ReceivedBytes S now d (c @ x) ?t1 = (case process_received S now d (received c ?t1) of
       Throw e \<Rightarrow> Abort ''std::terminate'' | Abort m \<Rightarrow> Abort m
     | Ret (ok, t') \<Rightarrow> if ok then ReceivedBytes S now d x t' else Ret (False, x, t'))" for x
    by (rule ReceivedBytes_full [OF p(2) _ cb(2)]) (use app in simp)
  have len: "0 < unat (h_msg_len (t_header (received c ?t1)))"
      "unat (h_msg_len (t_header (received c ?t1))) \<le> MAX_CONTENTS_LEN"
    using h(2,3) small_len [of h] by (simp_all add: unat_gt_0)
  have c22: "t_recv_state (received c ?t1) = RECV_APP" "t_recv_buffer (received c ?t1) = a @ c"
    "length (t_recv_buffer (received c ?t1)) = packet_size (t_header (received c ?t1))"
    using app cb(2) p(3) by simp_all
  obtain m cs where m: "unat (h_msg_len h) = length m" "nonces_left cs1 (num_chunks (length m))" "sealed cs1 m = (c, cs)"
    by (rule payload_cases [OF c22(1,2) p(4) c22(3) len, of S now d])
      (use r1 full1 [of b'] cb(1) in \<open>auto simp: nonces_left_def\<close>)
  define M where "M = \<lparr>m_msg_type = h_msg_type h, m_msg = m\<rparr>"
  have hM: "Sv2NetMsg_header M = h" using m(1) by (simp add: M_def Sv2NetMsg_header_def flip: m(1))
  have pk: "packet ext (recv_cs (t_cipher t)) M = (a @ c, cs)" using h(5) m(3) hM by (simp add: packet_def M_def)
  have nl: "nonces_left (recv_cs (t_cipher t)) (packet_nonces M)"
    using sealed_header_nonce [OF h(1,4,5)] m(2) by (simp add: nonces_left_def packet_nonces_def M_def)
  have lM: "0 < length (m_msg M)" "length (m_msg M) \<le> MAX_CONTENTS_LEN" using len m(1) by (simp_all add: M_def)
  have "ReceivedBytes S now d msg t = Ret (True, b', delivered cs M t)"
    using ReceivedBytes_packet [OF idle h(1) lM nl pk, of S now d b'] ab(1) cb(1) by simp
  then have e: "rest = b'" "t' = delivered cs M t" using r by simp_all
  show ?thesis
    by (rule exI [of _ ext], rule exI [of _ M]) (use h(1) lM nl pk ab(1) cb(1) e in simp)
qed

section \<open>Sending\<close>

lemma EncryptMessage_total:
  assumes "length p < 2 ^ 60" "length buf = EncryptedMessageSize (length p)"
  shows "\<exists>ok c cs. Sv2Cipher_EncryptMessage p buf ci = Ret (ok, c, set_send_cs cs ci) \<and> length c = length buf"
proof (cases "unat (cs_nonce (send_cs ci)) + num_chunks (length p) \<le> 2 ^ 64 - 1")
  case True
  show ?thesis
    using EncryptMessage_ok [OF assms True] length_sealed [OF assms(1), of "send_cs ci"] assms(2)
    by (cases "sealed (send_cs ci) p") (auto simp: Sv2Cipher_EncryptMessage_eq)
next
  case False
  then show ?thesis
    using EncryptMessage_exhausted [OF assms, of "send_cs ci"] assms(2)
    by (auto simp: Sv2Cipher_EncryptMessage_eq)
qed

text \<open>The parts of a transport that sending leaves alone.\<close>

definition same_receiver :: "sv2_transport \<Rightarrow> sv2_transport \<Rightarrow> bool" where
  "same_receiver t t' \<longleftrightarrow> t_recv_state t' = t_recv_state t \<and> t_recv_buffer t' = t_recv_buffer t \<and>
     t_header t' = t_header t \<and> t_message t' = t_message t \<and> t_send_state t' = t_send_state t \<and>
     t_initiating t' = t_initiating t \<and> recv_cs (t_cipher t') = recv_cs (t_cipher t)"

lemma same_receiver_inv:
  assumes "same_receiver t t'" "t_recv_state t \<in> {RECV_APP, RECV_APP_READY}" "recv_inv t"
  shows "recv_inv t'"
  using assms by (auto simp: same_receiver_def recv_inv_def)

lemma SetMessageToSend_total:
  assumes "send_inv t" "length (m_msg m) \<le> MAX_CONTENTS_LEN"
  shows "\<exists>ok t'. SetMessageToSend (to_CSerializedNetMsg m) t = Ret (ok, t') \<and> send_inv t' \<and> same_receiver t t' \<and>
    (t_send_state t = SEND_READY \<and> t_send_buffer t = [] \<longrightarrow> t_send_pos t' = 0 \<and> 22 \<le> length (t_send_buffer t')) \<and>
    (\<not> (t_send_state t = SEND_READY \<and> t_send_buffer t = []) \<longrightarrow> \<not> ok \<and> t' = t)"
proof (cases "t_send_state t = SEND_READY \<and> t_send_buffer t = []")
  case True
  let ?E = "EncryptedMessageSize (length (m_msg m))" and ?H = "header_bytes [0, 0] (Sv2NetMsg_header m)"
  have small: "length (m_msg m) < 2 ^ 60" using assms(2) by (simp add: MAX_CONTENTS_LEN_def)
  have E: "?E < 2 ^ 30" by (rule msg_len_bound [OF assms(2)])
  obtain ok1 c1 cs1 where e1: "Sv2Cipher_EncryptMessage ?H (zeros 22) (t_cipher t) = Ret (ok1, c1, set_send_cs cs1 (t_cipher t))"
    "length c1 = 22" using EncryptMessage_total [of ?H "zeros 22" "t_cipher t"] by (auto simp: EncryptedMessageSize_small)
  obtain ok2 c2 cs2 where e2: "Sv2Cipher_EncryptMessage (m_msg m) (zeros ?E) (set_send_cs cs1 (t_cipher t)) =
      Ret (ok2, c2, set_send_cs cs2 (set_send_cs cs1 (t_cipher t)))" "length c2 = ?E"
    using EncryptMessage_total [OF small, of "zeros ?E" "set_send_cs cs1 (t_cipher t)"] by auto
  have pos: "t_send_pos t = 0" using True assms(1) by (simp add: send_inv_def)
  have "SetMessageToSend (to_CSerializedNetMsg m) t =
      Ret (if ok1 then (ok2, t\<lparr>t_cipher := set_send_cs cs2 (t_cipher t), t_send_buffer := c1 @ c2\<rparr>)
           else (False, t\<lparr>t_cipher := set_send_cs cs1 (t_cipher t), t_send_buffer := c1 @ zeros ?E\<rparr>))"
    using SetMessageToSend_steps [OF _ _ small e1 e2(2,1)] True by simp
  then show ?thesis
    using True E e1(2) e2(2) pos by (cases ok1) (auto simp: send_inv_def same_receiver_def)
next
  case False
  then show ?thesis using assms(1) by (auto simp: SetMessageToSend_def same_receiver_def)
qed

lemma MarkBytesSent_inv:
  assumes "send_inv t" "n \<le> length (drop (unat (t_send_pos t)) (t_send_buffer t))"
  shows "\<exists>t'. MarkBytesSent n t = Ret t' \<and> send_inv t' \<and> same_receiver t t' \<and> t_cipher t' = t_cipher t \<and>
    drop (unat (t_send_pos t')) (t_send_buffer t') = drop n (drop (unat (t_send_pos t)) (t_send_buffer t))"
proof -
  have "unat (t_send_pos t) + n < 2 ^ 32" "unat (t_send_pos t) + n \<le> length (t_send_buffer t)"
    using assms by (auto simp: send_inv_def)
  moreover from this have "unat (t_send_pos t + of_nat n) = unat (t_send_pos t) + n"
    by (simp add: unat_word_ariths unat_of_nat_eq)
  ultimately show ?thesis
    using assms(1) by (auto simp: MarkBytesSent_def send_inv_def same_receiver_def add.commute)
qed

section \<open>Two ends\<close>

definition linked :: "sv2_transport \<Rightarrow> sv2_transport \<Rightarrow> bool" where
  "linked ts tr \<longleftrightarrow> send_cs (t_cipher ts) = recv_cs (t_cipher tr)"

text \<open>
  The handshake of two transports: the responder takes in what the initiator has to send, the
  initiator marks it sent, takes in the reply, and the responder marks that sent.
\<close>

definition transport_handshake ::
  "secp256k1 \<Rightarrow> int \<Rightarrow> draw \<Rightarrow> sv2_transport \<Rightarrow> sv2_transport \<Rightarrow> (bool \<times> sv2_transport \<times> sv2_transport) res" where
  "transport_handshake S now d ti tr =
     res_bind (GetBytesToSend False ti) (\<lambda>(m1, _).
     res_bind (MarkBytesSent (length m1) ti) (\<lambda>ti.
     res_bind (ReceivedBytes S now d m1 tr) (\<lambda>(ok1, rest1, tr).
     res_bind (GetBytesToSend False tr) (\<lambda>(m2, _).
     res_bind (MarkBytesSent (length m2) tr) (\<lambda>tr.
     res_bind (ReceivedBytes S now d m2 ti) (\<lambda>(ok2, rest2, ti).
     Ret (ok1 \<and> ok2 \<and> rest1 = [] \<and> rest2 = [], ti, tr)))))))"

text \<open>One message from one end to the other.\<close>

definition transfer ::
  "secp256k1 \<Rightarrow> int \<Rightarrow> draw \<Rightarrow> sv2_net_msg \<Rightarrow> sv2_transport \<Rightarrow> sv2_transport \<Rightarrow>
     (sv2_net_msg \<times> sv2_transport \<times> sv2_transport) res" where
  "transfer S now d m ts tr =
     res_bind (SetMessageToSend (to_CSerializedNetMsg m) ts) (\<lambda>(_, ts).
     res_bind (GetBytesToSend False ts) (\<lambda>(bytes, _).
     res_bind (MarkBytesSent (length bytes) ts) (\<lambda>ts.
     res_bind (ReceivedBytes S now d bytes tr) (\<lambda>(_, _, tr).
     res_bind (GetReceivedMessage tr) (\<lambda>(ds, tr).
     res_bind (of_CNetMessage ds) (\<lambda>m'. Ret (m', ts, tr)))))))"

fun transfers ::
  "secp256k1 \<Rightarrow> int \<Rightarrow> draw \<Rightarrow> sv2_net_msg list \<Rightarrow> sv2_transport \<Rightarrow> sv2_transport \<Rightarrow>
     (sv2_net_msg list \<times> sv2_transport \<times> sv2_transport) res" where
  "transfers S now d [] ts tr = Ret ([], ts, tr)"
| "transfers S now d (m # ms) ts tr =
     res_bind (transfer S now d m ts tr) (\<lambda>(m', ts, tr).
     res_bind (transfers S now d ms ts tr) (\<lambda>(ms', ts, tr). Ret (m' # ms', ts, tr)))"

lemma packet_length:
  assumes "length ext = 2" "length (m_msg m) \<le> MAX_CONTENTS_LEN" "nonces_left cs (packet_nonces m)"
  shows "22 \<le> length (fst (packet ext cs m))" "length (fst (packet ext cs m)) < 2 ^ 32"
    "unat (cs_nonce (snd (packet ext cs m))) = unat (cs_nonce cs) + packet_nonces m"
proof -
  have small: "length (m_msg m) < 2 ^ 60" using assms(2) by (simp add: MAX_CONTENTS_LEN_def)
  have "22 \<le> length (fst (packet ext cs m)) \<and> length (fst (packet ext cs m)) < 2 ^ 32 \<and>
      unat (cs_nonce (snd (packet ext cs m))) = unat (cs_nonce cs) + packet_nonces m"
    by (rule packet_split [OF assms(1) small assms(3)]) (use msg_len_bound [OF assms(2)] in simp)
  then show "22 \<le> length (fst (packet ext cs m))" "length (fst (packet ext cs m)) < 2 ^ 32"
    "unat (cs_nonce (snd (packet ext cs m))) = unat (cs_nonce cs) + packet_nonces m" by blast+
qed

lemma GetReceivedMessage_delivered:
  assumes "length (m_msg m) \<le> MAX_CONTENTS_LEN"
  shows "\<exists>ds. GetReceivedMessage (delivered cs m t) = Ret (ds, (delivered cs m t)\<lparr>t_recv_state := RECV_APP\<rparr>) \<and>
    of_CNetMessage ds = Ret m"
proof -
  have "of_CNetMessage (DataStream (Sv2NetMsg_Serialize m)) = Ret m"
    using of_CNetMessage_type [of "DataStream (Sv2NetMsg_Serialize m)" "m_msg_type m" "m_msg m"] assms
    by (simp add: Sv2NetMsg_Serialize_def ser_writedata8_def MAX_CONTENTS_LEN_def)
  then show ?thesis by (simp add: GetReceivedMessage_def SetReceiveState_def delivered_def)
qed

lemma transfer_ok:
  assumes idle: "app_idle ts" "t_send_buffer ts = []" "t_send_pos ts = 0" "app_idle tr" and l: "linked ts tr"
    and len: "0 < length (m_msg m)" "length (m_msg m) \<le> MAX_CONTENTS_LEN"
    and left: "nonces_left (send_cs (t_cipher ts)) (packet_nonces m)"
  shows "\<exists>ts' tr'. transfer S now d m ts tr = Ret (m, ts', tr') \<and> app_idle ts' \<and> t_send_buffer ts' = [] \<and>
    t_send_pos ts' = 0 \<and> app_idle tr' \<and> linked ts' tr' \<and> recv_cs (t_cipher ts') = recv_cs (t_cipher ts) \<and>
    send_cs (t_cipher tr') = send_cs (t_cipher tr) \<and>
    unat (cs_nonce (send_cs (t_cipher ts'))) = unat (cs_nonce (send_cs (t_cipher ts))) + packet_nonces m"
proof -
  have small: "length (m_msg m) < 2 ^ 60" using len(2) by (simp add: MAX_CONTENTS_LEN_def)
  have two: "length [0, 0 :: u8] = 2" by simp
  obtain p cs where p: "packet [0, 0] (send_cs (t_cipher ts)) m = (p, cs)" by (cases "packet [0, 0] (send_cs (t_cipher ts)) m")
  note pl = packet_length [OF two len(2) left, unfolded p fst_conv snd_conv]
  let ?ts = "ts\<lparr>t_cipher := set_send_cs cs (t_cipher ts), t_send_buffer := p\<rparr>"
  have ready: "t_send_state ts = SEND_READY" using idle(1) by (simp add: app_idle_def)
  note s = SetMessageToSend_packet [OF ready idle(2) small left p]
  have g: "GetBytesToSend False ?ts = Ret (p, False)" using idle(3) by (simp add: GetBytesToSend_def)
  have mk: "MarkBytesSent (length p) ?ts = Ret (?ts\<lparr>t_send_buffer := []\<rparr>)"
    using idle(3) pl(2) by (simp add: MarkBytesSent_def unat_of_nat_eq)
  have r: "ReceivedBytes S now d p tr = Ret (True, [], delivered cs m tr)"
    using ReceivedBytes_packet [OF idle(4) two len, of p cs S now d "[]"] left p l by (simp add: linked_def)
  obtain ds where ds: "GetReceivedMessage (delivered cs m tr) = Ret (ds, (delivered cs m tr)\<lparr>t_recv_state := RECV_APP\<rparr>)"
    "of_CNetMessage ds = Ret m" using GetReceivedMessage_delivered [OF len(2)] by blast
  have "transfer S now d m ts tr = Ret (m, ?ts\<lparr>t_send_buffer := []\<rparr>, (delivered cs m tr)\<lparr>t_recv_state := RECV_APP\<rparr>)"
    unfolding transfer_def s by (simp add: g mk r ds)
  then show ?thesis
    using idle pl(3) by (simp add: app_idle_def linked_def delivered_def)
qed

section \<open>Reachable transports of the server\<close>

inductive transport_reach :: "secp256k1 \<Rightarrow> sv2_transport \<Rightarrow> bool" for S where
  accept: "transport_reach S t"
    if "Sv2Transport_responder S d hdr (Some sk) cert = Ret t" "draw_ok d" "length (cert_sig cert) = 64"
| receive: "transport_reach S t'"
    if "transport_reach S t" "draw_ok d" "ReceivedBytes S now d msg t = Ret (True, rest, t')"
| get: "transport_reach S t'"
    if "transport_reach S t" "ReceivedMessageComplete t" "GetReceivedMessage t = Ret (ds, t')"
| set: "transport_reach S t'"
    if "transport_reach S t" "length (m_msg m) \<le> MAX_CONTENTS_LEN"
      "SetMessageToSend (to_CSerializedNetMsg m) t = Ret (ok, t')"
| mark: "transport_reach S t'"
    if "transport_reach S t" "GetBytesToSend have_next t = Ret (data, go_on)" "n \<le> length data" "MarkBytesSent n t = Ret t'"

lemma responder_inv:
  assumes "secp_ok S" "Sv2Transport_responder S d hdr (Some sk) cert = Ret t" "draw_ok d" "length (cert_sig cert) = 64"
  shows "transport_inv t" "t_recv_state t = RECV_HANDSHAKE_STEP_1" "t_send_state t = SEND_HANDSHAKE_STEP_2"
    "t_recv_buffer t = []" "t_send_buffer t = []"
  using assms
  by (auto simp: Sv2Transport_responder_def Sv2Cipher_responder_def Sv2HandshakeState_responder_def EllSwiftCreate_def
      res_simps draw_ok_def secp_ok_def transport_of_def transport_inv_def send_inv_def recv_inv_def handshaking_def
      Sv2Cipher_def hs_blank_def responder_ready_def transport_sizes split: if_splits)

lemma same_receiver_server:
  assumes "same_receiver t t'" "transport_inv t" "server_state t" "send_inv t'"
    and "t_recv_state t = RECV_HANDSHAKE_STEP_1 \<Longrightarrow> t' = t"
  shows "transport_inv t' \<and> server_state t'"
proof (cases "t_recv_state t = RECV_HANDSHAKE_STEP_1")
  case False
  then have "t_recv_state t \<in> {RECV_APP, RECV_APP_READY}" using assms(3) by (cases "t_recv_state t") (auto simp: server_state_def)
  then show ?thesis
    using same_receiver_inv [OF assms(1)] assms by (simp add: transport_inv_def server_state_def same_receiver_def)
qed (use assms in simp)

lemma GetBytesToSend_inv:
  "send_inv t \<Longrightarrow> GetBytesToSend have_next t =
     Ret (drop (unat (t_send_pos t)) (t_send_buffer t), have_next \<and> t_send_state t = SEND_READY)"
  by (auto simp: GetBytesToSend_def send_inv_def)

lemma GetReceivedMessage_inv:
  assumes "transport_inv t" "t_recv_state t = RECV_APP_READY"
  shows "GetReceivedMessage t = Ret (DataStream (Sv2NetMsg_Serialize (t_message t)), t\<lparr>t_recv_state := RECV_APP\<rparr>)"
    "transport_inv (t\<lparr>t_recv_state := RECV_APP\<rparr>)"
  using assms
  by (simp_all add: GetReceivedMessage_def SetReceiveState_def transport_inv_def send_inv_def recv_inv_def transport_sizes)

lemma transport_reach_inv:
  assumes "secp_ok S" "transport_reach S t"
  shows "transport_inv t \<and> server_state t"
  using assms(2)
proof induction
  case (accept d hdr sk cert t)
  then show ?case using responder_inv [OF assms(1) accept(1-3)] by (simp add: server_state_def)
next
  case (receive t d now msg rest t')
  then have "key_sent t" by (simp add: key_sent_def server_state_def)
  from ReceivedBytes_good [OF _ this assms(1) receive(2), of now msg] receive show ?case by (auto simp: good_step_def)
next
  case (get t ds t')
  then show ?case using GetReceivedMessage_inv [of t] by (auto simp: ReceivedMessageComplete_def server_state_def)
next
  case (set t m ok t')
  then have "t_recv_state t = RECV_HANDSHAKE_STEP_1 \<Longrightarrow> t_send_state t \<noteq> SEND_READY"
    by (simp add: transport_inv_def recv_inv_def)
  with SetMessageToSend_total [of t m] set show ?case
    by (intro same_receiver_server [of t]) (auto simp: transport_inv_def)
next
  case (mark t have_next data go_on n t')
  then have i: "send_inv t" by (simp add: transport_inv_def)
  then have n: "n \<le> length (drop (unat (t_send_pos t)) (t_send_buffer t))" using mark by (simp add: GetBytesToSend_inv)
  have "t' = t" if "t_recv_state t = RECV_HANDSHAKE_STEP_1"
    using that mark n by (auto simp: transport_inv_def recv_inv_def send_inv_def MarkBytesSent_def res_simps)
  with MarkBytesSent_inv [OF i n] mark show ?case by (intro same_receiver_server [of t]) auto
qed

section \<open>Properties\<close>


text \<open>
  C14. The network may cut the byte stream anywhere: receiving \<^verbatim>\<open>a\<close> and then \<^verbatim>\<open>b\<close> (with what was
  left of \<^verbatim>\<open>a\<close> because a message was ready) has the effect of receiving both at once, for every
  state of a server's transport, in the handshake, in a header or in a payload.
\<close>

theorem ReceivedBytes_fragmentation:
  assumes "secp_ok S" "transport_reach S t" "draw_ok d"
  shows "ReceivedBytes S now d (a @ b) t =
    res_bind (ReceivedBytes S now d a t) (\<lambda>(ok, rest, t').
      if ok then ReceivedBytes S now d (rest @ b) t' else Ret (False, rest @ b, t'))"
proof -
  have inv: "transport_inv t" "key_sent t"
    using transport_reach_inv [OF assms(1,2)] by (simp_all add: key_sent_def server_state_def)
  obtain ok rest t' where r: "ReceivedBytes S now d a t = Ret (ok, rest, t')"
    using ReceivedBytes_good [OF inv assms(1,3)] by blast
  show ?thesis unfolding ReceivedBytes_split [OF inv assms(1,3) r, of b] r by simp
qed

text \<open>
  C8. A message reaches the application only when the peer sealed it: when the transport, between
  two messages, reports one as complete, the bytes it took are the header and the payload of that
  very message, not empty and not longer than 16 MiB, sealed under the receiving key with the next
  nonces; only the two extension bytes of the header are free.
\<close>

theorem ReceivedBytes_authentic:
  assumes "app_idle t" "ReceivedBytes S now d msg t = Ret (True, rest, t')" "ReceivedMessageComplete t'"
  shows "\<exists>ext. length ext = 2 \<and> msg = fst (packet ext (recv_cs (t_cipher t)) (t_message t')) @ rest \<and>
    0 < length (m_msg (t_message t')) \<and> length (m_msg (t_message t')) \<le> MAX_CONTENTS_LEN \<and>
    recv_cs (t_cipher t') = snd (packet ext (recv_cs (t_cipher t)) (t_message t')) \<and>
    unat (cs_nonce (recv_cs (t_cipher t'))) = unat (cs_nonce (recv_cs (t_cipher t))) + packet_nonces (t_message t')"
proof -
  obtain ext m where e: "length ext = 2" "0 < length (m_msg m)" "length (m_msg m) \<le> MAX_CONTENTS_LEN"
    "nonces_left (recv_cs (t_cipher t)) (packet_nonces m)" "msg = fst (packet ext (recv_cs (t_cipher t)) m) @ rest"
    "t' = delivered (snd (packet ext (recv_cs (t_cipher t)) m)) m t"
    using ReceivedBytes_accepts [OF assms(1,2)] assms(3) by (auto simp: ReceivedMessageComplete_def)
  have "t_message t' = m" "recv_cs (t_cipher t') = snd (packet ext (recv_cs (t_cipher t)) m)"
    by (simp_all add: e(6) delivered_def)
  then show ?thesis using e(1-3,5) packet_length(3) [OF e(1,3,4)] by auto
qed

definition total_nonces :: "sv2_net_msg list \<Rightarrow> nat" where
  "total_nonces ms = sum_list (map packet_nonces ms)"

text \<open>
  C6. Messages arrive complete, unaltered and in order: after the handshake, every sequence of
  messages of one byte to 16 MiB that one end sends is what the other end hands out, as long as
  nonces are left, and both ends are ready for more.
\<close>

theorem transfers_in_order:
  assumes "app_idle ts" "t_send_buffer ts = []" "t_send_pos ts = 0" "app_idle tr" "linked ts tr"
    and "\<forall>m \<in> set ms. 0 < length (m_msg m) \<and> length (m_msg m) \<le> MAX_CONTENTS_LEN"
    and "nonces_left (send_cs (t_cipher ts)) (total_nonces ms)"
  shows "\<exists>ts' tr'. transfers S now d ms ts tr = Ret (ms, ts', tr') \<and> app_idle ts' \<and> t_send_buffer ts' = [] \<and>
    app_idle tr' \<and> linked ts' tr'"
  using assms
proof (induction ms arbitrary: ts tr)
  case (Cons m ms)
  have m: "0 < length (m_msg m)" "length (m_msg m) \<le> MAX_CONTENTS_LEN"
    and n: "nonces_left (send_cs (t_cipher ts)) (packet_nonces m)"
    using Cons.prems(6,7) by (simp_all add: nonces_left_def total_nonces_def)
  obtain ts1 tr1 where t: "transfer S now d m ts tr = Ret (m, ts1, tr1)" "app_idle ts1" "t_send_buffer ts1 = []"
    "t_send_pos ts1 = 0" "app_idle tr1" "linked ts1 tr1"
    "unat (cs_nonce (send_cs (t_cipher ts1))) = unat (cs_nonce (send_cs (t_cipher ts))) + packet_nonces m"
    using transfer_ok [OF Cons.prems(1-5) m n, of S now d] by blast
  have "nonces_left (send_cs (t_cipher ts1)) (total_nonces ms)"
    using Cons.prems(7) t(7) by (simp add: nonces_left_def total_nonces_def)
  from Cons.IH [OF t(2-6) _ this] Cons.prems(6) show ?case using t(1) by auto
qed auto

lemma send_all:
  assumes "t_send_buffer t = m" "t_send_pos t = 0" "length m < 2 ^ 32"
  shows "GetBytesToSend False t = Ret (m, False)" "MarkBytesSent (length m) t = Ret (t\<lparr>t_send_buffer := []\<rparr>)"
  using assms by (simp_all add: GetBytesToSend_def MarkBytesSent_def unat_of_nat_eq)

lemma ReceivedBytes_exact:
  assumes "recv_inv t" "t_recv_state t \<noteq> RECV_APP_READY" "t_recv_buffer t = []" "length m = recv_limit t"
    and "process_received S now d (t\<lparr>t_recv_buffer := m\<rparr>) = Ret (True, t')"
  shows "ReceivedBytes S now d m t = Ret (True, [], t')"
  using ReceivedBytes_full [OF assms(1,2), of m S now d "[]"] assms(3-5) by simp

lemma transport_handshake_run:
  assumes run: "handshake_run S now di dr hi hr = Ret (True, m1, m2, hi', hr')"
    and len: "length m1 = 64" "length m2 = 234"
    and ready: "responder_ready hr" "hs_ephemeral_key hi = None" "hs_authority_pubkey hi = Some authority"
    and env: "secp_ok S" "draw_ok di"
  shows "\<exists>ti ti' tr'.
    StartSendingHandshake S di (transport_of (Sv2Cipher True hi) True RECV_HANDSHAKE_STEP_2 SEND_HANDSHAKE_STEP_1 h1) = Ret ti \<and>
    transport_handshake S now dr ti (transport_of (Sv2Cipher False hr) False RECV_HANDSHAKE_STEP_1 SEND_HANDSHAKE_STEP_2 h2) =
      Ret (True, ti', tr') \<and>
    app_idle ti' \<and> app_idle tr' \<and> t_send_buffer ti' = [] \<and> t_send_buffer tr' = [] \<and> t_send_pos ti' = 0 \<and>
    t_send_pos tr' = 0 \<and> t_cipher ti' = finished hi' (Sv2Cipher True hi) \<and> t_cipher tr' = finished hr' (Sv2Cipher False hr)"
proof -
  let ?start = "transport_of (Sv2Cipher True hi) True RECV_HANDSHAKE_STEP_2 SEND_HANDSHAKE_STEP_1 h1"
  let ?tr = "transport_of (Sv2Cipher False hr) False RECV_HANDSHAKE_STEP_1 SEND_HANDSHAKE_STEP_2 h2"
  obtain hi1 hr1 where w: "WriteMsgEphemeralPK S di (zeros 64) hi = Ret (m1, hi1)" "ReadMsgEphemeralPK m1 hr = Ret hr1"
    "WriteMsgES S dr (zeros 234) hr1 = Ret (m2, hr')" "ReadMsgES S now m2 hi1 = Ret (True, hi')"
    using run by (auto simp: handshake_run_def res_simps)
  have hi1: "initiator_ready hi1"
    using w(1) WriteMsgEphemeralPK_ok [OF ready(2) env(2,1), of "zeros 64"] ready(3) by (auto simp: initiator_ready_def)
  let ?ti = "?start\<lparr>t_cipher := (Sv2Cipher True hi)\<lparr>c_handshake_state := Some hi1\<rparr>, t_send_buffer := m1,
      t_send_state := SEND_HANDSHAKE_STEP_2\<rparr>"
  have 1: "StartSendingHandshake S di ?start = Ret ?ti"
    using w(1) by (simp add: StartSendingHandshake_def transport_of_def GetHandshakeState_def Sv2Cipher_def transport_sizes)
  let ?reply = "?tr\<lparr>t_cipher := finished hr' (Sv2Cipher False hr), t_recv_state := RECV_APP, t_send_buffer := m2,
      t_send_state := SEND_READY\<rparr>"
  have 2: "ReceivedBytes S now dr m1 ?tr = Ret (True, [], ?reply)"
  proof (rule ReceivedBytes_exact)
    show "process_received S now dr (?tr\<lparr>t_recv_buffer := m1\<rparr>) = Ret (True, ?reply)"
      using ProcessReceivedEphemeralKeyBytes_done [of "?tr\<lparr>t_recv_buffer := m1\<rparr>" hr hr1 S dr m2 hr' now] w len
      by (simp add: transport_of_def Sv2Cipher_def)
  qed (use ready(1) len in \<open>simp_all add: recv_inv_def recv_limit_def transport_of_def handshaking_def Sv2Cipher_def transport_sizes\<close>)
  let ?done = "?ti\<lparr>t_send_buffer := [], t_cipher := finished hi' (Sv2Cipher True hi), t_recv_state := RECV_APP,
      t_send_state := SEND_READY\<rparr>"
  have 3: "ReceivedBytes S now dr m2 (?ti\<lparr>t_send_buffer := []\<rparr>) = Ret (True, [], ?done)"
  proof (rule ReceivedBytes_exact)
    show "process_received S now dr (?ti\<lparr>t_send_buffer := [], t_recv_buffer := m2\<rparr>) = Ret (True, ?done)"
      using ProcessReceivedHandshakeReplyBytes_done [of "?ti\<lparr>t_send_buffer := [], t_recv_buffer := m2\<rparr>" hi1 S now True hi' dr] w len
      by (simp add: transport_of_def Sv2Cipher_def finished_def)
  qed (use hi1 len in \<open>simp_all add: recv_inv_def recv_limit_def transport_of_def handshaking_def Sv2Cipher_def transport_sizes\<close>)
  have "transport_handshake S now dr ?ti ?tr = Ret (True, ?done, ?reply\<lparr>t_send_buffer := []\<rparr>)"
    using send_all [of ?ti m1] send_all [of ?reply m2] len 2 3 by (simp add: transport_handshake_def transport_of_def)
  then show ?thesis using 1 by (auto simp: app_idle_def transport_of_def)
qed

text \<open>
  C13. The handshake of two transports succeeds and leaves them ready for messages in both
  directions: a client that trusts the authority and a server with a certificate of that
  authority, valid now, exchange 64 and 234 bytes, both end between messages with empty buffers,
  and each sends under the cipher state, with nonce zero, that the other receives under.
\<close>

theorem transport_handshake_links:
  assumes "secp_ok S" "draw_ok d0" "draw_ok di" "draw_ok dr" "draw_ok ds"
    and "Sv2Transport_initiator S d0 di h1 (Some ski) (keypair_xonly_pub S ska) = Ret ti"
    and "Sv2Transport_responder S ds h2 (Some skr)
           (Sv2SignatureNoiseMessage S 0 vf vt (keypair_xonly_pub S skr) ska) = Ret tr"
    and "uint vf \<le> now" "now \<le> uint vt"
  shows "\<exists>ti' tr'. transport_handshake S now dr ti tr = Ret (True, ti', tr') \<and> app_idle ti' \<and> app_idle tr' \<and>
    t_send_buffer ti' = [] \<and> t_send_buffer tr' = [] \<and> linked ti' tr' \<and> linked tr' ti' \<and>
    cs_nonce (send_cs (t_cipher ti')) = 0 \<and> cs_nonce (send_cs (t_cipher tr')) = 0"
proof -
  obtain hi where hi: "Sv2HandshakeState_initiator S d0 (Some ski) (keypair_xonly_pub S ska) = Ret hi"
    "StartSendingHandshake S di (transport_of (Sv2Cipher True hi) True RECV_HANDSHAKE_STEP_2 SEND_HANDSHAKE_STEP_1 h1) = Ret ti"
    using assms(6) by (auto simp: Sv2Transport_initiator_def Sv2Cipher_initiator_def res_simps)
  obtain hr where hr: "Sv2HandshakeState_responder S ds (Some skr)
      (Sv2SignatureNoiseMessage S 0 vf vt (keypair_xonly_pub S skr) ska) = Ret hr"
    "tr = transport_of (Sv2Cipher False hr) False RECV_HANDSHAKE_STEP_1 SEND_HANDSHAKE_STEP_2 h2"
    using assms(7) by (auto simp: Sv2Transport_responder_def Sv2Cipher_responder_def res_simps)
  obtain m1 m2 hi' hr' where run: "handshake_run S now di dr hi hr = Ret (True, m1, m2, hi', hr')"
    "length m1 = 64" "length m2 = 234" "hs_symmetric_state hi' = hs_symmetric_state hr'"
    using handshake_run_ok [OF assms(1,3-5) hi(1) hr(1) refl assms(8,9)] by blast
  have "responder_ready hr"
    using hr(1) assms(1) issued_sig_length [OF assms(1)]
    by (auto simp: Sv2HandshakeState_responder_def EllSwiftCreate_def res_simps hs_blank_def responder_ready_def secp_ok_def
        split: if_splits)
  moreover have "hs_ephemeral_key hi = None" "hs_authority_pubkey hi = Some (keypair_xonly_pub S ska)"
    using hi(1) by (auto simp: Sv2HandshakeState_initiator_def res_simps hs_blank_def)
  ultimately obtain ti' tr' where "transport_handshake S now dr ti tr = Ret (True, ti', tr')" "app_idle ti'" "app_idle tr'"
    "t_send_buffer ti' = []" "t_send_buffer tr' = []" "t_cipher ti' = finished hi' (Sv2Cipher True hi)"
    "t_cipher tr' = finished hr' (Sv2Cipher False hr)"
    using transport_handshake_run [OF run(1-3) _ _ _ assms(1,3), of _ h1 h2] hi(2) hr(2) by fastforce
  then show ?thesis
    using run(4) by (simp add: linked_def send_cs_def recv_cs_def finished_def Sv2Cipher_def Split_def split_beta Sv2CipherState_def)
qed

section \<open>Concrete runs\<close>

abbreviation toy_header :: sv2_net_header where "toy_header \<equiv> \<lparr>h_msg_type = 0, h_msg_len = 0\<rparr>"

definition toy_server :: sv2_transport where
  "toy_server = transport_of (Sv2Cipher False toy_responder) False RECV_HANDSHAKE_STEP_1 SEND_HANDSHAKE_STEP_2 toy_header"

definition toy_idle :: "bool \<Rightarrow> sv2_transport" where
  "toy_idle b = transport_of (Sv2Cipher b toy_responder) b RECV_APP SEND_READY toy_header"

definition toy_message :: sv2_net_msg where "toy_message = \<lparr>m_msg_type = 0x74, m_msg = [1, 2, 3]\<rparr>"

lemma toy_server_accepted: "Sv2Transport_responder toy_secp toy_draw toy_header (Some (toy_key 2)) toy_cert = Ret toy_server"
  using toy_states(2) by (simp add: Sv2Transport_responder_def Sv2Cipher_responder_def toy_server_def)

lemma toy_cert_sig: "length (cert_sig toy_cert) = 64"
  using issued_sig_length [OF toy_secp_ok] by (simp add: toy_cert_def)

lemma toy_server_reach: "transport_reach toy_secp toy_server"
  by (rule transport_reach.accept [OF toy_server_accepted]) (simp_all add: draw_ok_def toy_cert_sig)

lemma toy_idle_simps:
  "app_idle (toy_idle b)" "t_send_buffer (toy_idle b) = []" "t_send_pos (toy_idle b) = 0"
  "recv_cs (t_cipher (toy_idle b)) = Sv2CipherState (zeros 32)" "send_cs (t_cipher (toy_idle b)) = Sv2CipherState (zeros 32)"
  by (simp_all add: toy_idle_def transport_of_def app_idle_def recv_cs_def send_cs_def Sv2Cipher_def)

lemma toy_message_simps:
  "length (m_msg toy_message) = 3" "packet_nonces toy_message = 2" "nonces_left (Sv2CipherState (zeros 32)) 2"
  by (simp_all add: toy_message_def packet_nonces_def num_chunks_small nonces_left_def Sv2CipherState_def)


theorem ReceivedBytes_fragmentation_witness:
  "ReceivedBytes toy_secp 150 toy_draw ([1, 2] @ [3]) toy_server =
    res_bind (ReceivedBytes toy_secp 150 toy_draw [1, 2] toy_server) (\<lambda>(ok, rest, t').
      if ok then ReceivedBytes toy_secp 150 toy_draw (rest @ [3]) t' else Ret (False, rest @ [3], t'))"
  by (rule ReceivedBytes_fragmentation [OF toy_secp_ok toy_server_reach]) (simp add: draw_ok_def)

theorem ReceivedBytes_authentic_witness:
  "\<exists>msg t' ext. ReceivedBytes toy_secp 150 toy_draw msg (toy_idle False) = Ret (True, [], t') \<and> ReceivedMessageComplete t' \<and>
    t_message t' = toy_message \<and> length ext = 2 \<and>
    msg = fst (packet ext (recv_cs (t_cipher (toy_idle False))) (t_message t')) @ []"
proof -
  obtain p cs where p: "packet [0, 0] (Sv2CipherState (zeros 32)) toy_message = (p, cs)"
    by (cases "packet [0, 0] (Sv2CipherState (zeros 32)) toy_message")
  have r: "ReceivedBytes toy_secp 150 toy_draw p (toy_idle False) = Ret (True, [], delivered cs toy_message (toy_idle False))"
    using ReceivedBytes_packet [of "toy_idle False" "[0, 0]" toy_message p cs toy_secp 150 toy_draw "[]"] p
    by (simp add: toy_idle_simps toy_message_simps MAX_CONTENTS_LEN_def)
  have c: "ReceivedMessageComplete (delivered cs toy_message (toy_idle False))"
    "t_message (delivered cs toy_message (toy_idle False)) = toy_message"
    by (simp_all add: ReceivedMessageComplete_def delivered_def)
  from ReceivedBytes_authentic [OF toy_idle_simps(1) r c(1)] r c show ?thesis by blast
qed

theorem transfers_in_order_witness:
  "\<exists>ts' tr'. transfers toy_secp 150 toy_draw [toy_message] (toy_idle True) (toy_idle False) = Ret ([toy_message], ts', tr') \<and>
    app_idle ts' \<and> app_idle tr'"
  using transfers_in_order [of "toy_idle True" "toy_idle False" "[toy_message]" toy_secp 150 toy_draw]
  by (auto simp: toy_idle_simps toy_message_simps linked_def total_nonces_def MAX_CONTENTS_LEN_def)

theorem transport_handshake_links_witness:
  "\<exists>ti ti' tr'. Sv2Transport_initiator toy_secp toy_draw toy_draw toy_header (Some (toy_key 1)) (keypair_xonly_pub toy_secp (toy_key 3)) =
      Ret ti \<and> transport_handshake toy_secp 150 toy_draw ti toy_server = Ret (True, ti', tr') \<and> linked ti' tr' \<and> linked tr' ti'"
proof -
  have d: "draw_ok toy_draw" by (simp add: draw_ok_def)
  obtain ti where ti: "Sv2Transport_initiator toy_secp toy_draw toy_draw toy_header (Some (toy_key 1))
      (keypair_xonly_pub toy_secp (toy_key 3)) = Ret ti"
    using toy_states(1) WriteMsgEphemeralPK_ok [of toy_initiator toy_draw toy_secp "zeros 64"] d toy_secp_ok
    by (auto simp: Sv2Transport_initiator_def Sv2Cipher_initiator_def StartSendingHandshake_def transport_of_def
        GetHandshakeState_def Sv2Cipher_def transport_sizes toy_initiator_def hs_blank_def)
  from transport_handshake_links [OF toy_secp_ok d d d d ti toy_server_accepted [unfolded toy_cert_def], of 150]
  show ?thesis using ti by auto
qed

end
