(* ===== verification/Sv2_SockMan.thy ===== *)
theory Sv2_SockMan
  imports Sv2_Prelude
begin

text \<open>
  The socket manager, \<^verbatim>\<open>src/src/common/sockman.h\<close> and \<^verbatim>\<open>src/src/common/sockman.cpp\<close>: connection ids,
  the table of connected sockets, sending, and the thread that polls the sockets and calls the
  virtual functions of the subclass.

  The operating system is an argument. \<^verbatim>\<open>net k data more\<close> is the result of the \<^verbatim>\<open>k\<close>-th \<^verbatim>\<open>send\<close>
  call: an error or the number of bytes taken. What \<^verbatim>\<open>poll\<close>, \<^verbatim>\<open>recv\<close> and \<^verbatim>\<open>accept\<close> return comes
  with the inputs of an iteration. The state keeps a log with one entry per \<^verbatim>\<open>send\<close> call, the
  bytes the socket took, from which the bytes on the wire of a connection are read off.

  The state is an extensible record: the connection manager and the template provider extend it,
  the way the classes derive from and own one another, and the functions here work on any
  extension. The virtual functions are the fields of \<^verbatim>\<open>sock_events\<close>; the locale \<^verbatim>\<open>sock_client\<close>
  says what the event loop needs of them.
\<close>

section \<open>State\<close>

type_synonym sock_id = u64

record sockman =
  sm_next_id :: sock_id
  sm_connected :: "sock_id set"
  sm_interrupt :: bool
  sm_log :: "(sock_id \<times> bytes) list"

datatype sock_error = WSAEWOULDBLOCK | WSAEMSGSIZE | WSAEINTR | WSAEINPROGRESS | OTHER_ERROR

definition transient_error :: "sock_error \<Rightarrow> bool" where
  "transient_error err \<longleftrightarrow>
     err = WSAEWOULDBLOCK \<or> err = WSAEMSGSIZE \<or> err = WSAEINTR \<or> err = WSAEINPROGRESS"

type_synonym net = "nat \<Rightarrow> bytes \<Rightarrow> bool \<Rightarrow> sock_error + nat"

text \<open>A \<^verbatim>\<open>send\<close> call takes at most the bytes it is given.\<close>

definition net_ok :: "net \<Rightarrow> bool" where
  "net_ok net \<longleftrightarrow> (\<forall>k data more n. net k data more = Inr n \<longrightarrow> n \<le> length data)"

section \<open>Operations\<close>

definition GetNewId :: "'a sockman_scheme \<Rightarrow> sock_id \<times> 'a sockman_scheme" where
  "GetNewId w = (sm_next_id w, w\<lparr>sm_next_id := sm_next_id w + 1\<rparr>)"

definition CloseConnection :: "sock_id \<Rightarrow> 'a sockman_scheme \<Rightarrow> bool \<times> 'a sockman_scheme" where
  "CloseConnection cid w = (cid \<in> sm_connected w, w\<lparr>sm_connected := sm_connected w - {cid}\<rparr>)"

definition GetConnectionSockets :: "sock_id \<Rightarrow> 'a sockman_scheme \<Rightarrow> bool" where
  "GetConnectionSockets cid w \<longleftrightarrow> cid \<in> sm_connected w"

definition SendBytes ::
  "net \<Rightarrow> sock_id \<Rightarrow> bytes \<Rightarrow> bool \<Rightarrow> 'a sockman_scheme \<Rightarrow> int \<times> 'a sockman_scheme" where
  "SendBytes net cid data will_send_more w =
     (if data = [] then (0, w)
      else if \<not> GetConnectionSockets cid w then (0, w)
      else case net (length (sm_log w)) data will_send_more of
        Inr sent \<Rightarrow> (int sent, w\<lparr>sm_log := sm_log w @ [(cid, take sent data)]\<rparr>)
      | Inl err \<Rightarrow>
          (if transient_error err then 0 else - 1, w\<lparr>sm_log := sm_log w @ [(cid, [])]\<rparr>))"

text \<open>The virtual functions of the class.\<close>

record 'w sock_events =
  EventNewConnectionAccepted_fn :: "sock_id \<Rightarrow> 'w \<Rightarrow> (bool \<times> 'w) res"
  EventReadyToSend_fn :: "sock_id \<Rightarrow> 'w \<Rightarrow> (bool \<times> 'w) res"
  EventGotData_fn :: "sock_id \<Rightarrow> bytes \<Rightarrow> 'w \<Rightarrow> 'w res"
  EventGotEOF_fn :: "sock_id \<Rightarrow> 'w \<Rightarrow> 'w res"
  EventGotPermanentReadError_fn :: "sock_id \<Rightarrow> 'w \<Rightarrow> 'w res"
  EventIOLoopCompletedForAll_fn :: "'w \<Rightarrow> 'w res"

definition NewSockAccepted ::
  "'a sockman_scheme sock_events \<Rightarrow> bool \<Rightarrow> 'a sockman_scheme \<Rightarrow> 'a sockman_scheme res" where
  "NewSockAccepted ev is_selectable w =
     (if \<not> is_selectable then Ret w
      else
        let (cid, w) = GetNewId w; w = w\<lparr>sm_connected := insert cid (sm_connected w)\<rparr> in
        res_bind (EventNewConnectionAccepted_fn ev cid w) (\<lambda>(accepted, w).
        Ret (if accepted then w else snd (CloseConnection cid w))))"

text \<open>
  What one poll reports for a connected socket, together with what \<^verbatim>\<open>recv\<close> gives if it is
  called: an error, no bytes at the end of the stream, or up to 65536 bytes.
\<close>

record io_event =
  io_id :: sock_id
  io_send_ready :: bool
  io_recv_ready :: bool
  io_err_ready :: bool
  io_recv :: "sock_error + bytes"

definition recv_socket ::
  "'a sockman_scheme sock_events \<Rightarrow> io_event \<Rightarrow> 'a sockman_scheme \<Rightarrow> 'a sockman_scheme res" where
  "recv_socket ev e w =
     (if \<not> GetConnectionSockets (io_id e) w then Ret w
      else case io_recv e of
        Inl err \<Rightarrow> if \<not> transient_error err then EventGotPermanentReadError_fn ev (io_id e) w else Ret w
      | Inr data \<Rightarrow> if data = [] then EventGotEOF_fn ev (io_id e) w else EventGotData_fn ev (io_id e) data w)"

fun SocketHandlerConnected ::
  "'a sockman_scheme sock_events \<Rightarrow> io_event list \<Rightarrow> 'a sockman_scheme \<Rightarrow> 'a sockman_scheme res" where
  "SocketHandlerConnected ev [] w = Ret w"
| "SocketHandlerConnected ev (e # es) w =
     (if sm_interrupt w then Ret w
      else
        res_bind (if io_send_ready e then EventReadyToSend_fn ev (io_id e) w else Ret (False, w)) (\<lambda>(cancel_recv, w).
        res_bind (if (io_recv_ready e \<and> \<not> cancel_recv) \<or> io_err_ready e then recv_socket ev e w else Ret w) (\<lambda>w.
        SocketHandlerConnected ev es w)))"

text \<open>
  The accept results of the listening sockets that are ready: \<^verbatim>\<open>None\<close> when \<^verbatim>\<open>accept\<close> fails,
  otherwise whether the new socket is selectable.
\<close>

fun SocketHandlerListening ::
  "'a sockman_scheme sock_events \<Rightarrow> bool option list \<Rightarrow> 'a sockman_scheme \<Rightarrow> 'a sockman_scheme res" where
  "SocketHandlerListening ev [] w = Ret w"
| "SocketHandlerListening ev (a # accepts) w =
     (if sm_interrupt w then Ret w
      else
        res_bind (case a of None \<Rightarrow> Ret w | Some is_selectable \<Rightarrow> NewSockAccepted ev is_selectable w) (\<lambda>w.
        SocketHandlerListening ev accepts w))"

text \<open>
  The polling thread: one element of the list is what the sockets report in one iteration, for
  the sockets that \<^verbatim>\<open>GenerateWaitSockets\<close> selects, which are all the connected ones.
\<close>

definition GenerateWaitSockets :: "io_event list \<Rightarrow> 'a sockman_scheme \<Rightarrow> io_event list" where
  "GenerateWaitSockets es w = filter (\<lambda>e. io_id e \<in> sm_connected w) es"

fun ThreadSocketHandler ::
  "'a sockman_scheme sock_events \<Rightarrow> (io_event list \<times> bool option list) list \<Rightarrow>
     'a sockman_scheme \<Rightarrow> 'a sockman_scheme res" where
  "ThreadSocketHandler ev [] w = Ret w"
| "ThreadSocketHandler ev ((es, accepts) # inputs) w =
     (if sm_interrupt w then Ret w
      else
        res_bind (EventIOLoopCompletedForAll_fn ev w) (\<lambda>w.
        res_bind (SocketHandlerConnected ev (GenerateWaitSockets es w) w) (\<lambda>w.
        res_bind (SocketHandlerListening ev accepts w) (\<lambda>w.
        ThreadSocketHandler ev inputs w))))"

section \<open>The wire\<close>

definition wire :: "sock_id \<Rightarrow> 'a sockman_scheme \<Rightarrow> bytes" where
  "wire cid w = concat (map snd (filter (\<lambda>(i, b). i = cid) (sm_log w)))"

lemma SendBytes_cases:
  assumes "net_ok net" "SendBytes net cid data go_on w = (sent, w')"
  shows "- 1 \<le> sent" "sent \<le> int (length data)" "wire cid w' = wire cid w @ take (nat sent) data"
    "i \<noteq> cid \<Longrightarrow> wire i w' = wire i w" "sm_connected w' = sm_connected w" "sm_next_id w' = sm_next_id w"
    "sm_interrupt w' = sm_interrupt w" "sockman.more w' = sockman.more w"
    "sent < 0 \<Longrightarrow> cid \<in> sm_connected w"
proof -
  have n: "net k data go_on = Inr n \<Longrightarrow> n \<le> length data" for k n
    using assms(1) by (auto simp: net_ok_def)
  show "- 1 \<le> sent" "sent \<le> int (length data)" "wire cid w' = wire cid w @ take (nat sent) data"
    "i \<noteq> cid \<Longrightarrow> wire i w' = wire i w" "sm_connected w' = sm_connected w" "sm_next_id w' = sm_next_id w"
    "sm_interrupt w' = sm_interrupt w" "sockman.more w' = sockman.more w" "sent < 0 \<Longrightarrow> cid \<in> sm_connected w"
    using assms(2) n
    by (auto simp: SendBytes_def wire_def GetConnectionSockets_def split: if_splits sum.splits)
qed

section \<open>What the event loop needs of its callbacks\<close>

text \<open>
  A client of the socket manager keeps an invariant \<^verbatim>\<open>I\<close> in every callback. A new connection
  comes with the next id, which the table of sockets already holds; the counter wraps at 64 bits,
  so freshness is promised for the first \<^verbatim>\<open>2 ^ 63\<close> connections only.
\<close>

locale sock_client =
  fixes ev :: "'a sockman_scheme sock_events" and I :: "'a sockman_scheme \<Rightarrow> bool"
  assumes new: "I w \<Longrightarrow> sm_next_id w < 2 ^ 63 \<Longrightarrow>
      EventNewConnectionAccepted_fn ev (sm_next_id w)
        (w\<lparr>sm_next_id := sm_next_id w + 1, sm_connected := insert (sm_next_id w) (sm_connected w)\<rparr>) = Ret (b, w') \<Longrightarrow>
      b \<and> I w' \<and> sm_next_id w' = sm_next_id w + 1"
    and send: "I w \<Longrightarrow> EventReadyToSend_fn ev cid w = Ret (b, w') \<Longrightarrow> I w' \<and> sm_next_id w' = sm_next_id w"
    and got: "I w \<Longrightarrow> cid \<in> sm_connected w \<Longrightarrow> EventGotData_fn ev cid data w = Ret w' \<Longrightarrow>
      I w' \<and> sm_next_id w' = sm_next_id w"
    and eof: "I w \<Longrightarrow> cid \<in> sm_connected w \<Longrightarrow> EventGotEOF_fn ev cid w = Ret w' \<Longrightarrow> I w' \<and> sm_next_id w' = sm_next_id w"
    and err: "I w \<Longrightarrow> cid \<in> sm_connected w \<Longrightarrow> EventGotPermanentReadError_fn ev cid w = Ret w' \<Longrightarrow> I w' \<and> sm_next_id w' = sm_next_id w"
    and all: "I w \<Longrightarrow> EventIOLoopCompletedForAll_fn ev w = Ret w' \<Longrightarrow> I w' \<and> sm_next_id w' = sm_next_id w"
begin

lemma recv_socket_inv:
  assumes "I w" "recv_socket ev e w = Ret w'"
  shows "I w' \<and> sm_next_id w' = sm_next_id w"
  using assms(2) got [OF assms(1), of "io_id e" _ w'] eof [OF assms(1), of "io_id e" w'] err [OF assms(1), of "io_id e" w'] assms(1)
  by (cases "io_recv e") (simp_all add: recv_socket_def GetConnectionSockets_def split: if_splits)

lemma SocketHandlerConnected_inv:
  "I w \<Longrightarrow> SocketHandlerConnected ev es w = Ret w' \<Longrightarrow> I w' \<and> sm_next_id w' = sm_next_id w"
proof (induction es arbitrary: w)
  case (Cons e es)
  show ?case
  proof (cases "sm_interrupt w")
    case False
    then obtain b w1 w2 where s:
      "(if io_send_ready e then EventReadyToSend_fn ev (io_id e) w else Ret (False, w)) = Ret (b, w1)"
      "(if (io_recv_ready e \<and> \<not> b) \<or> io_err_ready e then recv_socket ev e w1 else Ret w1) = Ret w2"
      "SocketHandlerConnected ev es w2 = Ret w'"
      using Cons.prems(2) by (auto simp: res_simps)
    have 1: "I w1 \<and> sm_next_id w1 = sm_next_id w" using s(1) send [OF Cons.prems(1)] Cons.prems(1) by (auto split: if_splits)
    have 2: "I w2 \<and> sm_next_id w2 = sm_next_id w" using s(2) recv_socket_inv [of w1 e w2] 1 by (auto split: if_splits)
    show ?thesis using Cons.IH [OF _ s(3)] 2 by simp
  qed (use Cons.prems in simp)
qed simp

lemma NewSockAccepted_inv:
  assumes "I w" "unat (sm_next_id w) + 1 < 2 ^ 63" "NewSockAccepted ev s w = Ret w'"
  shows "I w' \<and> unat (sm_next_id w') \<le> unat (sm_next_id w) + 1"
proof (cases s)
  case True
  have lim: "sm_next_id w < 2 ^ 63" "unat (sm_next_id w + 1) = unat (sm_next_id w) + 1"
    using assms(2) by (simp_all add: word_less_nat_alt unat_word_ariths)
  obtain b w1 where e: "EventNewConnectionAccepted_fn ev (sm_next_id w)
      (w\<lparr>sm_next_id := sm_next_id w + 1, sm_connected := insert (sm_next_id w) (sm_connected w)\<rparr>) = Ret (b, w1)"
    "w' = (if b then w1 else snd (CloseConnection (sm_next_id w) w1))"
    using assms(3) True by (auto simp: NewSockAccepted_def GetNewId_def Let_def res_simps)
  show ?thesis using new [OF assms(1) lim(1) e(1)] e(2) lim(2) by simp
qed (use assms in \<open>simp add: NewSockAccepted_def\<close>)

lemma SocketHandlerListening_inv:
  "I w \<Longrightarrow> unat (sm_next_id w) + length accepts < 2 ^ 63 \<Longrightarrow> SocketHandlerListening ev accepts w = Ret w' \<Longrightarrow>
   I w' \<and> unat (sm_next_id w') \<le> unat (sm_next_id w) + length accepts"
proof (induction accepts arbitrary: w)
  case (Cons a accepts)
  show ?case
  proof (cases "sm_interrupt w")
    case False
    then obtain w1 where s: "(case a of None \<Rightarrow> Ret w | Some s \<Rightarrow> NewSockAccepted ev s w) = Ret w1"
      "SocketHandlerListening ev accepts w1 = Ret w'" using Cons.prems(3) by (auto simp: res_simps)
    have "unat (sm_next_id w) + 1 < 2 ^ 63" using Cons.prems(2) by simp
    then have 1: "I w1 \<and> unat (sm_next_id w1) \<le> unat (sm_next_id w) + 1"
      using s(1) NewSockAccepted_inv [OF Cons.prems(1)] Cons.prems(1) by (auto split: option.splits)
    then have "unat (sm_next_id w1) + length accepts < 2 ^ 63" using Cons.prems(2) by simp
    from Cons.IH [OF _ this s(2)] 1 show ?thesis by simp
  qed (use Cons.prems in simp)
qed simp

lemma ThreadSocketHandler_inv:
  "I w \<Longrightarrow> unat (sm_next_id w) + sum_list (map (\<lambda>(es, accepts). length accepts) inputs) < 2 ^ 63 \<Longrightarrow>
   ThreadSocketHandler ev inputs w = Ret w' \<Longrightarrow>
   I w' \<and> unat (sm_next_id w') \<le> unat (sm_next_id w) + sum_list (map (\<lambda>(es, accepts). length accepts) inputs)"
proof (induction inputs arbitrary: w)
  case (Cons i inputs)
  obtain es accepts where i: "i = (es, accepts)" by (cases i)
  show ?case
  proof (cases "sm_interrupt w")
    case False
    then obtain w1 w2 w3 where s: "EventIOLoopCompletedForAll_fn ev w = Ret w1"
      "SocketHandlerConnected ev (GenerateWaitSockets es w1) w1 = Ret w2" "SocketHandlerListening ev accepts w2 = Ret w3"
      "ThreadSocketHandler ev inputs w3 = Ret w'" using Cons.prems(3) by (auto simp: i res_simps)
    have 2: "I w2 \<and> sm_next_id w2 = sm_next_id w"
      using SocketHandlerConnected_inv [OF _ s(2)] all [OF Cons.prems(1) s(1)] by simp
    then have 3: "I w3 \<and> unat (sm_next_id w3) \<le> unat (sm_next_id w) + length accepts"
      using SocketHandlerListening_inv [OF _ _ s(3)] Cons.prems(2) by (simp add: i)
    then have "unat (sm_next_id w3) + sum_list (map (\<lambda>(es, accepts). length accepts) inputs) < 2 ^ 63"
      using Cons.prems(2) by (simp add: i)
    from Cons.IH [OF _ this s(4)] 3 show ?thesis by (simp add: i)
  qed (use Cons.prems in \<open>simp add: i\<close>)
qed simp

end

end
