(* ===== verification/Sv2_Connman.thy ===== *)
theory Sv2_Connman
  imports Sv2_Transport Sv2_SockMan
begin

text \<open>
  The connection manager, \<^verbatim>\<open>src/src/sv2/connman.h\<close> and \<^verbatim>\<open>src/src/sv2/connman.cpp\<close>: the clients, their
  send queues, the callbacks of the socket manager, and the dispatch of the messages a client
  sends.

  The state extends that of the socket manager. The map of clients is an association list, which
  fixes one of the orders an unordered map may be visited in. A callback works on the client it
  looked up and stores it back. The template provider is reached through the two functions of
  \<^verbatim>\<open>sv2_events\<close>; they may throw, so they return the exception next to the state in which it left
  them. \<^verbatim>\<open>debug\<close> tells whether debug log lines are on: their arguments are evaluated only then.
\<close>

section \<open>State\<close>

definition TP_SUBPROTOCOL :: u8 where "TP_SUBPROTOCOL = 0x02"
definition MAX_BLOCK_WEIGHT :: u32 where "MAX_BLOCK_WEIGHT = 4000000"

record sv2_client =
  cl_id :: sock_id
  cl_transport :: sv2_transport
  cl_setup_connection_confirmed :: bool
  cl_disconnect_flag :: bool
  cl_send_messages :: "sv2_net_msg list"
  cl_coinbase_output_constraints_recv :: bool
  cl_coinbase_tx_outputs_size :: u32
  cl_best_template_id :: u64

text \<open>\<^verbatim>\<open>m_coinbase_tx_outputs_size\<close> has no initialiser; its first value is an argument.\<close>

definition Sv2Client :: "sock_id \<Rightarrow> sv2_transport \<Rightarrow> u32 \<Rightarrow> sv2_client" where
  "Sv2Client cid transport garbage =
     \<lparr>cl_id = cid, cl_transport = transport, cl_setup_connection_confirmed = False, cl_disconnect_flag = False,
      cl_send_messages = [], cl_coinbase_output_constraints_recv = False,
      cl_coinbase_tx_outputs_size = garbage, cl_best_template_id = 0\<rparr>"

definition IsFullyConnected :: "sv2_client \<Rightarrow> bool" where
  "IsFullyConnected c \<longleftrightarrow> \<not> cl_disconnect_flag c \<and> cl_setup_connection_confirmed c"

record connman = sockman +
  cm_subprotocol :: u8
  cm_static_key :: ckey
  cm_authority_pubkey :: bytes
  cm_certificate :: "certificate option"
  cm_clients :: "(sock_id \<times> sv2_client) list"

definition m_protocol_version :: u16 where "m_protocol_version = 2"
definition m_optional_features :: u16 where "m_optional_features = 0"

definition Sv2Connman :: "u8 \<Rightarrow> ckey \<Rightarrow> bytes \<Rightarrow> certificate \<Rightarrow> connman" where
  "Sv2Connman subprotocol static_key authority_pubkey cert =
     \<lparr>sm_next_id = 0, sm_connected = {}, sm_interrupt = False, sm_log = [], cm_subprotocol = subprotocol,
      cm_static_key = static_key, cm_authority_pubkey = authority_pubkey, cm_certificate = Some cert,
      cm_clients = []\<rparr>"

definition GetClientById :: "sock_id \<Rightarrow> 'a connman_scheme \<Rightarrow> sv2_client option" where
  "GetClientById node_id w = map_of (cm_clients w) node_id"

primrec put_entry :: "'k \<Rightarrow> 'v \<Rightarrow> ('k \<times> 'v) list \<Rightarrow> ('k \<times> 'v) list" where
  "put_entry node_id c [] = []"
| "put_entry node_id c (x # xs) = (if fst x = node_id then (node_id, c) else x) # put_entry node_id c xs"

definition put_client :: "sock_id \<Rightarrow> sv2_client \<Rightarrow> 'a connman_scheme \<Rightarrow> 'a connman_scheme" where
  "put_client node_id c w = w\<lparr>cm_clients := put_entry node_id c (cm_clients w)\<rparr>"

definition ConnectedClients :: "'a connman_scheme \<Rightarrow> nat" where
  "ConnectedClients w = length (filter (\<lambda>(i, c). \<not> cl_disconnect_flag c) (cm_clients w))"

definition FullyConnectedClients :: "'a connman_scheme \<Rightarrow> nat" where
  "FullyConnectedClients w = length (filter (\<lambda>(i, c). IsFullyConnected c) (cm_clients w))"

text \<open>The callback of \<^verbatim>\<open>ForEachClient\<close> works on a state of its caller.\<close>

definition ForEachClient :: "(sv2_client \<Rightarrow> 's \<Rightarrow> 's) \<Rightarrow> 'a connman_scheme \<Rightarrow> 's \<Rightarrow> 's" where
  "ForEachClient func w s = fold (\<lambda>(i, c) s. if IsFullyConnected c then func c s else s) (cm_clients w) s"

section \<open>Connections\<close>

fun disconnect_clients ::
  "(sock_id \<times> sv2_client) list \<Rightarrow> 'a sockman_scheme \<Rightarrow> (sock_id \<times> sv2_client) list \<times> 'a sockman_scheme" where
  "disconnect_clients [] w = ([], w)"
| "disconnect_clients ((i, c) # cs) w =
     (if cl_send_messages c = [] \<and> cl_disconnect_flag c
      then disconnect_clients cs (snd (CloseConnection (cl_id c) w))
      else let (cs', w) = disconnect_clients cs w in ((i, c) # cs', w))"

definition DisconnectFlagged :: "'a connman_scheme \<Rightarrow> 'a connman_scheme" where
  "DisconnectFlagged w = (let (cs, w) = disconnect_clients (cm_clients w) w in w\<lparr>cm_clients := cs\<rparr>)"

definition EventIOLoopCompletedForAll :: "'a connman_scheme \<Rightarrow> 'a connman_scheme res" where
  "EventIOLoopCompletedForAll w = Ret (DisconnectFlagged w)"

definition Sv2Connman_Interrupt :: "'a connman_scheme \<Rightarrow> 'a connman_scheme" where
  "Sv2Connman_Interrupt w = w\<lparr>sm_interrupt := True\<rparr>"

definition Sv2Connman_destructor :: "'a connman_scheme \<Rightarrow> 'a connman_scheme" where
  "Sv2Connman_destructor w =
     Sv2Connman_Interrupt (DisconnectFlagged
       (w\<lparr>cm_clients := map (\<lambda>(i, c). (i, c\<lparr>cl_disconnect_flag := True\<rparr>)) (cm_clients w)\<rparr>))"

text \<open>\<^verbatim>\<open>emplace\<close> keeps an existing entry. \<^verbatim>\<open>hdr\<close> and \<^verbatim>\<open>garbage\<close> are the uninitialised members.\<close>

definition EventNewConnectionAccepted ::
  "secp256k1 \<Rightarrow> draw \<Rightarrow> sv2_net_header \<Rightarrow> u32 \<Rightarrow> sock_id \<Rightarrow> 'a connman_scheme \<Rightarrow> (bool \<times> 'a connman_scheme) res" where
  "EventNewConnectionAccepted S d hdr garbage node_id w =
     (case cm_certificate w of
        None \<Rightarrow> Abort ''m_certificate''
      | Some cert \<Rightarrow>
          res_bind (Sv2Transport_responder S d hdr (cm_static_key w) cert) (\<lambda>transport.
          Ret (True, if GetClientById node_id w = None
                     then w\<lparr>cm_clients := cm_clients w @ [(node_id, Sv2Client node_id transport garbage)]\<rparr>
                     else w)))"

definition flag_client :: "sock_id \<Rightarrow> 'a connman_scheme \<Rightarrow> 'a connman_scheme" where
  "flag_client node_id w =
     (case GetClientById node_id w of
        None \<Rightarrow> w
      | Some c \<Rightarrow> put_client node_id (c\<lparr>cl_disconnect_flag := True\<rparr>) w)"

definition EventGotEOF :: "sock_id \<Rightarrow> 'a connman_scheme \<Rightarrow> 'a connman_scheme res" where
  "EventGotEOF node_id w = Ret (flag_client node_id w)"

definition EventGotPermanentReadError :: "sock_id \<Rightarrow> 'a connman_scheme \<Rightarrow> 'a connman_scheme res" where
  "EventGotPermanentReadError node_id w = Ret (flag_client node_id w)"

section \<open>Sending\<close>

text \<open>Handing the next message to the transport.\<close>

definition take_message :: "sv2_net_msg list \<Rightarrow> sv2_transport \<Rightarrow> (sv2_net_msg list \<times> sv2_transport) res" where
  "take_message it t = (case it of
       [] \<Rightarrow> Ret (it, t)
     | m # ms \<Rightarrow> res_bind (SetMessageToSend (to_CSerializedNetMsg m) t) (\<lambda>(ok, t). Ret (if ok then ms else it, t)))"

text \<open>
  One round of the loop: the messages not yet handed to the transport, the predicted \<^verbatim>\<open>more\<close>, the
  bytes sent so far and the transport. The first component of the result says whether the loop goes on.
\<close>

definition send_round ::
  "net \<Rightarrow> sock_id \<Rightarrow> sv2_net_msg list \<Rightarrow> bool option \<Rightarrow> nat \<Rightarrow> sv2_transport \<Rightarrow> 'a sockman_scheme \<Rightarrow>
     (bool \<times> sv2_net_msg list \<times> bool \<times> nat \<times> sv2_transport \<times> 'a sockman_scheme) res" where
  "send_round net cid it expected_more total_sent t w =
     res_bind (take_message it t) (\<lambda>(it, t).
     res_bind (GetBytesToSend (it \<noteq> []) t) (\<lambda>(data, go_on).
     res_bind (case expected_more of
         None \<Rightarrow> Ret () | Some expected \<Rightarrow> Assume ((data \<noteq> []) = expected) ''expected_more'') (\<lambda>_.
     let (sent, w) = if data \<noteq> [] then SendBytes net cid data go_on w else (0, w) in
     if sent > 0 then
       res_bind (MarkBytesSent (nat sent) t) (\<lambda>t.
       Ret (nat sent = length data, it, go_on, total_sent + nat sent, t, w))
     else Ret (False, it, go_on, total_sent, t, if sent < 0 then snd (CloseConnection cid w) else w))))"

partial_function (option) send_loop ::
  "net \<Rightarrow> sock_id \<Rightarrow> sv2_net_msg list \<Rightarrow> bool option \<Rightarrow> nat \<Rightarrow> sv2_transport \<Rightarrow> 'a sockman_scheme \<Rightarrow>
     (sv2_net_msg list \<times> bool \<times> nat \<times> sv2_transport \<times> 'a sockman_scheme) res option" where
  "send_loop net cid it expected_more total_sent t w =
     (case send_round net cid it expected_more total_sent t w of
        Throw e \<Rightarrow> Some (Throw e)
      | Abort m \<Rightarrow> Some (Abort m)
      | Ret (continue, it, go_on, total_sent, t, w) \<Rightarrow>
          if continue then send_loop net cid it (Some go_on) total_sent t w
          else Some (Ret (it, go_on, total_sent, t, w)))"

text \<open>A loop that does not return is reported as an abort of its own.\<close>

definition returning :: "'b res option \<Rightarrow> 'b res" where
  "returning r = (case r of None \<Rightarrow> Abort ''does not return'' | Some x \<Rightarrow> x)"

definition SendMessagesAsBytes ::
  "net \<Rightarrow> sv2_client \<Rightarrow> 'a sockman_scheme \<Rightarrow> (nat \<times> bool \<times> sv2_client \<times> 'a sockman_scheme) res" where
  "SendMessagesAsBytes net c w =
     res_bind (returning (send_loop net (cl_id c) (cl_send_messages c) None 0 (cl_transport c) w))
       (\<lambda>(it, go_on, total_sent, t, w).
     Ret (total_sent, go_on, c\<lparr>cl_send_messages := it, cl_transport := t\<rparr>, w))"

definition TryOptimisticSend ::
  "net \<Rightarrow> sv2_client \<Rightarrow> 'a sockman_scheme \<Rightarrow> (sv2_client \<times> 'a sockman_scheme) res" where
  "TryOptimisticSend net c w = res_bind (SendMessagesAsBytes net c w) (\<lambda>(_, _, c, w). Ret (c, w))"

definition EventReadyToSend :: "net \<Rightarrow> sock_id \<Rightarrow> 'a connman_scheme \<Rightarrow> (bool \<times> 'a connman_scheme) res" where
  "EventReadyToSend net node_id w =
     (case GetClientById node_id w of
        None \<Rightarrow> Ret (True, w)
      | Some c \<Rightarrow>
          res_bind (SendMessagesAsBytes net c w) (\<lambda>(total_sent, more_pending, c, w).
          Ret (total_sent > 0 \<and> more_pending, put_client node_id c w)))"

section \<open>Messages\<close>

record 'w sv2_events =
  RequestTransactionData_fn :: "sv2_client \<Rightarrow> u64 \<Rightarrow> 'w \<Rightarrow> (exn option \<times> sv2_client \<times> 'w) res"
  SubmitSolution_fn :: "sv2_submit_solution \<Rightarrow> 'w \<Rightarrow> (exn option \<times> 'w) res"

abbreviation queue_message :: "sv2_net_msg \<Rightarrow> sv2_client \<Rightarrow> sv2_client" where
  "queue_message m c \<equiv> c\<lparr>cl_send_messages := cl_send_messages c @ [m]\<rparr>"

abbreviation disconnect :: "sv2_client \<Rightarrow> sv2_client" where
  "disconnect c \<equiv> c\<lparr>cl_disconnect_flag := True\<rparr>"

abbreviation ascii :: "string \<Rightarrow> bytes" where "ascii s \<equiv> map of_char s"

definition SetupConnectionError_msg :: "u32 \<Rightarrow> string \<Rightarrow> sv2_net_msg" where
  "SetupConnectionError_msg flags code = \<lparr>m_msg_type = SETUP_CONNECTION_ERROR,
     m_msg = Serialize_SetupConnectionError \<lparr>sce_flags = flags, sce_error_code = ascii code\<rparr>\<rparr>"

definition SetupConnectionSuccess_msg :: "u16 \<Rightarrow> u32 \<Rightarrow> sv2_net_msg" where
  "SetupConnectionSuccess_msg version flags = \<lparr>m_msg_type = SETUP_CONNECTION_SUCCESS,
     m_msg = Serialize_SetupConnectionSuccess \<lparr>scs_used_version = version, scs_flags = flags\<rparr>\<rparr>"

definition Process_SetupConnection :: "u8 \<Rightarrow> data_stream \<Rightarrow> sv2_client \<Rightarrow> sv2_client res" where
  "Process_SetupConnection subprotocol ss c =
     (if cl_setup_connection_confirmed c then Ret c
      else case Unserialize_SetupConnection ss of
        Abort m \<Rightarrow> Abort m
      | Throw e \<Rightarrow> Ret (disconnect c)
      | Ret (setup_conn, _) \<Rightarrow>
          if sc_protocol setup_conn \<noteq> subprotocol then
            Ret (disconnect (queue_message (SetupConnectionError_msg (sc_flags setup_conn) ''unsupported-protocol'') c))
          else if m_protocol_version < sc_min_version setup_conn \<or> m_protocol_version > sc_max_version setup_conn then
            Ret (disconnect (queue_message (SetupConnectionError_msg (sc_flags setup_conn) ''protocol-version-mismatch'') c))
          else
            Ret ((queue_message (SetupConnectionSuccess_msg m_protocol_version (ucast m_optional_features)) c)
                   \<lparr>cl_setup_connection_confirmed := True\<rparr>))"

definition Process_CoinbaseOutputConstraints :: "data_stream \<Rightarrow> sv2_client \<Rightarrow> sv2_client res" where
  "Process_CoinbaseOutputConstraints ss c =
     (if \<not> cl_setup_connection_confirmed c then Ret (disconnect c)
      else case Unserialize_CoinbaseOutputConstraints ss of
        Abort m \<Rightarrow> Abort m
      | Throw e \<Rightarrow> Ret (disconnect c)
      | Ret (constraints, _) \<Rightarrow>
          let c = c\<lparr>cl_coinbase_output_constraints_recv := True\<rparr>;
              max_additional_size = co_max_additional_size constraints
          in if max_additional_size > MAX_BLOCK_WEIGHT then Ret (disconnect c)
             else Ret (c\<lparr>cl_coinbase_tx_outputs_size := max_additional_size\<rparr>))"

definition Process_SubmitSolution ::
  "'a connman_scheme sv2_events \<Rightarrow> data_stream \<Rightarrow> sv2_client \<Rightarrow> 'a connman_scheme \<Rightarrow>
     (exn option \<times> sv2_client \<times> 'a connman_scheme) res" where
  "Process_SubmitSolution ev ss c w =
     (if \<not> cl_setup_connection_confirmed c \<and> \<not> cl_coinbase_output_constraints_recv c then Ret (None, disconnect c, w)
      else case Unserialize_SubmitSolution ss of
        Abort m \<Rightarrow> Abort m
      | Throw e \<Rightarrow> Ret (None, c, w)
      | Ret (submit_solution, _) \<Rightarrow>
          res_bind (SubmitSolution_fn ev submit_solution w) (\<lambda>(e, w). Ret (e, c, w)))"

definition Process_RequestTransactionData ::
  "'a connman_scheme sv2_events \<Rightarrow> data_stream \<Rightarrow> sv2_client \<Rightarrow> 'a connman_scheme \<Rightarrow>
     (exn option \<times> sv2_client \<times> 'a connman_scheme) res" where
  "Process_RequestTransactionData ev ss c w =
     (case Unserialize_RequestTransactionData ss of
        Abort m \<Rightarrow> Abort m
      | Throw e \<Rightarrow> Ret (None, c, w)
      | Ret (template_id, _) \<Rightarrow> RequestTransactionData_fn ev c template_id w)"

definition ProcessSv2Message ::
  "'a connman_scheme sv2_events \<Rightarrow> bool \<Rightarrow> sv2_net_msg \<Rightarrow> sv2_client \<Rightarrow> 'a connman_scheme \<Rightarrow>
     (exn option \<times> sv2_client \<times> 'a connman_scheme) res" where
  "ProcessSv2Message ev debug msg c w =
     (if debug \<and> map_of SV2_MSG_NAMES (m_msg_type msg) = None then Ret (Some (out_of_range ''map::at''), c, w)
      else
        let ss = DataStream (m_msg msg) in
        if cl_disconnect_flag c then Ret (None, c, w)
        else if m_msg_type msg = SETUP_CONNECTION then
          res_bind (Process_SetupConnection (cm_subprotocol w) ss c) (\<lambda>c. Ret (None, c, w))
        else if m_msg_type msg = COINBASE_OUTPUT_CONSTRAINTS then
          res_bind (Process_CoinbaseOutputConstraints ss c) (\<lambda>c. Ret (None, c, w))
        else if m_msg_type msg = SUBMIT_SOLUTION then Process_SubmitSolution ev ss c w
        else if m_msg_type msg = REQUEST_TRANSACTION_DATA then Process_RequestTransactionData ev ss c w
        else Ret (None, c, w))"

section \<open>Receiving\<close>

text \<open>
  One round of the loop in \<^verbatim>\<open>EventGotData\<close>: whether the loop goes on, the exception it was left
  with, the bytes left, the client and the state.
\<close>

definition receive_round ::
  "secp256k1 \<Rightarrow> int \<Rightarrow> draw \<Rightarrow> 'a connman_scheme sv2_events \<Rightarrow> bool \<Rightarrow> bytes \<Rightarrow> sv2_client \<Rightarrow> 'a connman_scheme \<Rightarrow>
     (bool \<times> exn option \<times> bytes \<times> sv2_client \<times> 'a connman_scheme) res" where
  "receive_round S now d ev debug data c w =
     res_bind (ReceivedBytes S now d data (cl_transport c)) (\<lambda>(ok, data, t).
     let c = c\<lparr>cl_transport := t\<rparr> in
     if \<not> ok then Ret (False, None, data, disconnect c, w)
     else if ReceivedMessageComplete t then
       res_bind (GetReceivedMessage t) (\<lambda>(net_msg, t).
       let c = c\<lparr>cl_transport := t\<rparr> in
       case of_CNetMessage net_msg of
         Abort m \<Rightarrow> Abort m
       | Throw e \<Rightarrow> Ret (False, Some e, data, c, w)
       | Ret msg \<Rightarrow>
           res_bind (ProcessSv2Message ev debug msg c w) (\<lambda>(e, c, w). Ret (e = None, e, data, c, w)))
     else Ret (True, None, data, c, w))"

partial_function (option) receive_loop ::
  "secp256k1 \<Rightarrow> int \<Rightarrow> draw \<Rightarrow> 'a connman_scheme sv2_events \<Rightarrow> bool \<Rightarrow> bytes \<Rightarrow> sv2_client \<Rightarrow> 'a connman_scheme \<Rightarrow>
     (exn option \<times> sv2_client \<times> 'a connman_scheme) res option" where
  "receive_loop S now d ev debug data c w =
     (if data = [] then Some (Ret (None, c, w))
      else case receive_round S now d ev debug data c w of
        Throw e \<Rightarrow> Some (Throw e)
      | Abort m \<Rightarrow> Some (Abort m)
      | Ret (continue, e, data, c, w) \<Rightarrow>
          if continue then receive_loop S now d ev debug data c w else Some (Ret (e, c, w)))"

definition EventGotData ::
  "secp256k1 \<Rightarrow> int \<Rightarrow> draw \<Rightarrow> 'a connman_scheme sv2_events \<Rightarrow> bool \<Rightarrow> sock_id \<Rightarrow> bytes \<Rightarrow> 'a connman_scheme \<Rightarrow>
     'a connman_scheme res" where
  "EventGotData S now d ev debug cid data w =
     (case GetClientById cid w of
        None \<Rightarrow> Ret w
      | Some c \<Rightarrow>
          res_bind (returning (receive_loop S now d ev debug data c w)) (\<lambda>(e, c, w).
          Ret (put_client cid (if e = None then c else disconnect c) w)))"

section \<open>What sending does\<close>

text \<open>The bytes still to go out: the rest of the send buffer and the packets of the queue.\<close>

fun packets :: "cipher_state \<Rightarrow> sv2_net_msg list \<Rightarrow> bytes" where
  "packets cs [] = []"
| "packets cs (m # ms) = fst (packet [0, 0] cs m) @ packets (snd (packet [0, 0] cs m)) ms"

definition buffered :: "sv2_transport \<Rightarrow> bytes" where
  "buffered t = drop (unat (t_send_pos t)) (t_send_buffer t)"

definition outgoing :: "sv2_net_msg list \<Rightarrow> sv2_transport \<Rightarrow> bytes" where
  "outgoing ms t = buffered t @ packets (send_cs (t_cipher t)) ms"

definition sendable :: "sv2_net_msg list \<Rightarrow> sv2_transport \<Rightarrow> bool" where
  "sendable ms t \<longleftrightarrow> send_inv t \<and> (\<forall>m \<in> set ms. length (m_msg m) \<le> MAX_CONTENTS_LEN) \<and>
     nonces_left (send_cs (t_cipher t)) (total_nonces ms)"

text \<open>What a call may change of the socket manager's state on behalf of a connection.\<close>

definition sock_step :: "sock_id \<Rightarrow> 'a sockman_scheme \<Rightarrow> 'a sockman_scheme \<Rightarrow> bool" where
  "sock_step cid w w' \<longleftrightarrow> sm_next_id w' = sm_next_id w \<and> sm_interrupt w' = sm_interrupt w \<and>
     sockman.more w' = sockman.more w \<and> sm_connected w' \<subseteq> sm_connected w \<and> sm_connected w - {cid} \<subseteq> sm_connected w' \<and>
     (\<forall>i. i \<noteq> cid \<longrightarrow> wire i w' = wire i w)"

lemma sock_step_refl [simp]: "sock_step cid w w"
  by (simp add: sock_step_def)

lemma sock_step_trans: "sock_step cid w1 w2 \<Longrightarrow> sock_step cid w2 w3 \<Longrightarrow> sock_step cid w1 w3"
  by (auto simp: sock_step_def)

lemma send_inv_buffered: "send_inv t \<Longrightarrow> buffered t = [] \<longleftrightarrow> t_send_buffer t = []"
  by (auto simp: send_inv_def buffered_def)

lemma take_message_ok:
  assumes "sendable it t"
  shows "\<exists>it' t'. take_message it t = Ret (it', t') \<and> sendable it' t' \<and> same_receiver t t' \<and> outgoing it' t' = outgoing it t \<and>
    unat (cs_nonce (send_cs (t_cipher t'))) + total_nonces it' = unat (cs_nonce (send_cs (t_cipher t))) + total_nonces it \<and>
    (if t_send_state t = SEND_READY \<and> t_send_buffer t = [] \<and> it \<noteq> [] then it' = tl it \<and> t_send_buffer t' \<noteq> []
     else it' = it \<and> t' = t)"
proof (cases "t_send_state t = SEND_READY \<and> t_send_buffer t = [] \<and> it \<noteq> []")
  case True
  then obtain m ms where it: "it = m # ms" by (cases it) auto
  have i: "send_inv t" "length (m_msg m) \<le> MAX_CONTENTS_LEN" "nonces_left (send_cs (t_cipher t)) (packet_nonces m)"
    and ms: "\<forall>m \<in> set ms. length (m_msg m) \<le> MAX_CONTENTS_LEN"
    using assms by (auto simp: sendable_def it nonces_left_def total_nonces_def)
  have small: "length (m_msg m) < 2 ^ 60" using i(2) by (simp add: MAX_CONTENTS_LEN_def)
  have two: "length [0, 0 :: u8] = 2" by simp
  obtain p cs where p: "packet [0, 0] (send_cs (t_cipher t)) m = (p, cs)" by (cases "packet [0, 0] (send_cs (t_cipher t)) m")
  note pl = packet_length [OF two i(2,3), unfolded p fst_conv snd_conv]
  let ?t = "t\<lparr>t_cipher := set_send_cs cs (t_cipher t), t_send_buffer := p\<rparr>"
  have "take_message it t = Ret (ms, ?t)"
    using SetMessageToSend_packet [OF _ _ small i(3) p] True by (simp add: take_message_def it)
  moreover have "t_send_pos t = 0" using i(1) True by (simp add: send_inv_def)
  moreover have "nonces_left cs (total_nonces ms)"
    using assms pl(3) by (simp add: sendable_def it nonces_left_def total_nonces_def)
  ultimately show ?thesis
    using True pl p ms
    by (auto simp: it sendable_def send_inv_def same_receiver_def outgoing_def buffered_def total_nonces_def)
next
  case False
  have "take_message it t = Ret (it, t)"
    using False by (cases it) (auto simp: take_message_def SetMessageToSend_def)
  then show ?thesis using assms False by (auto simp: same_receiver_def)
qed

lemma SendBytes_step:
  assumes "net_ok net" "SendBytes net cid data go_on w = (sent, w')"
  shows "sock_step cid w w'"
proof -
  have "wire i w' = wire i w" if "i \<noteq> cid" for i using SendBytes_cases(4) [OF assms that] .
  then show ?thesis using SendBytes_cases(5-8) [OF assms] by (simp add: sock_step_def)
qed

lemma CloseConnection_step: "sock_step cid w (snd (CloseConnection cid w))"
  by (auto simp: sock_step_def CloseConnection_def wire_def)

lemma CloseConnection_wire [simp]: "wire i (snd (CloseConnection cid w)) = wire i w"
  by (simp add: CloseConnection_def wire_def)

text \<open>
  One round: the stream of bytes on the wire and still to go out is unchanged; when the loop goes
  on, the send buffer is empty, a message or the buffer has been used up, and the prediction
  \<^verbatim>\<open>more\<close> is that of the next round.
\<close>

definition expected_ok :: "bool option \<Rightarrow> sv2_net_msg list \<Rightarrow> sv2_transport \<Rightarrow> bool" where
  "expected_ok expected it t \<longleftrightarrow> (case expected of None \<Rightarrow> True
     | Some b \<Rightarrow> t_send_buffer t = [] \<and> b = (it \<noteq> [] \<and> t_send_state t = SEND_READY))"

definition work_left :: "sv2_net_msg list \<Rightarrow> sv2_transport \<Rightarrow> nat" where
  "work_left it t = length it + (if t_send_buffer t = [] then 0 else 1)"

definition nonce_use :: "sv2_net_msg list \<Rightarrow> sv2_transport \<Rightarrow> nat" where
  "nonce_use it t = unat (cs_nonce (send_cs (t_cipher t))) + total_nonces it"

definition sent_ok :: "sock_id \<Rightarrow> sv2_net_msg list \<Rightarrow> nat \<Rightarrow> sv2_transport \<Rightarrow> 'a sockman_scheme \<Rightarrow>
    sv2_net_msg list \<Rightarrow> nat \<Rightarrow> sv2_transport \<Rightarrow> 'a sockman_scheme \<Rightarrow> bool" where
  "sent_ok cid it n t w it' n' t' w' \<longleftrightarrow> sendable it' t' \<and> same_receiver t t' \<and> sock_step cid w w' \<and>
     wire cid w' @ outgoing it' t' = wire cid w @ outgoing it t \<and> nonce_use it' t' = nonce_use it t \<and>
     length (wire cid w') + n = length (wire cid w) + n' \<and> (\<exists>taken. it = taken @ it')"

lemma sent_ok_refl: "sendable it t \<Longrightarrow> sent_ok cid it n t w it n t w"
  by (simp add: sent_ok_def same_receiver_def)

lemma sent_ok_trans:
  "sent_ok cid it n t w it1 n1 t1 w1 \<Longrightarrow> sent_ok cid it1 n1 t1 w1 it2 n2 t2 w2 \<Longrightarrow> sent_ok cid it n t w it2 n2 t2 w2"
  by (auto simp: sent_ok_def same_receiver_def intro: sock_step_trans)

lemma send_round_ok:
  assumes "net_ok net" "sendable it t" "expected_ok expected it t"
  shows "\<exists>continue it' go_on n' t' w'. send_round net cid it expected n t w = Ret (continue, it', go_on, n', t', w') \<and>
    sent_ok cid it n t w it' n' t' w' \<and>
    (continue \<longrightarrow> expected_ok (Some go_on) it' t' \<and> work_left it' t' < work_left it t)"
proof -
  obtain it1 t1 where t1: "take_message it t = Ret (it1, t1)" "sendable it1 t1" "same_receiver t t1"
    "outgoing it1 t1 = outgoing it t" "nonce_use it1 t1 = nonce_use it t"
    "if t_send_state t = SEND_READY \<and> t_send_buffer t = [] \<and> it \<noteq> [] then it1 = tl it \<and> t_send_buffer t1 \<noteq> []
     else it1 = it \<and> t1 = t"
    using take_message_ok [OF assms(2)] by (auto simp: nonce_use_def)
  have i1: "send_inv t1" using t1(2) by (simp add: sendable_def)
  have taken: "\<exists>taken. it = taken @ it1" using t1(6) by (cases it) (auto split: if_splits intro: exI [of _ "[_]"])
  let ?data = "buffered t1" and ?more = "it1 \<noteq> [] \<and> t_send_state t1 = SEND_READY"
  have g: "GetBytesToSend (it1 \<noteq> []) t1 = Ret (?data, ?more)"
    using GetBytesToSend_inv [OF i1] by (simp add: buffered_def)
  have e: "(case expected of None \<Rightarrow> Ret () | Some b \<Rightarrow> Assume ((?data \<noteq> []) = b) ''expected_more'') = Ret ()"
    using assms(3) t1(6) send_inv_buffered [OF i1]
    by (auto simp: expected_ok_def split: option.splits if_splits)
  define sw where "sw = (if ?data \<noteq> [] then SendBytes net cid ?data ?more w else (0, w))"
  obtain sent w1 where sw: "sw = (sent, w1)" by (cases sw)
  have s: "sent \<le> int (length ?data)" "wire cid w1 = wire cid w @ take (nat sent) ?data" "sock_step cid w w1"
    using sw SendBytes_cases [OF assms(1), of cid ?data ?more w sent w1] SendBytes_step [OF assms(1), of cid ?data ?more w sent w1]
    by (auto simp: sw_def split: if_splits)
  have round: "send_round net cid it expected n t w =
      (if sent > 0 then res_bind (MarkBytesSent (nat sent) t1) (\<lambda>t. Ret (nat sent = length ?data, it1, ?more, n + nat sent, t, w1))
       else Ret (False, it1, ?more, n, t1, if sent < 0 then snd (CloseConnection cid w1) else w1))"
    unfolding send_round_def t1(1) using g e sw by (simp add: sw_def)
  show ?thesis
  proof (cases "sent > 0")
    case True
    have "nat sent \<le> length ?data" using s(1) by simp
    then obtain t2 where t2: "MarkBytesSent (nat sent) t1 = Ret t2" "send_inv t2" "same_receiver t1 t2" "t_cipher t2 = t_cipher t1"
      "buffered t2 = drop (nat sent) ?data"
      using MarkBytesSent_inv [OF i1, of "nat sent"] by (auto simp: buffered_def)
    have "work_left it1 t2 < work_left it t \<and> expected_ok (Some ?more) it1 t2" if "nat sent = length ?data"
    proof -
      have b: "t_send_buffer t2 = []" using t2(5) that send_inv_buffered [OF t2(2)] by simp
      moreover have "it1 = tl it \<and> it \<noteq> [] \<or> it1 = it \<and> t_send_buffer t \<noteq> []"
        using t1(6) that True send_inv_buffered [OF i1] by (auto split: if_splits)
      ultimately show ?thesis
        using t2(3) by (cases it) (auto simp: work_left_def expected_ok_def same_receiver_def)
    qed
    moreover have "wire cid w1 @ outgoing it1 t2 = wire cid w @ outgoing it t"
      unfolding s(2) t1(4) [symmetric] by (simp add: outgoing_def t2(4,5))
    then have "sent_ok cid it n t w it1 (n + nat sent) t2 w1"
      using t1(2,3,5) t2(2-4) s taken \<open>nat sent \<le> length ?data\<close>
      by (simp add: sent_ok_def sendable_def nonce_use_def same_receiver_def)
    ultimately show ?thesis using True round t2(1) by auto
  next
    case False
    have "sent_ok cid it n t w it1 n t1 (if sent < 0 then snd (CloseConnection cid w1) else w1)"
      using t1(2-5) s taken False sock_step_trans [OF s(3) CloseConnection_step] by (simp add: sent_ok_def)
    then show ?thesis using False round by auto
  qed
qed

lemma send_loop_ok:
  assumes "net_ok net"
  shows "sendable it t \<Longrightarrow> expected_ok expected it t \<Longrightarrow>
    \<exists>it' go_on n' t' w'. send_loop net cid it expected n t w = Some (Ret (it', go_on, n', t', w')) \<and>
      sent_ok cid it n t w it' n' t' w'"
proof (induction "work_left it t" arbitrary: it expected n t w rule: less_induct)
  case less
  obtain continue it1 go_on n1 t1 w1 where r: "send_round net cid it expected n t w = Ret (continue, it1, go_on, n1, t1, w1)"
    "sent_ok cid it n t w it1 n1 t1 w1"
    "continue \<Longrightarrow> expected_ok (Some go_on) it1 t1 \<and> work_left it1 t1 < work_left it t"
    using send_round_ok [OF assms less.prems, of cid n w] by blast
  show ?case
  proof (cases continue)
    case True
    have "sendable it1 t1" using r(2) by (simp add: sent_ok_def)
    from less.hyps [OF _ this, of "Some go_on" n1 w1] r(3) [OF True] obtain it2 go_on2 n2 t2 w2 where
      "send_loop net cid it1 (Some go_on) n1 t1 w1 = Some (Ret (it2, go_on2, n2, t2, w2))" "sent_ok cid it1 n1 t1 w1 it2 n2 t2 w2"
      by blast
    then show ?thesis
      using sent_ok_trans [OF r(2)] True r(1) by (subst send_loop.simps) auto
  next
    case False
    then show ?thesis using r(1,2) by (subst send_loop.simps) auto
  qed
qed

lemma SendMessagesAsBytes_ok:
  assumes "net_ok net" "sendable (cl_send_messages c) (cl_transport c)"
  shows "\<exists>n go_on it t w'. SendMessagesAsBytes net c w =
      Ret (n, go_on, c\<lparr>cl_send_messages := it, cl_transport := t\<rparr>, w') \<and>
    sent_ok (cl_id c) (cl_send_messages c) 0 (cl_transport c) w it n t w'"
  using send_loop_ok [OF assms, of None "cl_id c" 0 w]
  by (fastforce simp: SendMessagesAsBytes_def returning_def expected_ok_def)

section \<open>Invariants\<close>

definition small_messages :: "sv2_net_msg list \<Rightarrow> bool" where
  "small_messages ms \<longleftrightarrow> (\<forall>m \<in> set ms. length (m_msg m) \<le> MAX_CONTENTS_LEN)"

text \<open>
  A client: its transport is sound, or has refused its input and the client is flagged; messages
  fit a packet; constraints are taken from clients that completed the setup only, and bound the
  size of the coinbase outputs.
\<close>

definition client_inv :: "sv2_client \<Rightarrow> bool" where
  "client_inv c \<longleftrightarrow>
     (transport_inv (cl_transport c) \<or> cl_disconnect_flag c \<and> app_half (cl_transport c)) \<and>
     server_state (cl_transport c) \<and> small_messages (cl_send_messages c) \<and>
     (cl_coinbase_output_constraints_recv c \<longrightarrow> cl_setup_connection_confirmed c) \<and>
     (cl_coinbase_output_constraints_recv c \<and> \<not> cl_disconnect_flag c \<longrightarrow>
       cl_coinbase_tx_outputs_size c \<le> MAX_BLOCK_WEIGHT)"

text \<open>
  What a call may do to a client. A size of the coinbase outputs that was once in range stays in
  range, also when the client is flagged later: the thread that serves the client still reads it.
\<close>

definition client_step :: "sv2_client \<Rightarrow> sv2_client \<Rightarrow> bool" where
  "client_step c c' \<longleftrightarrow> cl_id c' = cl_id c \<and> client_inv c' \<and>
     (cl_coinbase_tx_outputs_size c \<le> MAX_BLOCK_WEIGHT \<longrightarrow> cl_coinbase_tx_outputs_size c' \<le> MAX_BLOCK_WEIGHT)"

text \<open>The connection manager; \<^verbatim>\<open>T\<close> holds the ids of the clients that have a thread of their own.\<close>

fun listed :: "sock_id set \<Rightarrow> sock_id \<Rightarrow> sock_id \<times> sv2_client \<Rightarrow> bool" where
  "listed T limit (i, c) \<longleftrightarrow> cl_id c = i \<and> i < limit \<and> client_inv c \<and>
     (i \<in> T \<longrightarrow> cl_coinbase_tx_outputs_size c \<le> MAX_BLOCK_WEIGHT)"

definition connman_inv :: "sock_id set \<Rightarrow> 'a connman_scheme \<Rightarrow> bool" where
  "connman_inv T w \<longleftrightarrow> T \<subseteq> {i. i < sm_next_id w} \<and> cm_static_key w \<noteq> None \<and>
     (case cm_certificate w of None \<Rightarrow> False | Some cert \<Rightarrow> length (cert_sig cert) = 64) \<and>
     distinct (map fst (cm_clients w)) \<and> sm_connected w \<subseteq> fst ` set (cm_clients w) \<and>
     list_all (listed T (sm_next_id w)) (cm_clients w)"

lemma client_inv_send: "client_inv c \<Longrightarrow> send_inv (cl_transport c)"
  by (auto simp: client_inv_def transport_inv_def app_half_def)

lemma client_inv_update:
  assumes "client_inv c" "same_receiver (cl_transport c) t" "send_inv t" "small_messages ms"
    and "t_recv_state (cl_transport c) = RECV_HANDSHAKE_STEP_1 \<Longrightarrow> t = cl_transport c"
  shows "client_inv (c\<lparr>cl_transport := t, cl_send_messages := ms\<rparr>)"
proof -
  have "transport_inv t" if "transport_inv (cl_transport c)"
    using same_receiver_server [OF assms(2) that _ assms(3,5)] assms(1) by (simp add: client_inv_def)
  moreover have "app_half t" if "app_half (cl_transport c)"
    using that assms(2,3) by (auto simp: app_half_def same_receiver_def)
  ultimately show ?thesis
    using assms(1,2,4) by (auto simp: client_inv_def server_state_def same_receiver_def)
qed

lemma put_entry_simps [simp]:
  "map fst (put_entry cid c cs) = map fst cs" "fst ` set (put_entry cid c cs) = fst ` set cs"
  "map_of (put_entry cid c cs) i = (if i = cid \<and> map_of cs i \<noteq> None then Some c else map_of cs i)"
  by (induction cs) auto

lemma put_entry_listed:
  "list_all (listed T n) cs \<Longrightarrow> cl_id c = cid \<Longrightarrow> client_inv c \<Longrightarrow>
   (cid \<in> T \<Longrightarrow> cl_coinbase_tx_outputs_size c \<le> MAX_BLOCK_WEIGHT) \<Longrightarrow> list_all (listed T n) (put_entry cid c cs)"
  by (induction cs) auto

lemma GetClientById_put:
  "GetClientById i (put_client cid c w) = (if i = cid \<and> GetClientById i w \<noteq> None then Some c else GetClientById i w)"
  by (auto simp: GetClientById_def put_client_def)

lemma connman_inv_client:
  assumes "connman_inv T w" "GetClientById cid w = Some c"
  shows "cl_id c = cid" "client_inv c" "cid \<in> T \<Longrightarrow> cl_coinbase_tx_outputs_size c \<le> MAX_BLOCK_WEIGHT"
proof -
  have m: "(cid, c) \<in> set (cm_clients w)" using assms(2) map_of_SomeD by (simp add: GetClientById_def)
  have "list_all (listed T (sm_next_id w)) (cm_clients w)" using assms(1) unfolding connman_inv_def by blast
  with m have "listed T (sm_next_id w) (cid, c)" by (simp only: list_all_iff)
  then show "cl_id c = cid" "client_inv c" "cid \<in> T \<Longrightarrow> cl_coinbase_tx_outputs_size c \<le> MAX_BLOCK_WEIGHT" by simp_all
qed

text \<open>What the callbacks of the template provider leave alone.\<close>

definition world_keeps :: "'a connman_scheme \<Rightarrow> 'a connman_scheme \<Rightarrow> bool" where
  "world_keeps w w' \<longleftrightarrow> sm_next_id w' = sm_next_id w \<and> sm_connected w' \<subseteq> sm_connected w \<and>
     cm_subprotocol w' = cm_subprotocol w \<and> cm_static_key w' = cm_static_key w \<and>
     cm_certificate w' = cm_certificate w \<and> cm_clients w' = cm_clients w"

lemma world_keeps_refl [simp]: "world_keeps w w"
  by (simp add: world_keeps_def)

lemma world_keeps_trans: "world_keeps w1 w2 \<Longrightarrow> world_keeps w2 w3 \<Longrightarrow> world_keeps w1 w3"
  by (auto simp: world_keeps_def)

definition keeps :: "('a \<Rightarrow> 'a \<Rightarrow> bool) \<Rightarrow> 'a connman_scheme \<Rightarrow> 'a connman_scheme \<Rightarrow> bool" where
  "keeps K w w' \<longleftrightarrow> world_keeps w w' \<and> K (connman.more w) (connman.more w')"

lemma more_fields:
  assumes "sockman.more w' = sockman.more w"
  shows "cm_subprotocol w' = cm_subprotocol w" "cm_static_key w' = cm_static_key w" "cm_certificate w' = cm_certificate w"
    "cm_clients w' = cm_clients w" "connman.more w' = connman.more w"
  using assms by (cases w, cases w', simp)+

lemma sock_step_keeps: "sock_step cid w w' \<Longrightarrow> keeps (=) w w'" for w :: "'a connman_scheme"
  using more_fields [of w' w] unfolding sock_step_def keeps_def world_keeps_def by metis

lemma connman_inv_put:
  assumes "connman_inv T w" "GetClientById cid w = Some c" "client_step c c'" "keeps K w w'"
  shows "connman_inv T (put_client cid c' w') \<and> sm_next_id (put_client cid c' w') = sm_next_id w \<and>
    K (connman.more w) (connman.more (put_client cid c' w'))"
proof -
  have w': "cm_clients w' = cm_clients w" "sm_next_id w' = sm_next_id w" "sm_connected w' \<subseteq> sm_connected w"
    "cm_static_key w' = cm_static_key w" "cm_certificate w' = cm_certificate w"
    using assms(4) by (simp_all add: keeps_def world_keeps_def)
  note c = connman_inv_client [OF assms(1,2)]
  have "list_all (listed T (sm_next_id w)) (cm_clients w)" using assms(1) by (simp add: connman_inv_def)
  then have "list_all (listed T (sm_next_id w)) (put_entry cid c' (cm_clients w))"
    by (rule put_entry_listed) (use assms(3) c in \<open>auto simp: client_step_def\<close>)
  then show ?thesis
    using assms(1,4) w' unfolding connman_inv_def put_client_def keeps_def by simp blast
qed

section \<open>Sending keeps the invariant\<close>

text \<open>Without any assumption on nonces: whenever a call returns, it left the receiving side alone.\<close>

definition send_keeps :: "sock_id \<Rightarrow> sv2_net_msg list \<Rightarrow> sv2_transport \<Rightarrow> 'a sockman_scheme \<Rightarrow>
    sv2_net_msg list \<Rightarrow> sv2_transport \<Rightarrow> 'a sockman_scheme \<Rightarrow> bool" where
  "send_keeps cid it t w it' t' w' \<longleftrightarrow> (send_inv t \<and> small_messages it \<longrightarrow>
     send_inv t' \<and> same_receiver t t' \<and> small_messages it' \<and> sock_step cid w w' \<and>
     (t_send_state t \<noteq> SEND_READY \<and> t_send_buffer t = [] \<longrightarrow> t' = t))"

lemma send_keeps_trans:
  "send_keeps cid it t w it1 t1 w1 \<Longrightarrow> send_keeps cid it1 t1 w1 it2 t2 w2 \<Longrightarrow> send_keeps cid it t w it2 t2 w2"
  unfolding send_keeps_def same_receiver_def using sock_step_trans by (metis (no_types, lifting))

lemma take_message_keeps:
  assumes "send_inv t" "small_messages it" "take_message it t = Ret (it', t')"
  shows "send_keeps cid it t w it' t' w"
proof (cases it)
  case Nil
  then show ?thesis using assms by (simp add: take_message_def send_keeps_def same_receiver_def)
next
  case (Cons m ms)
  then have "length (m_msg m) \<le> MAX_CONTENTS_LEN" using assms(2) by (simp add: small_messages_def)
  from SetMessageToSend_total [OF assms(1) this] obtain ok t1 where
    s: "SetMessageToSend (to_CSerializedNetMsg m) t = Ret (ok, t1)" "send_inv t1" "same_receiver t t1"
      "\<not> (t_send_state t = SEND_READY \<and> t_send_buffer t = []) \<Longrightarrow> t1 = t" by blast
  then have "t' = t1" "it' = ms \<or> it' = it" using assms(3) Cons by (auto simp: take_message_def split: if_splits)
  then show ?thesis using s assms(2) Cons by (auto simp: send_keeps_def small_messages_def)
qed

lemma send_round_keeps:
  assumes "net_ok net" "send_round net cid it expected n t w = Ret (continue, it', go_on, n', t', w')"
  shows "send_keeps cid it t w it' t' w'"
proof (cases "send_inv t \<and> small_messages it")
  case True
  obtain it1 t1 where t1: "take_message it t = Ret (it1, t1)"
    using assms(2) by (auto simp: send_round_def res_simps)
  have k: "send_keeps cid it t w it1 t1 w" using take_message_keeps [OF _ _ t1] True by simp
  then have i1: "send_inv t1" using True by (simp add: send_keeps_def)
  let ?data = "buffered t1" and ?more = "it1 \<noteq> [] \<and> t_send_state t1 = SEND_READY"
  have g: "GetBytesToSend (it1 \<noteq> []) t1 = Ret (?data, ?more)"
    using GetBytesToSend_inv [OF i1] by (simp add: buffered_def)
  obtain sent w1 where sw: "(if ?data \<noteq> [] then SendBytes net cid ?data ?more w else (0, w)) = (sent, w1)" by fastforce
  have s: "sent \<le> int (length ?data)" "sock_step cid w w1"
    using sw SendBytes_cases(2) [OF assms(1), of cid ?data ?more w sent w1] SendBytes_step [OF assms(1), of cid ?data ?more w sent w1]
    by (auto split: if_splits)
  have r: "(if sent > 0 then res_bind (MarkBytesSent (nat sent) t1) (\<lambda>t. Ret (nat sent = length ?data, it1, ?more, n + nat sent, t, w1))
     else Ret (False, it1, ?more, n, t1, if sent < 0 then snd (CloseConnection cid w1) else w1)) =
     Ret (continue, it', go_on, n', t', w')"
    using assms(2) unfolding send_round_def t1 using g sw by (auto simp: res_simps split: option.splits)
  have "send_keeps cid it1 t1 w it' t' w'"
  proof (cases "sent > 0")
    case True
    then have "t_send_buffer t1 \<noteq> []" "nat sent \<le> length ?data" using s(1) sw send_inv_buffered [OF i1] by auto
    with MarkBytesSent_inv [OF i1, of "nat sent"] obtain t2 where "MarkBytesSent (nat sent) t1 = Ret t2" "send_inv t2" "same_receiver t1 t2"
      "t_send_buffer t1 \<noteq> []" by (auto simp: buffered_def)
    then show ?thesis using r True s(2) by (auto simp: send_keeps_def)
  next
    case False
    then have e: "it' = it1" "t' = t1" "w' = (if sent < 0 then snd (CloseConnection cid w1) else w1)" using r by auto
    have "sock_step cid w w'" unfolding e(3) using s(2) sock_step_trans [OF s(2) CloseConnection_step] by simp
    then show ?thesis using e(1,2) by (simp add: send_keeps_def same_receiver_def)
  qed
  then show ?thesis using send_keeps_trans [OF k] by blast
qed (auto simp: send_keeps_def)

lemma send_loop_keeps:
  assumes "send_loop net cid it expected n t w = Some r" "net_ok net"
  shows "ensures (\<lambda>(it', go_on, n', t', w'). send_keeps cid it t w it' t' w') r"
  using assms
proof (induction rule: send_loop.raw_induct [rotated, consumes 1, case_names step])
  case (step send_loop net cid it expected n t w r)
  show ?case
  proof (cases "send_round net cid it expected n t w")
    case (Ret x)
    obtain continue it1 go_on n1 t1 w1 where x: "x = (continue, it1, go_on, n1, t1, w1)" by (cases x)
    have k: "send_keeps cid it t w it1 t1 w1" using send_round_keeps [OF step.prems] Ret x by simp
    show ?thesis
    proof (cases continue)
      case True
      then have "send_loop net cid it1 (Some go_on) n1 t1 w1 = Some r" using step.hyps Ret x by simp
      from step.IH [OF this step.prems] show ?thesis
        by (auto simp: ensures_def intro: send_keeps_trans [OF k])
    next
      case False
      then show ?thesis using step.hyps Ret x k by (auto simp: ensures_def)
    qed
  qed (use step.hyps in \<open>auto simp: ensures_def\<close>)
qed

lemma SendMessagesAsBytes_keeps:
  assumes "net_ok net" "SendMessagesAsBytes net c w = Ret (n, go_on, c', w')"
  shows "\<exists>it t. c' = c\<lparr>cl_send_messages := it, cl_transport := t\<rparr> \<and>
    send_keeps (cl_id c) (cl_send_messages c) (cl_transport c) w it t w'"
proof -
  obtain r where r: "send_loop net (cl_id c) (cl_send_messages c) None 0 (cl_transport c) w = Some r"
    using assms(2) by (cases "send_loop net (cl_id c) (cl_send_messages c) None 0 (cl_transport c) w")
      (auto simp: SendMessagesAsBytes_def returning_def)
  show ?thesis
    using assms(2) ensuresD [OF send_loop_keeps [OF r assms(1)]] r
    by (fastforce simp: SendMessagesAsBytes_def returning_def res_simps)
qed

text \<open>Before the handshake is complete the send buffer is empty, so nothing is sent.\<close>

lemma client_inv_sent:
  assumes "client_inv c" "send_keeps cid (cl_send_messages c) (cl_transport c) w it t w'"
  shows "client_inv (c\<lparr>cl_send_messages := it, cl_transport := t\<rparr>) \<and> sock_step cid w w'"
proof -
  have k: "send_inv t" "same_receiver (cl_transport c) t" "small_messages it" "sock_step cid w w'"
    "t_send_state (cl_transport c) \<noteq> SEND_READY \<and> t_send_buffer (cl_transport c) = [] \<Longrightarrow> t = cl_transport c"
    using assms client_inv_send [OF assms(1)] by (auto simp: send_keeps_def client_inv_def)
  have "t = cl_transport c" if "t_recv_state (cl_transport c) = RECV_HANDSHAKE_STEP_1"
    using that assms(1) k(5) by (auto simp: client_inv_def transport_inv_def recv_inv_def app_half_def)
  from client_inv_update [OF assms(1) k(2,1,3) this] show ?thesis using k(4) by (simp add: client_inv_def)
qed

lemma TryOptimisticSend_keeps:
  assumes "net_ok net" "client_inv c" "TryOptimisticSend net c w = Ret (c', w')"
  shows "client_step c c'" "cl_disconnect_flag c' = cl_disconnect_flag c" "keeps (=) w w'"
proof -
  obtain n go_on where s: "SendMessagesAsBytes net c w = Ret (n, go_on, c', w')"
    using assms(3) by (auto simp: TryOptimisticSend_def res_simps)
  obtain it t where k: "c' = c\<lparr>cl_send_messages := it, cl_transport := t\<rparr>"
    "send_keeps (cl_id c) (cl_send_messages c) (cl_transport c) w it t w'"
    using SendMessagesAsBytes_keeps [OF assms(1) s] by blast
  show "client_step c c'" "cl_disconnect_flag c' = cl_disconnect_flag c"
    using client_inv_sent [OF assms(2) k(2)] k(1) by (simp_all add: client_step_def)
  show "keeps (=) w w'" using client_inv_sent [OF assms(2) k(2)] sock_step_keeps by blast
qed

lemma EventReadyToSend_cases:
  assumes "net_ok net" "connman_inv T w" "EventReadyToSend net cid w = Ret (b, w')"
  obtains "GetClientById cid w = None" "w' = w"
  | c c' w1 where "GetClientById cid w = Some c" "client_step c c'" "cl_disconnect_flag c' = cl_disconnect_flag c"
      "keeps (=) w w1" "w' = put_client cid c' w1"
proof (cases "GetClientById cid w")
  case None
  then have "w' = w" using assms(3) by (simp add: EventReadyToSend_def)
  then show thesis by (rule that(1) [OF None])
next
  case (Some c)
  note c = connman_inv_client [OF assms(2) Some]
  obtain n go_on c1 w1 where s: "SendMessagesAsBytes net c w = Ret (n, go_on, c1, w1)" "w' = put_client cid c1 w1"
    using assms(3) Some by (auto simp: EventReadyToSend_def res_simps)
  then have "TryOptimisticSend net c w = Ret (c1, w1)" by (simp add: TryOptimisticSend_def)
  from that(2) [OF Some TryOptimisticSend_keeps [OF assms(1) c(2) this] s(2)] show thesis .
qed

lemma EventReadyToSend_inv:
  assumes "net_ok net" "connman_inv T w" "EventReadyToSend net cid w = Ret (b, w')"
  shows "connman_inv T w' \<and> sm_next_id w' = sm_next_id w \<and> connman.more w' = connman.more w"
  by (rule EventReadyToSend_cases [OF assms]) (use connman_inv_put [OF assms(2), where K = "(=)"] assms(2) in simp_all)

section \<open>Receiving keeps the invariant\<close>

text \<open>
  What the connection manager needs of the template provider behind \<^verbatim>\<open>Sv2EventsInterface\<close>: whenever
  a call returns, with or without an exception, the client it was given keeps its invariant and
  its id, and the tables of the connection manager are as before. \<^verbatim>\<open>ok\<close> is what the provider is
  promised about its own surroundings.
\<close>

lemma length_WriteCompactSize_le: "length (WriteCompactSize n) \<le> 9"
  by (simp add: length_WriteCompactSize GetSizeOfCompactSize_def)

lemma length_writedata:
  "length (ser_writedata8 a) = 1" "length (ser_writedata16 b) = 2" "length (ser_writedata32 c) = 4" "length (ser_writedata64 d) = 8"
  by (simp_all add: ser_writedata8_def ser_writedata16_def ser_writedata32_def ser_writedata64_def)

lemma client_inv_flag: "client_inv c \<Longrightarrow> client_inv (disconnect c)"
  by (auto simp: client_inv_def)

lemma client_inv_queue:
  "client_inv c \<Longrightarrow> length (m_msg m) \<le> MAX_CONTENTS_LEN \<Longrightarrow> client_inv (queue_message m c)"
  by (auto simp: client_inv_def small_messages_def)

lemma client_step_refl: "client_inv c \<Longrightarrow> client_step c c"
  by (simp add: client_step_def)

lemma client_step_flag: "client_step c c' \<Longrightarrow> client_step c (disconnect c')"
  by (simp add: client_step_def client_inv_flag)

lemma client_step_trans: "client_step c1 c2 \<Longrightarrow> client_step c2 c3 \<Longrightarrow> client_step c1 c3"
  by (simp add: client_step_def)

lemmas client_steps = client_step_refl client_step_flag

lemma Process_SetupConnection_keeps:
  assumes "client_inv c"
  shows "ensures (client_step c) (Process_SetupConnection p ss c)"
proof -
  have q: "client_inv (disconnect (queue_message (SetupConnectionError_msg fl code) c))" if "length code < 255" for fl code
    by (rule client_inv_flag, rule client_inv_queue [OF assms])
      (use that length_WriteCompactSize_le [of "of_nat (length code)"] in \<open>simp add: SetupConnectionError_msg_def
        Serialize_SetupConnectionError_def MAX_CONTENTS_LEN_def Serialize_string_def length_writedata\<close>)
  have "client_inv ((queue_message (SetupConnectionSuccess_msg v f) c)\<lparr>cl_setup_connection_confirmed := True\<rparr>)" for v f
    using client_inv_queue [OF assms, of "SetupConnectionSuccess_msg v f"]
    by (simp add: SetupConnectionSuccess_msg_def Serialize_SetupConnectionSuccess_def MAX_CONTENTS_LEN_def client_inv_def
        length_writedata)
  then show ?thesis
    unfolding Process_SetupConnection_def using assms
    by (intro ensures_intro) (auto simp: q client_steps client_step_def client_inv_flag)
qed

lemma Process_CoinbaseOutputConstraints_keeps:
  assumes "client_inv c"
  shows "ensures (client_step c) (Process_CoinbaseOutputConstraints ss c)"
  unfolding Process_CoinbaseOutputConstraints_def Let_def using assms
  by (intro ensures_intro) (auto simp: client_step_def client_inv_def)

text \<open>The transport after a call with received bytes, and after its message was handed out.\<close>

lemma received_client:
  assumes "client_inv c" "secp_ok S" "draw_ok d" "ReceivedBytes S now d data (cl_transport c) = Ret (acc, rest, t)"
  shows "client_inv (disconnect (c\<lparr>cl_transport := t\<rparr>))" "acc \<Longrightarrow> client_inv (c\<lparr>cl_transport := t\<rparr>)"
proof -
  have s: "server_state (cl_transport c)" using assms(1) by (simp add: client_inv_def)
  consider "transport_inv (cl_transport c)" | "cl_disconnect_flag c" "app_half (cl_transport c)"
    using assms(1) by (auto simp: client_inv_def)
  then have "(acc \<longrightarrow> transport_inv t \<or> cl_disconnect_flag c \<and> app_half t) \<and> (transport_inv t \<or> app_half t) \<and> server_state t"
  proof cases
    case 1
    then show ?thesis using ReceivedBytes_refused [OF _ s assms(2,3,4)] by blast
  next
    case 2
    then show ?thesis using ReceivedBytes_half(1) [OF _ assms(4)] app_half_server by blast
  qed
  then show "client_inv (disconnect (c\<lparr>cl_transport := t\<rparr>))" "acc \<Longrightarrow> client_inv (c\<lparr>cl_transport := t\<rparr>)"
    using assms(1) by (auto simp: client_inv_def)
qed

lemma client_inv_handed:
  assumes "client_inv c" "ReceivedMessageComplete (cl_transport c)" "GetReceivedMessage (cl_transport c) = Ret (net_msg, t)"
  shows "client_inv (c\<lparr>cl_transport := t\<rparr>)"
proof -
  have ready: "t_recv_state (cl_transport c) = RECV_APP_READY" using assms(2) by (simp add: ReceivedMessageComplete_def)
  then have t: "t = (cl_transport c)\<lparr>t_recv_state := RECV_APP\<rparr>"
    using assms(3) by (auto simp: GetReceivedMessage_def SetReceiveState_def res_simps split: if_splits)
  have "app_half t" if "app_half (cl_transport c)" using that by (simp add: t app_half_def send_inv_def)
  moreover have "transport_inv t" if "transport_inv (cl_transport c)" using GetReceivedMessage_inv(2) [OF that ready] t by simp
  ultimately show ?thesis using assms(1) by (auto simp: client_inv_def t server_state_def)
qed

locale sv2_msgproc =
  fixes ev :: "'a connman_scheme sv2_events" and ok :: bool and K :: "'a \<Rightarrow> 'a \<Rightarrow> bool"
  assumes K_refl: "K x x" and K_trans: "K x y \<Longrightarrow> K y z \<Longrightarrow> K x z"
    and request: "ok \<Longrightarrow> client_inv c \<Longrightarrow> RequestTransactionData_fn ev c tid w = Ret (e, c', w') \<Longrightarrow>
      client_step c c' \<and> keeps K w w'"
    and submit: "ok \<Longrightarrow> SubmitSolution_fn ev sol w = Ret (e, w') \<Longrightarrow> keeps K w w'"
begin

lemma keeps_refl [simp]: "keeps K w w"
  by (simp add: keeps_def K_refl)

lemma keeps_trans: "keeps K w1 w2 \<Longrightarrow> keeps K w2 w3 \<Longrightarrow> keeps K w1 w3"
  unfolding keeps_def using world_keeps_trans K_trans by blast

lemma ProcessSv2Message_keeps:
  assumes "ok" "client_inv c"
  shows "ensures (\<lambda>(e, c', w'). client_step c c' \<and> keeps K w w') (ProcessSv2Message ev debug msg c w)"
proof -
  have sub: "ensures (\<lambda>(e, c', w'). client_step c c' \<and> keeps K w w') (Process_SubmitSolution ev ss c w)" for ss
    unfolding Process_SubmitSolution_def using assms(2)
    by (intro ensures_intro) (auto simp: client_steps intro: submit [OF assms(1)])
  have req: "ensures (\<lambda>(e, c', w'). client_step c c' \<and> keeps K w w') (Process_RequestTransactionData ev ss c w)" for ss
    unfolding Process_RequestTransactionData_def
    by (intro ensures_intro) (use assms request [OF assms] in \<open>auto simp: ensures_def client_steps\<close>)
  show ?thesis
    unfolding ProcessSv2Message_def Let_def using assms(2)
    by (intro ensures_intro)
      (auto simp: client_steps intro: sub req dest: ensuresD [OF Process_SetupConnection_keeps] ensuresD [OF Process_CoinbaseOutputConstraints_keeps])
qed

lemma receive_round_keeps:
  assumes "ok" "secp_ok S" "draw_ok d" "client_inv c"
    and "receive_round S now d ev debug data c w = Ret (continue, e, data', c', w')"
  shows "client_step c c' \<and> keeps K w w'"
proof -
  obtain acc rest t where r: "ReceivedBytes S now d data (cl_transport c) = Ret (acc, rest, t)"
    using assms(5) by (auto simp: receive_round_def res_simps)
  note a = received_client [OF assms(4,2,3) r]
  let ?c = "c\<lparr>cl_transport := t\<rparr>"
  show ?thesis
  proof (cases "acc \<and> ReceivedMessageComplete t")
    case False
    then have "c' = (if acc then ?c else disconnect ?c) \<and> w' = w"
      using assms(5) r by (auto simp: receive_round_def split: if_splits)
    then show ?thesis using a by (auto simp: client_step_def)
  next
    case True
    then obtain net_msg t' where g: "GetReceivedMessage t = Ret (net_msg, t')"
      using assms(5) r by (auto simp: receive_round_def res_simps)
    have c: "client_inv (c\<lparr>cl_transport := t'\<rparr>)" (is "client_inv ?d")
      using client_inv_handed [of ?c net_msg t'] a(2) g True by simp
    have "c' = ?d \<and> w' = w \<or> (\<exists>msg. ProcessSv2Message ev debug msg ?d w = Ret (e, c', w'))"
      using assms(5) r g True by (auto simp: receive_round_def Let_def res_simps split: res.splits)
    then show ?thesis
      using c ensuresD [OF ProcessSv2Message_keeps [OF assms(1) c]] by (fastforce simp: client_step_def)
  qed
qed

lemma receive_loop_keeps:
  assumes "receive_loop S now d ev' debug data c w = Some r" "ev' = ev" "ok" "secp_ok S" "draw_ok d" "client_inv c"
  shows "ensures (\<lambda>(e, c', w'). client_step c c' \<and> keeps K w w') r"
  using assms
proof (induction rule: receive_loop.raw_induct [rotated, consumes 1, case_names step])
  case (step receive_loop S now d ev' debug data c w r)
  show ?case
  proof (cases "data = []")
    case True
    then show ?thesis using step.hyps step.prems(5) by (auto simp: ensures_def client_steps)
  next
    case False
    show ?thesis
    proof (cases "receive_round S now d ev' debug data c w")
      case (Ret x)
      obtain continue e data1 c1 w1 where x: "x = (continue, e, data1, c1, w1)" by (cases x)
      have k: "client_step c c1 \<and> keeps K w w1"
        using receive_round_keeps [OF step.prems(2-5), of now debug data w] Ret x step.prems(1) by simp
      show ?thesis
      proof (cases continue)
        case True
        then have "receive_loop S now d ev' debug data1 c1 w1 = Some r" using step.hyps Ret x False by simp
        from step.IH [OF this step.prems(1-4)] k have
          e: "ensures (\<lambda>(e, c', w'). client_step c1 c' \<and> keeps K w1 w') r" by (simp add: client_step_def)
        show ?thesis by (rule ensures_mono [OF e]) (use k in \<open>auto intro: keeps_trans client_step_trans\<close>)
      qed (use step.hyps Ret x False k in \<open>auto simp: ensures_def\<close>)
    qed (use step.hyps False in \<open>auto simp: ensures_def\<close>)
  qed
qed

lemma EventGotData_cases:
  assumes "ok" "secp_ok S" "draw_ok d" "connman_inv T w" "EventGotData S now d ev debug cid data w = Ret w'"
  obtains "GetClientById cid w = None" "w' = w"
  | c c' w1 where "GetClientById cid w = Some c" "client_step c c'" "keeps K w w1" "w' = put_client cid c' w1"
proof (cases "GetClientById cid w")
  case None
  then have "w' = w" using assms(5) by (simp add: EventGotData_def)
  then show thesis by (rule that(1) [OF None])
next
  case (Some c)
  note c = connman_inv_client [OF assms(4) Some]
  obtain e c1 w1 where l: "receive_loop S now d ev debug data c w = Some (Ret (e, c1, w1))"
    "w' = put_client cid (if e = None then c1 else disconnect c1) w1"
    using assms(5) Some by (auto simp: EventGotData_def returning_def res_simps split: option.splits)
  have k: "client_step c c1 \<and> keeps K w w1"
    using ensuresD [OF receive_loop_keeps [OF l(1) refl assms(1-3) c(2)]] by auto
  show thesis
  proof (rule that(2) [OF Some])
    show "client_step c (if e = None then c1 else disconnect c1)" using k client_step_flag [of c c1] by simp
    show "keeps K w w1" using k by simp
    show "w' = put_client cid (if e = None then c1 else disconnect c1) w1" by (rule l(2))
  qed
qed

lemma EventGotData_inv:
  assumes "ok" "secp_ok S" "draw_ok d" "connman_inv T w" "EventGotData S now d ev debug cid data w = Ret w'"
  shows "connman_inv T w' \<and> sm_next_id w' = sm_next_id w \<and> K (connman.more w) (connman.more w')"
  by (rule EventGotData_cases [OF assms]) (use connman_inv_put [OF assms(4), where K = K] assms(4) K_refl in simp_all)

end

section \<open>The connection manager behind the event loop\<close>

text \<open>The clients that \<^verbatim>\<open>DisconnectFlagged\<close> removes.\<close>

definition removable :: "sock_id \<times> sv2_client \<Rightarrow> bool" where
  "removable x \<longleftrightarrow> cl_send_messages (snd x) = [] \<and> cl_disconnect_flag (snd x)"

lemma disconnect_clients_eq:
  "disconnect_clients cs w = (filter (\<lambda>x. \<not> removable x) cs,
     w\<lparr>sm_connected := sm_connected w - (\<lambda>x. cl_id (snd x)) ` set (filter removable cs)\<rparr>)"
  by (induction cs w rule: disconnect_clients.induct) (simp_all add: removable_def CloseConnection_def Diff_insert2 [symmetric])

lemma DisconnectFlagged_inv:
  assumes "connman_inv T w"
  shows "connman_inv T (DisconnectFlagged w) \<and> connman.more (DisconnectFlagged w) = connman.more w \<and>
    sm_next_id (DisconnectFlagged w) = sm_next_id w"
proof -
  let ?keep = "filter (\<lambda>x. \<not> removable x) (cm_clients w)"
  have "cl_id c = i" if "(i, c) \<in> set (cm_clients w)" for i c
    using that assms unfolding connman_inv_def list_all_iff by fastforce
  then have "sm_connected w - (\<lambda>x. cl_id (snd x)) ` set (filter removable (cm_clients w)) \<subseteq> fst ` set ?keep"
    using assms by (fastforce simp: connman_inv_def image_iff)
  moreover have "distinct (map fst ?keep)" using assms by (simp add: connman_inv_def distinct_map_filter)
  moreover have "list_all (listed T (sm_next_id w)) ?keep" using assms by (simp add: connman_inv_def list_all_iff)
  ultimately show ?thesis using assms
    unfolding DisconnectFlagged_def disconnect_clients_eq connman_inv_def by simp
qed

lemma flag_client_inv:
  assumes "connman_inv T w"
  shows "connman_inv T (flag_client cid w) \<and> sm_next_id (flag_client cid w) = sm_next_id w \<and>
    connman.more (flag_client cid w) = connman.more w"
proof (cases "GetClientById cid w")
  case (Some c)
  have "client_step c (disconnect c)" using client_steps connman_inv_client(2) [OF assms Some] by blast
  from connman_inv_put [OF assms Some this, of "(=)" w] show ?thesis using Some by (simp add: flag_client_def keeps_def)
qed (use assms in \<open>simp add: flag_client_def\<close>)

lemma listed_mono: "listed T n x \<Longrightarrow> n \<le> m \<Longrightarrow> listed T m x"
  by (cases x) auto

lemma EventNewConnectionAccepted_inv:
  assumes "connman_inv T w" "sm_next_id w < 2 ^ 63" "secp_ok S" "draw_ok d"
    and "EventNewConnectionAccepted S d hdr garbage (sm_next_id w)
      (w\<lparr>sm_next_id := sm_next_id w + 1, sm_connected := insert (sm_next_id w) (sm_connected w)\<rparr>) = Ret (b, w')"
  shows "b \<and> connman_inv T w' \<and> sm_next_id w' = sm_next_id w + 1 \<and> connman.more w' = connman.more w"
proof -
  let ?i = "sm_next_id w"
  have lim: "?i < ?i + 1" using assms(2) by (simp add: word_less_nat_alt unat_word_ariths)
  have l: "list_all (listed T ?i) (cm_clients w)" using assms(1) by (simp add: connman_inv_def)
  then have "?i \<notin> fst ` set (cm_clients w)" by (fastforce simp: list_all_iff)
  then have none: "map_of (cm_clients w) ?i = None" by (simp add: map_of_eq_None_iff)
  obtain sk cert t where t: "cm_static_key w = Some sk" "cm_certificate w = Some cert" "length (cert_sig cert) = 64"
    "Sv2Transport_responder S d hdr (Some sk) cert = Ret t"
    and w': "b" "w' = w\<lparr>sm_next_id := ?i + 1, sm_connected := insert ?i (sm_connected w),
      cm_clients := cm_clients w @ [(?i, Sv2Client ?i t garbage)]\<rparr>"
    using assms(1,5) none
    by (auto simp: EventNewConnectionAccepted_def connman_inv_def GetClientById_def res_simps split: option.splits)
  note r = responder_inv [OF assms(3) t(4) assms(4) t(3)]
  have "client_inv (Sv2Client ?i t garbage)"
    using r by (simp add: client_inv_def Sv2Client_def server_state_def small_messages_def)
  moreover have "list_all (listed T (?i + 1)) (cm_clients w)"
    using l listed_mono lim unfolding list_all_iff by (metis order_less_imp_le)
  ultimately show ?thesis
    using assms(1) lim none w' by (auto simp: connman_inv_def Sv2Client_def map_of_eq_None_iff)
qed

text \<open>
  The virtual functions of the class, as the event loop calls them. What the clock and the random
  number generator give, and what uninitialised members hold, may differ from call to call.
\<close>

record 'w surroundings =
  env_now :: "sock_id \<Rightarrow> 'w \<Rightarrow> int"
  env_draw :: "sock_id \<Rightarrow> 'w \<Rightarrow> draw"
  env_header :: "sock_id \<Rightarrow> 'w \<Rightarrow> sv2_net_header"
  env_garbage :: "sock_id \<Rightarrow> 'w \<Rightarrow> u32"

definition connman_events ::
  "secp256k1 \<Rightarrow> 'a connman_scheme surroundings \<Rightarrow> net \<Rightarrow> bool \<Rightarrow> 'a connman_scheme sv2_events \<Rightarrow> 'a connman_scheme sock_events" where
  "connman_events S env net debug ev =
     \<lparr>EventNewConnectionAccepted_fn = (\<lambda>cid w.
        EventNewConnectionAccepted S (env_draw env cid w) (env_header env cid w) (env_garbage env cid w) cid w),
      EventReadyToSend_fn = EventReadyToSend net,
      EventGotData_fn = (\<lambda>cid data w. EventGotData S (env_now env cid w) (env_draw env cid w) ev debug cid data w),
      EventGotEOF_fn = EventGotEOF,
      EventGotPermanentReadError_fn = EventGotPermanentReadError,
      EventIOLoopCompletedForAll_fn = EventIOLoopCompletedForAll\<rparr>"

definition surroundings_ok :: "secp256k1 \<Rightarrow> 'a surroundings \<Rightarrow> net \<Rightarrow> bool" where
  "surroundings_ok S env net \<longleftrightarrow> secp_ok S \<and> net_ok net \<and> (\<forall>cid w. draw_ok (env_draw env cid w))"

lemma connman_events_new:
  "EventNewConnectionAccepted_fn (connman_events S env net debug ev) cid w =
     EventNewConnectionAccepted S (env_draw env cid w) (env_header env cid w) (env_garbage env cid w) cid w"
  by (simp add: connman_events_def)

lemma surroundings_okD: "surroundings_ok S env net \<Longrightarrow> secp_ok S" "surroundings_ok S env net \<Longrightarrow> draw_ok (env_draw env cid w)"
  by (simp_all add: surroundings_ok_def)

sublocale sv2_msgproc \<subseteq> loop: sock_client "connman_events S env net debug ev"
    "\<lambda>w. ok \<and> surroundings_ok S env net \<and> connman_inv T w \<and> K x (connman.more w)" for S env net debug T x
proof (unfold_locales, goal_cases)
  case (1 w b w')
  then have s: "surroundings_ok S env net" by simp
  note e = 1(3) [unfolded connman_events_new]
  show ?case using EventNewConnectionAccepted_inv [OF _ 1(2) surroundings_okD [OF s] e, of T] 1(1) by simp
next
  case (2 w cid b w')
  then show ?case using EventReadyToSend_inv [of net T w cid b w'] by (simp add: connman_events_def surroundings_ok_def)
next
  case (3 w cid data w')
  then show ?case
    using EventGotData_inv [of S "env_draw env cid w" T w "env_now env cid w" debug cid data w'] K_trans [of x]
    by (simp add: connman_events_def surroundings_ok_def) blast
next
  case (4 w cid w')
  then show ?case
    using flag_client_inv [of T w cid] by (auto simp: connman_events_def EventGotEOF_def)
next
  case (5 w cid w')
  then show ?case
    using flag_client_inv [of T w cid] by (auto simp: connman_events_def EventGotPermanentReadError_def)
next
  case (6 w w')
  then show ?case
    using DisconnectFlagged_inv [of T w]
    by (auto simp: connman_events_def EventIOLoopCompletedForAll_def DisconnectFlagged_def disconnect_clients_eq)
qed

section \<open>A client without a socket\<close>

text \<open>
  A failed \<^verbatim>\<open>send\<close> closes the socket of a client but does not flag the client. The event loop
  never reports anything for it again, so no callback flags it either.
\<close>

definition orphaned :: "sock_id \<Rightarrow> 'a connman_scheme \<Rightarrow> bool" where
  "orphaned cid w \<longleftrightarrow> cid \<notin> sm_connected w \<and> cid < sm_next_id w \<and>
     (case GetClientById cid w of None \<Rightarrow> False | Some c \<Rightarrow> \<not> cl_disconnect_flag c)"

lemma orphaned_put:
  assumes "orphaned cid w" "keeps K w w'" "GetClientById i w = Some c" "i = cid \<Longrightarrow> cl_disconnect_flag c' = cl_disconnect_flag c"
  shows "orphaned cid (put_client i c' w')"
proof -
  have "GetClientById cid w' = GetClientById cid w" using assms(2) by (simp add: keeps_def world_keeps_def GetClientById_def)
  moreover have "GetClientById i w' = Some c" using assms(2,3) by (simp add: keeps_def world_keeps_def GetClientById_def)
  ultimately have "GetClientById cid (put_client i c' w') = (if i = cid then Some c' else GetClientById cid w)"
    by (auto simp: GetClientById_put)
  moreover have "sm_connected (put_client i c' w') \<subseteq> sm_connected w" "sm_next_id (put_client i c' w') = sm_next_id w"
    using assms(2) by (simp_all add: keeps_def world_keeps_def put_client_def)
  ultimately show ?thesis using assms(1,3,4) by (auto simp: orphaned_def split: option.splits)
qed

lemma orphaned_flag: "orphaned cid w \<Longrightarrow> i \<in> sm_connected w \<Longrightarrow> orphaned cid (flag_client i w)"
  using orphaned_put [of cid w "(=)" w i]
  by (cases "GetClientById i w") (auto simp: flag_client_def orphaned_def keeps_def)

lemma map_of_filter_kept:
  "map_of xs k = Some v \<Longrightarrow> P (k, v) \<Longrightarrow> distinct (map fst xs) \<Longrightarrow> map_of (filter P xs) k = Some v"
  by (rule map_of_is_SomeI) (auto simp: distinct_map_filter dest: map_of_SomeD)

lemma orphaned_disconnect:
  assumes "orphaned cid w" "connman_inv T w"
  shows "orphaned cid (DisconnectFlagged w)"
proof -
  obtain c where c: "GetClientById cid w = Some c" "\<not> cl_disconnect_flag c"
    using assms(1) by (auto simp: orphaned_def split: option.splits)
  have "map_of (filter (\<lambda>x. \<not> removable x) (cm_clients w)) cid = Some c"
    by (rule map_of_filter_kept) (use c assms(2) in \<open>simp_all add: GetClientById_def removable_def connman_inv_def\<close>)
  then show ?thesis
    using assms(1) c unfolding DisconnectFlagged_def disconnect_clients_eq orphaned_def by (simp add: GetClientById_def)
qed

lemma orphaned_new:
  assumes "orphaned cid w" "sm_next_id w < 2 ^ 63"
    and "EventNewConnectionAccepted S d hdr garbage (sm_next_id w)
      (w\<lparr>sm_next_id := sm_next_id w + 1, sm_connected := insert (sm_next_id w) (sm_connected w)\<rparr>) = Ret (b, w')"
  shows "orphaned cid w'"
proof -
  let ?i = "sm_next_id w"
  have lim: "?i < ?i + 1" using assms(2) by (simp add: word_less_nat_alt unat_word_ariths)
  obtain cs where w': "w' = w\<lparr>sm_next_id := ?i + 1, sm_connected := insert ?i (sm_connected w), cm_clients := cm_clients w @ cs\<rparr>"
  proof -
    have "\<exists>cs. w' = w\<lparr>sm_next_id := ?i + 1, sm_connected := insert ?i (sm_connected w), cm_clients := cm_clients w @ cs\<rparr>"
      using assms(3)
      by (cases "cm_certificate w"; cases "map_of (cm_clients w) ?i")
        (auto simp: EventNewConnectionAccepted_def GetClientById_def res_simps intro: exI [of _ "[]"])
    then show ?thesis using that by blast
  qed
  obtain c where c: "map_of (cm_clients w) cid = Some c" "\<not> cl_disconnect_flag c" "cid \<notin> sm_connected w" "cid < ?i"
    using assms(1) by (auto simp: orphaned_def GetClientById_def split: option.splits)
  have "map_of (cm_clients w @ cs) cid = Some c" using c(1) by (simp add: map_add_def)
  moreover have "cid < ?i + 1" "cid \<noteq> ?i" using order.strict_trans [OF c(4) lim] c(4) by auto
  ultimately show ?thesis using c(2,3) unfolding orphaned_def GetClientById_def w' by simp
qed

sublocale sv2_msgproc \<subseteq> orphan: sock_client "connman_events S env net debug ev"
    "\<lambda>w. ok \<and> surroundings_ok S env net \<and> connman_inv T w \<and> orphaned cid w" for S env net debug T cid
proof (unfold_locales, goal_cases)
  case (1 w b w')
  then have s: "surroundings_ok S env net" by simp
  note e = 1(3) [unfolded connman_events_new]
  show ?case
    using EventNewConnectionAccepted_inv [OF _ 1(2) surroundings_okD [OF s] e, of T] orphaned_new [OF _ 1(2) e, of cid] 1(1) by simp
next
  case (2 w i b w')
  then have n: "net_ok net" "connman_inv T w" "EventReadyToSend net i w = Ret (b, w')"
    by (simp_all add: connman_events_def surroundings_ok_def)
  have o: "orphaned cid w" using 2(1) by simp
  have "orphaned cid w'"
  proof (rule EventReadyToSend_cases [OF n])
    fix c c' w1
    assume "GetClientById i w = Some c" "cl_disconnect_flag c' = cl_disconnect_flag c" "keeps (=) w w1" "w' = put_client i c' w1"
    then show ?thesis using orphaned_put [OF o] by simp
  qed (use o in simp)
  then show ?case using EventReadyToSend_inv [OF n] 2(1) by simp
next
  case (3 w i data w')
  then have n: "ok" "secp_ok S" "draw_ok (env_draw env i w)" "connman_inv T w"
      "EventGotData S (env_now env i w) (env_draw env i w) ev debug i data w = Ret w'"
    by (simp_all add: connman_events_def surroundings_ok_def)
  have "i \<noteq> cid" using 3 by (auto simp: orphaned_def)
  have o: "orphaned cid w" using 3(1) by simp
  have "orphaned cid w'"
  proof (rule EventGotData_cases [OF n])
    fix c c' w1
    assume "GetClientById i w = Some c" "keeps K w w1" "w' = put_client i c' w1"
    then show ?thesis using orphaned_put [OF o] \<open>i \<noteq> cid\<close> by simp
  qed (use o in simp)
  then show ?case using EventGotData_inv [OF n] 3(1) by simp
next
  case (4 w i w')
  then show ?case using flag_client_inv [of T w i] orphaned_flag [of cid w i] by (auto simp: connman_events_def EventGotEOF_def)
next
  case (5 w i w')
  then show ?case
    using flag_client_inv [of T w i] orphaned_flag [of cid w i] by (auto simp: connman_events_def EventGotPermanentReadError_def)
next
  case (6 w w')
  then show ?case
    using DisconnectFlagged_inv [of T w] orphaned_disconnect [of cid w T]
    by (auto simp: connman_events_def EventIOLoopCompletedForAll_def)
qed

section \<open>Properties\<close>

text \<open>
  What sending is for: a stream of bytes per connection, of which some are on the wire and the rest
  is pending, in the transport's buffer or still to be encrypted. A call moves bytes from the front
  of the pending ones to the wire.
\<close>

definition send_stream :: "sv2_client \<Rightarrow> 'a sockman_scheme \<Rightarrow> bytes \<times> bytes" where
  "send_stream c w = (wire (cl_id c) w, outgoing (cl_send_messages c) (cl_transport c))"

fun stream_step :: "nat \<Rightarrow> bytes \<times> bytes \<Rightarrow> bytes \<times> bytes \<Rightarrow> bool" where
  "stream_step n (sent, pending) (sent', pending') \<longleftrightarrow>
     n \<le> length pending \<and> sent' = sent @ take n pending \<and> pending' = drop n pending"

lemma stream_step_I:
  "s' @ p' = s @ p \<Longrightarrow> length s' = length s + n \<Longrightarrow> stream_step n (s, p) (s', p')"
  by (auto simp: append_eq_append_conv2)

text \<open>
  C9. Sending implements a stream: for any behaviour of the socket (partial writes, a full buffer,
  errors), \<^verbatim>\<open>SendMessagesAsBytes\<close> returns, none of its assertions fails, the number it reports is the
  number of bytes that moved from the front of the stream to the wire, the queue loses messages at
  its front only, other connections are untouched, and the client is again ready to send.
\<close>

theorem SendMessagesAsBytes_stream:
  assumes "net_ok net" "sendable (cl_send_messages c) (cl_transport c)"
  shows "\<exists>n go_on c' w'. SendMessagesAsBytes net c w = Ret (n, go_on, c', w') \<and>
    stream_step n (send_stream c w) (send_stream c' w') \<and> sendable (cl_send_messages c') (cl_transport c') \<and>
    (\<exists>taken. cl_send_messages c = taken @ cl_send_messages c') \<and> sock_step (cl_id c) w w'"
proof -
  obtain n go_on it t w' where s: "SendMessagesAsBytes net c w = Ret (n, go_on, c\<lparr>cl_send_messages := it, cl_transport := t\<rparr>, w')"
    "sent_ok (cl_id c) (cl_send_messages c) 0 (cl_transport c) w it n t w'"
    using SendMessagesAsBytes_ok [OF assms, of w] by blast
  have "stream_step n (send_stream c w) (send_stream (c\<lparr>cl_send_messages := it, cl_transport := t\<rparr>) w')"
    unfolding send_stream_def by (rule stream_step_I) (use s(2) in \<open>simp_all add: sent_ok_def\<close>)
  with s show ?thesis by (auto simp: sent_ok_def)
qed

text \<open>
  C30. The answer to \<^verbatim>\<open>SetupConnection\<close>: the wrong subprotocol and a version range without version 2
  are answered with an error that echoes the client's flags, after which the client is to be
  disconnected; otherwise the setup is confirmed with version 2 and no optional features. A second
  setup on a confirmed connection changes nothing.
\<close>

theorem setup_decision:
  assumes "wf_setup_connection m" "length (Serialize_SetupConnection m) < 2 ^ 64" "\<not> cl_disconnect_flag c"
  shows "ProcessSv2Message ev debug \<lparr>m_msg_type = SETUP_CONNECTION, m_msg = Serialize_SetupConnection m\<rparr> c w =
    Ret (None,
      if cl_setup_connection_confirmed c then c
      else if sc_protocol m \<noteq> cm_subprotocol w then
        disconnect (queue_message (SetupConnectionError_msg (sc_flags m) ''unsupported-protocol'') c)
      else if sc_min_version m \<le> 2 \<and> 2 \<le> sc_max_version m then
        (queue_message (SetupConnectionSuccess_msg 2 0) c)\<lparr>cl_setup_connection_confirmed := True\<rparr>
      else disconnect (queue_message (SetupConnectionError_msg (sc_flags m) ''protocol-version-mismatch'') c), w)"
proof -
  obtain st where "Unserialize_SetupConnection (DataStream (Serialize_SetupConnection m)) = Ret (m, st)"
    using setup_codec.unserialize_serialize [OF assms(1,2)] by blast
  then show ?thesis
    using assms(3) by (auto simp: ProcessSv2Message_def Process_SetupConnection_def SV2_MSG_NAMES_def
      m_protocol_version_def m_optional_features_def not_le)
qed

text \<open>
  C38. Before the setup: a client that has not completed \<^verbatim>\<open>SetupConnection\<close> is disconnected for
  \<^verbatim>\<open>CoinbaseOutputConstraints\<close> and for \<^verbatim>\<open>SubmitSolution\<close>, whatever they contain, but its
  \<^verbatim>\<open>RequestTransactionData\<close> is served like that of any other client.
\<close>

theorem setup_guards:
  assumes "client_inv c" "\<not> cl_setup_connection_confirmed c" "\<not> cl_disconnect_flag c"
  shows "ProcessSv2Message ev debug \<lparr>m_msg_type = COINBASE_OUTPUT_CONSTRAINTS, m_msg = b\<rparr> c w = Ret (None, disconnect c, w) \<and>
    ProcessSv2Message ev debug \<lparr>m_msg_type = SUBMIT_SOLUTION, m_msg = b\<rparr> c w = Ret (None, disconnect c, w) \<and>
    ProcessSv2Message ev debug \<lparr>m_msg_type = REQUEST_TRANSACTION_DATA, m_msg = ser_writedata64 tid\<rparr> c w =
      RequestTransactionData_fn ev c tid w"
proof (intro conjI)
  have "\<not> cl_coinbase_output_constraints_recv c" using assms(1,2) by (auto simp: client_inv_def)
  then show "ProcessSv2Message ev debug \<lparr>m_msg_type = COINBASE_OUTPUT_CONSTRAINTS, m_msg = b\<rparr> c w = Ret (None, disconnect c, w)"
    "ProcessSv2Message ev debug \<lparr>m_msg_type = SUBMIT_SOLUTION, m_msg = b\<rparr> c w = Ret (None, disconnect c, w)"
    using assms by (simp_all add: ProcessSv2Message_def Process_CoinbaseOutputConstraints_def Process_SubmitSolution_def
        SV2_MSG_NAMES_def msg_type_defs)
  obtain st where "ser_readdata64 (DataStream (ser_writedata64 tid)) = Ret (tid, st)"
    using u64_codec.unserialize_serialize [of tid] by (auto simp: length_writedata)
  then show "ProcessSv2Message ev debug \<lparr>m_msg_type = REQUEST_TRANSACTION_DATA, m_msg = ser_writedata64 tid\<rparr> c w =
      RequestTransactionData_fn ev c tid w"
    using assms(3) by (simp add: ProcessSv2Message_def Process_RequestTransactionData_def Unserialize_RequestTransactionData_def
        SV2_MSG_NAMES_def msg_type_defs)
qed


section \<open>Sample values\<close>

definition toy_net :: net where "toy_net k data go_on = Inr (length data)"

definition toy_client :: sv2_client where
  "toy_client = (Sv2Client 0 (toy_idle False) 0)\<lparr>cl_send_messages := [toy_message]\<rparr>"

definition toy_connman :: connman where
  "toy_connman = Sv2Connman TP_SUBPROTOCOL (Some (toy_key 2)) [] toy_cert"

definition toy_events :: "connman sv2_events" where
  "toy_events = \<lparr>RequestTransactionData_fn = (\<lambda>c tid w. Ret (None, queue_message toy_message c, w)),
     SubmitSolution_fn = (\<lambda>sol w. Ret (None, w))\<rparr>"

definition toy_setup :: sv2_setup_connection where
  "toy_setup = \<lparr>sc_protocol = 2, sc_min_version = 2, sc_max_version = 2, sc_flags = 1, sc_endpoint_host = [48],
     sc_endpoint_port = 8336, sc_vendor = [], sc_hardware_version = [], sc_firmware = [], sc_device_id = []\<rparr>"

lemma toy_net_ok: "net_ok toy_net"
  by (simp add: net_ok_def toy_net_def)

lemma toy_client_inv: "client_inv toy_client"
  using app_idle_inv(1) [OF toy_idle_simps(1) [of False]]
  by (simp add: client_inv_def toy_client_def Sv2Client_def small_messages_def transport_inv_def send_inv_def server_state_def
      toy_idle_simps toy_message_simps MAX_CONTENTS_LEN_def) (simp add: toy_idle_def transport_of_def)

lemma toy_client_sendable: "sendable (cl_send_messages toy_client) (cl_transport toy_client)"
  by (simp add: toy_client_def Sv2Client_def sendable_def send_inv_def toy_idle_simps toy_message_simps MAX_CONTENTS_LEN_def
      total_nonces_def)

theorem SendMessagesAsBytes_stream_witness:
  "\<exists>n go_on c' w'. SendMessagesAsBytes toy_net toy_client (toy_connman\<lparr>sm_connected := {0}\<rparr>) = Ret (n, go_on, c', w') \<and>
    stream_step n (send_stream toy_client (toy_connman\<lparr>sm_connected := {0}\<rparr>)) (send_stream c' w')"
  using SendMessagesAsBytes_stream [OF toy_net_ok toy_client_sendable] by blast

theorem setup_decision_witness:
  "ProcessSv2Message toy_events True \<lparr>m_msg_type = SETUP_CONNECTION, m_msg = Serialize_SetupConnection toy_setup\<rparr> toy_client toy_connman =
    Ret (None, (queue_message (SetupConnectionSuccess_msg 2 0) toy_client)\<lparr>cl_setup_connection_confirmed := True\<rparr>, toy_connman)"
  using setup_decision [of toy_setup toy_client toy_events True toy_connman]
  by (simp add: toy_setup_def wf_setup_connection_def MAX_SIZE_def Serialize_SetupConnection_def length_writedata toy_client_def
      Sv2Client_def toy_connman_def Sv2Connman_def TP_SUBPROTOCOL_def Serialize_string_def length_WriteCompactSize GetSizeOfCompactSize_def)

theorem setup_guards_witness:
  "ProcessSv2Message toy_events False \<lparr>m_msg_type = REQUEST_TRANSACTION_DATA, m_msg = ser_writedata64 7\<rparr> toy_client toy_connman =
    Ret (None, queue_message toy_message toy_client, toy_connman)"
  using setup_guards [OF toy_client_inv, of toy_events False "[]" toy_connman 7]
  by (simp add: toy_client_def Sv2Client_def toy_events_def)


end
