(* ===== verification/Sv2_ConnmanTotal.thy ===== *)
theory Sv2_ConnmanTotal
  imports Sv2_Connman
begin

text \<open>
  Received bytes are always processed to the end: the loop of \<^verbatim>\<open>EventGotData\<close> in
  \<^verbatim>\<open>src/src/sv2/connman.cpp\<close> returns and fails no assertion. The readers of the messages never
  abort, every round of the loop uses up bytes, and the nonces a round may need are bounded. The
  locale \<^verbatim>\<open>sv2_msgproc_total\<close> adds to the contract of the template provider that its functions
  return.
\<close>

section \<open>Readers\<close>

named_theorems safe_intro

definition safe :: "'a reader \<Rightarrow> bool" where
  "safe r \<longleftrightarrow> (\<forall>s a. r s \<noteq> Abort a)"

lemma safe_return [safe_intro]: "safe (rd_return x)"
  by (simp add: safe_def rd_return_def)

lemma safe_throw [safe_intro]: "safe (rd_throw e)"
  by (simp add: safe_def rd_throw_def)

lemma safe_bind [safe_intro]: "safe m \<Longrightarrow> (\<And>x. safe (k x)) \<Longrightarrow> safe (rd_bind m k)"
  unfolding safe_def
proof (intro allI)
  fix s a
  assume "\<forall>s a. m s \<noteq> Abort a" "\<And>x. \<forall>s a. k x s \<noteq> Abort a"
  then show "rd_bind m k s \<noteq> Abort a" by (cases "m s") (auto simp: rd_bind_def)
qed

lemma safe_read [safe_intro]: "safe (DataStream_read n)"
  by (simp add: safe_def DataStream_read_def Let_def split: option.splits)

lemma safe_ignore [safe_intro]: "safe (DataStream_ignore n)"
  by (simp add: safe_def DataStream_ignore_def split: option.splits)

lemma safe_if [safe_intro]: "(b \<Longrightarrow> safe m) \<Longrightarrow> (\<not> b \<Longrightarrow> safe k) \<Longrightarrow> safe (if b then m else k)"
  by simp

lemma safe_prod [safe_intro]: "(\<And>a b. safe (f a b)) \<Longrightarrow> safe (case p of (a, b) \<Rightarrow> f a b)"
  by (cases p) simp

lemma safe_catch [safe_intro]: "safe m \<Longrightarrow> safe (rd_catch m d)"
  by (auto simp: safe_def rd_catch_def split: res.splits)

lemma safe_ints [safe_intro]: "safe ser_readdata8" "safe ser_readdata16" "safe ser_readdata32" "safe ser_readdata64"
  unfolding ser_readdata8_def ser_readdata16_def ser_readdata32_def ser_readdata64_def by (intro safe_intro)+

lemma safe_CompactSize [safe_intro]: "safe (ReadCompactSize r)"
  unfolding ReadCompactSize_def ReadCompactSize_body_def non_canonical_def by (intro safe_intro)

lemma safe_string [safe_intro]: "safe Unserialize_string"
  unfolding Unserialize_string_def Let_def by (intro safe_intro)

lemma safe_blocks [safe_intro]: "safe (read_blocks n)"
proof (induction n rule: read_blocks.induct)
  case (1 n)
  show ?case unfolding read_blocks.simps [of n] Let_def by (intro safe_intro) (use 1 in simp)
qed

lemma safe_bytevec [safe_intro]: "safe Unserialize_bytevec"
  unfolding Unserialize_bytevec_def by (intro safe_intro)

lemma safe_elems [safe_intro]: "safe un \<Longrightarrow> safe (Unser_elems un n)"
  by (induction n) (auto intro: safe_intro)

lemma safe_vector [safe_intro]: "safe un \<Longrightarrow> safe (VectorFormatter_Unser un)"
  unfolding VectorFormatter_Unser_def by (intro safe_intro)

lemma safe_tx_parts [safe_intro]: "safe Unserialize_COutPoint" "safe Unserialize_CTxIn" "safe Unserialize_CTxOut"
  unfolding Unserialize_COutPoint_def Unserialize_CTxIn_def Unserialize_CTxOut_def by (intro safe_intro)+

lemma safe_tx [safe_intro]: "safe (UnserializeTransaction w)"
  unfolding UnserializeTransaction_def UnserializeTransaction_body_def UnserializeTransaction_flagged_def
    UnserializeTransaction_witness_def Let_def
  by (intro safe_intro)

lemma safe_messages:
  "safe Unserialize_SetupConnection" "safe Unserialize_CoinbaseOutputConstraints" "safe Unserialize_RequestTransactionData"
  "safe Unserialize_SubmitSolution"
  unfolding Unserialize_SetupConnection_def Unserialize_CoinbaseOutputConstraints_def Unserialize_RequestTransactionData_def
    Unserialize_SubmitSolution_def
  by (intro safe_intro)+

lemma safeD: "safe r \<Longrightarrow> r s \<noteq> Abort a"
  by (simp add: safe_def)

section \<open>Room for messages\<close>

text \<open>A sound client with nonces for its queue and \<^verbatim>\<open>k\<close> more.\<close>

definition room :: "nat \<Rightarrow> sv2_client \<Rightarrow> bool" where
  "room k c \<longleftrightarrow> client_inv c \<and> transport_inv (cl_transport c) \<and> nonce_use (cl_send_messages c) (cl_transport c) + k < 2 ^ 64"

lemma room_less: "room k c \<Longrightarrow> j \<le> k \<Longrightarrow> room j c"
  by (simp add: room_def)

lemma room_sendable: "room k c \<Longrightarrow> sendable (cl_send_messages c) (cl_transport c)"
  using client_inv_send [of c] by (simp add: room_def sendable_def client_inv_def small_messages_def nonce_use_def nonces_left_def)

lemma room_flag: "room k c \<Longrightarrow> room k (disconnect c)"
  by (simp add: room_def client_inv_flag)

lemma packet_nonces_small: "length (m_msg m) \<le> MAX_CONTENTS_LEN \<Longrightarrow> packet_nonces m \<le> 300"
  using div_le_mono [of "length (m_msg m) + 65518" "16777215 + 65518" 65519]
  by (simp add: packet_nonces_def num_chunks_eq MAX_CONTENTS_LEN_def)

lemma room_queue: "room (k + 300) c \<Longrightarrow> length (m_msg m) \<le> MAX_CONTENTS_LEN \<Longrightarrow> room k (queue_message m c)"
  using client_inv_queue [of c m] packet_nonces_small [of m] by (simp add: room_def nonce_use_def total_nonces_def)

lemma TryOptimisticSend_room:
  assumes "net_ok net" "room k c"
  shows "\<exists>n c' w'. TryOptimisticSend net c w = Ret (c', w') \<and> room k c' \<and>
    same_receiver (cl_transport c) (cl_transport c') \<and> stream_step n (send_stream c w) (send_stream c' w')"
proof -
  obtain n go_on it t w' where s: "SendMessagesAsBytes net c w = Ret (n, go_on, c\<lparr>cl_send_messages := it, cl_transport := t\<rparr>, w')"
    "sent_ok (cl_id c) (cl_send_messages c) 0 (cl_transport c) w it n t w'"
    using SendMessagesAsBytes_ok [OF assms(1) room_sendable [OF assms(2)], of w] by blast
  let ?c = "c\<lparr>cl_send_messages := it, cl_transport := t\<rparr>"
  have c: "client_inv c" "transport_inv (cl_transport c)" "server_state (cl_transport c)" using assms(2) by (simp_all add: room_def client_inv_def)
  obtain it' t' where "?c = c\<lparr>cl_send_messages := it', cl_transport := t'\<rparr>"
    "send_keeps (cl_id c) (cl_send_messages c) (cl_transport c) w it' t' w'"
    using SendMessagesAsBytes_keeps [OF assms(1) s(1)] by blast
  moreover from this(1) have "it' = it" "t' = t" by (cases c, simp)+
  ultimately have k: "send_keeps (cl_id c) (cl_send_messages c) (cl_transport c) w it t w'" by simp
  have "t = cl_transport c" if "t_recv_state (cl_transport c) = RECV_HANDSHAKE_STEP_1"
    using k that c(1,2) client_inv_send [OF c(1)] by (simp add: send_keeps_def client_inv_def transport_inv_def recv_inv_def)
  then have "transport_inv t"
    using same_receiver_server [OF _ c(2,3)] s(2) by (simp add: sent_ok_def sendable_def)
  then have "room k ?c" using client_inv_sent [OF c(1) k] assms(2) s(2) by (simp add: room_def sent_ok_def)
  moreover have "stream_step n (send_stream c w) (send_stream ?c w')"
    unfolding send_stream_def by (rule stream_step_I) (use s(2) in \<open>simp_all add: sent_ok_def\<close>)
  moreover have "same_receiver (cl_transport c) t" using s(2) by (simp add: sent_ok_def)
  ultimately show ?thesis using s(1) by (auto simp: TryOptimisticSend_def)
qed

section \<open>One round\<close>

text \<open>Bytes are used up unless a message waits to be taken.\<close>

lemma ReceivedBytes_progress:
  assumes "transport_inv t" "key_sent t" "secp_ok S" "draw_ok d" "t_recv_state t \<noteq> RECV_APP_READY" "msg \<noteq> []"
    and "ReceivedBytes S now d msg t = Ret (True, rest, t')"
  shows "length rest < length msg"
proof -
  have inv: "recv_inv t" using assms(1) by (simp add: transport_inv_def)
  show ?thesis
  proof (rule input_cases [OF inv, where msg = msg])
    fix a b
    assume f: "t_recv_state t \<noteq> RECV_APP_READY" "msg = a @ b" "length b < length msg"
      "length (t_recv_buffer t) + length a = recv_limit t"
    obtain ok t1 where p: "process_received S now d (received a t) = Ret (ok, t1)" "ok \<longrightarrow> good_step t t1"
      using process_received_good [OF assms(1,2) f(1) assms(3,4) f(4)] by blast
    then have r: "ok" "ReceivedBytes S now d b t1 = Ret (True, rest, t')"
      using assms(7) ReceivedBytes_full [OF inv f(1,4), of S now d b] by (auto simp: f(2) split: if_splits)
    have "transport_inv t1" "key_sent t1" using p(2) r(1) by (simp_all add: good_step_def)
    then obtain used where "b = used @ rest" using ReceivedBytes_good [OF _ _ assms(3,4), of t1 now b] r(2) by auto
    then show ?thesis using f(3) by simp
  qed (use assms ReceivedBytes_short [OF inv assms(5), of msg S now d] in auto)
qed

definition pending_message :: "sv2_transport \<Rightarrow> nat" where
  "pending_message t = (if t_recv_state t = RECV_APP_READY then 1 else 0)"

lemma room_received:
  assumes "room k c" "secp_ok S" "draw_ok d" "data \<noteq> []"
  shows "\<exists>acc rest t. ReceivedBytes S now d data (cl_transport c) = Ret (acc, rest, t) \<and>
    (acc \<longrightarrow> room k (c\<lparr>cl_transport := t\<rparr>) \<and> length rest \<le> length data \<and>
      (if t_recv_state t = RECV_APP_READY then length rest < length data + pending_message (cl_transport c) else rest = []))"
proof -
  have c: "client_inv c" "transport_inv (cl_transport c)" "server_state (cl_transport c)" using assms(1) by (simp_all add: room_def client_inv_def)
  have ks: "key_sent (cl_transport c)" using c(3) by (simp add: key_sent_def server_state_def)
  obtain acc rest t where r: "ReceivedBytes S now d data (cl_transport c) = Ret (acc, rest, t)" "\<exists>used. data = used @ rest"
    "acc \<longrightarrow> good_step (cl_transport c) t \<and> (t_recv_state t = RECV_APP_READY \<or> rest = [])"
    using ReceivedBytes_good [OF c(2) ks assms(2,3), of now data] by blast
  have "room k (c\<lparr>cl_transport := t\<rparr>)" if "acc"
  proof -
    have g: "transport_inv t" "cs_nonce (send_cs (t_cipher t)) \<le> cs_nonce (send_cs (t_cipher (cl_transport c)))"
      using r(3) that by (simp_all add: good_step_def)
    then show ?thesis
      using received_client(2) [OF c(1) assms(2,3) r(1) that] assms(1) by (simp add: room_def nonce_use_def word_le_nat_alt)
  qed
  moreover have "length rest < length data + pending_message (cl_transport c)" if "acc"
    using ReceivedBytes_progress [OF c(2) ks assms(2,3) _ assms(4)] r(1,2) that by (auto simp: pending_message_def)
  ultimately show ?thesis using r by auto
qed

lemma room_handed:
  assumes "room k c" "t_recv_state (cl_transport c) = RECV_APP_READY"
  shows "\<exists>m. GetReceivedMessage (cl_transport c) = Ret (m, (cl_transport c)\<lparr>t_recv_state := RECV_APP\<rparr>) \<and>
    room k (c\<lparr>cl_transport := (cl_transport c)\<lparr>t_recv_state := RECV_APP\<rparr>\<rparr>)"
proof -
  have c: "client_inv c" "transport_inv (cl_transport c)" using assms(1) by (simp_all add: room_def)
  note g = GetReceivedMessage_inv [OF c(2) assms(2)]
  have "client_inv (c\<lparr>cl_transport := (cl_transport c)\<lparr>t_recv_state := RECV_APP\<rparr>\<rparr>)"
    by (rule client_inv_handed [OF c(1) _ g(1)]) (simp add: ReceivedMessageComplete_def assms(2))
  then show ?thesis using g assms(1) by (simp add: room_def nonce_use_def send_cs_def)
qed

lemma of_CNetMessage_safe: "of_CNetMessage m \<noteq> Abort a"
proof -
  let ?body = "\<lambda>t n. rd_bind (DataStream_read n) (\<lambda>msg. rd_return \<lparr>m_msg_type = t, m_msg = msg\<rparr>)"
  have "safe (?body t n)" for t n by (intro safe_intro)
  then have "safe (\<lambda>s. ?body t (DataStream_size s) s)" for t by (simp add: safe_def)
  then have "safe Sv2NetMsg_Unserialize" unfolding Sv2NetMsg_Unserialize_def by (intro safe_bind safe_ints)
  then show ?thesis by (cases "Sv2NetMsg_Unserialize m") (auto simp: of_CNetMessage_def safe_def)
qed

section \<open>Messages\<close>

lemma SetupConnectionError_small: "length code < 255 \<Longrightarrow> length (m_msg (SetupConnectionError_msg fl code)) \<le> MAX_CONTENTS_LEN"
  using length_WriteCompactSize_le [of "of_nat (length code)"]
  by (simp add: SetupConnectionError_msg_def Serialize_SetupConnectionError_def Serialize_string_def length_writedata MAX_CONTENTS_LEN_def)

lemma Process_SetupConnection_total:
  assumes "room (k + 300) c"
  shows "\<exists>c'. Process_SetupConnection p ss c = Ret c' \<and> room k c' \<and> cl_transport c' = cl_transport c"
proof -
  have r: "room k c" using assms by (rule room_less) simp
  have e: "room k (disconnect (queue_message (SetupConnectionError_msg fl code) c))" if "length code < 255" for fl code
    using room_flag [OF room_queue [OF assms SetupConnectionError_small [OF that]]] .
  have "room k (queue_message (SetupConnectionSuccess_msg v f) c)" for v f
    by (rule room_queue [OF assms])
      (simp add: SetupConnectionSuccess_msg_def Serialize_SetupConnectionSuccess_def MAX_CONTENTS_LEN_def length_writedata)
  then have s: "room k ((queue_message (SetupConnectionSuccess_msg v f) c)\<lparr>cl_setup_connection_confirmed := True\<rparr>)" for v f
    by (simp add: room_def client_inv_def)
  show ?thesis
    using safeD [OF safe_messages(1), of ss] r room_flag [OF r]
    by (cases "Unserialize_SetupConnection ss") (auto simp: Process_SetupConnection_def e s)
qed

lemma Process_CoinbaseOutputConstraints_total:
  assumes "room k c"
  shows "\<exists>c'. Process_CoinbaseOutputConstraints ss c = Ret c' \<and> room k c' \<and> cl_transport c' = cl_transport c"
proof -
  have "\<exists>c'. Process_CoinbaseOutputConstraints ss c = Ret c' \<and> cl_transport c' = cl_transport c \<and> cl_send_messages c' = cl_send_messages c"
    using safeD [OF safe_messages(2), of ss]
    by (cases "Unserialize_CoinbaseOutputConstraints ss") (auto simp: Process_CoinbaseOutputConstraints_def Let_def)
  then obtain c' where c': "Process_CoinbaseOutputConstraints ss c = Ret c'"
    "cl_transport c' = cl_transport c" "cl_send_messages c' = cl_send_messages c" by blast
  have "client_inv c" using assms by (simp add: room_def)
  then have "client_inv c'" using ensuresD [OF Process_CoinbaseOutputConstraints_keeps c'(1)] by (simp add: client_step_def)
  then show ?thesis using c' assms by (simp add: room_def)
qed

text \<open>
  What receiving needs of the template provider: its functions return, with or without an
  exception, and use at most 300 nonces for an answer. The largest message takes 258.
\<close>

locale sv2_msgproc_total = sv2_msgproc ev ok K for ev :: "'a connman_scheme sv2_events" and ok :: bool and K :: "'a \<Rightarrow> 'a \<Rightarrow> bool" +
  assumes request_total: "ok \<Longrightarrow> room (k + 300) c \<Longrightarrow> \<exists>e c' w'. RequestTransactionData_fn ev c tid w = Ret (e, c', w') \<and>
      room k c' \<and> t_recv_state (cl_transport c') = t_recv_state (cl_transport c)"
    and submit_total: "ok \<Longrightarrow> \<exists>e w'. SubmitSolution_fn ev sol w = Ret (e, w')"
begin

lemma Process_SubmitSolution_total:
  assumes "ok" "room k c"
  shows "\<exists>e c' w'. Process_SubmitSolution ev ss c w = Ret (e, c', w') \<and> room k c' \<and> cl_transport c' = cl_transport c"
proof (cases "Unserialize_SubmitSolution ss")
  case (Ret x)
  obtain e w' where "SubmitSolution_fn ev (fst x) w = Ret (e, w')" using submit_total [OF assms(1)] by blast
  then show ?thesis using Ret assms(2) room_flag [OF assms(2)] by (auto simp: Process_SubmitSolution_def split: prod.splits)
next
  case (Throw e)
  then show ?thesis using assms(2) room_flag [OF assms(2)] by (auto simp: Process_SubmitSolution_def)
next
  case (Abort a)
  then show ?thesis using safeD [OF safe_messages(4)] by blast
qed

lemma Process_RequestTransactionData_total:
  assumes "ok" "room (k + 300) c"
  shows "\<exists>e c' w'. Process_RequestTransactionData ev ss c w = Ret (e, c', w') \<and> room k c' \<and>
    t_recv_state (cl_transport c') = t_recv_state (cl_transport c)"
  using request_total [OF assms] room_less [OF assms(2), of k] safeD [OF safe_messages(3), of ss]
  by (cases "Unserialize_RequestTransactionData ss") (auto simp: Process_RequestTransactionData_def)

lemma ProcessSv2Message_total:
  assumes "ok" "room (k + 300) c"
  shows "\<exists>e c' w'. ProcessSv2Message ev debug msg c w = Ret (e, c', w') \<and> room k c' \<and>
    t_recv_state (cl_transport c') = t_recv_state (cl_transport c)"
proof -
  have r: "room k c" using assms(2) by (rule room_less) simp
  let ?ss = "DataStream (m_msg msg)"
  obtain c1 where c1: "Process_SetupConnection (cm_subprotocol w) ?ss c = Ret c1" "room k c1" "cl_transport c1 = cl_transport c"
    using Process_SetupConnection_total [OF assms(2)] by blast
  obtain c2 where c2: "Process_CoinbaseOutputConstraints ?ss c = Ret c2" "room k c2" "cl_transport c2 = cl_transport c"
    using Process_CoinbaseOutputConstraints_total [OF r] by blast
  obtain e3 c3 w3 where c3: "Process_SubmitSolution ev ?ss c w = Ret (e3, c3, w3)" "room k c3" "cl_transport c3 = cl_transport c"
    using Process_SubmitSolution_total [OF assms(1) r] by blast
  obtain e4 c4 w4 where c4: "Process_RequestTransactionData ev ?ss c w = Ret (e4, c4, w4)" "room k c4"
    "t_recv_state (cl_transport c4) = t_recv_state (cl_transport c)"
    using Process_RequestTransactionData_total [OF assms] by blast
  show ?thesis using r c1 c2 c3 c4 by (simp add: ProcessSv2Message_def Let_def)
qed

lemma receive_round_total:
  assumes "ok" "secp_ok S" "draw_ok d" "room (k + 300) c" "data \<noteq> []"
  shows "\<exists>continue e data' c' w'. receive_round S now d ev debug data c w = Ret (continue, e, data', c', w') \<and>
    (continue \<longrightarrow> room k c' \<and> pending_message (cl_transport c') = 0 \<and> length data' < length data + pending_message (cl_transport c))"
proof -
  obtain acc rest t where r: "ReceivedBytes S now d data (cl_transport c) = Ret (acc, rest, t)"
    "acc \<longrightarrow> room (k + 300) (c\<lparr>cl_transport := t\<rparr>) \<and> length rest \<le> length data \<and>
      (if t_recv_state t = RECV_APP_READY then length rest < length data + pending_message (cl_transport c) else rest = [])"
    using room_received [OF assms(4,2,3,5)] by blast
  let ?t = "t\<lparr>t_recv_state := RECV_APP\<rparr>"
  show ?thesis
  proof (cases "acc \<and> t_recv_state t = RECV_APP_READY")
    case False
    then have e: "receive_round S now d ev debug data c w =
        Ret (acc, None, rest, if acc then c\<lparr>cl_transport := t\<rparr> else disconnect (c\<lparr>cl_transport := t\<rparr>), w)"
      using r(1) by (auto simp: receive_round_def ReceivedMessageComplete_def)
    have "room k (c\<lparr>cl_transport := t\<rparr>) \<and> rest = []" if "acc" using r(2) that False room_less [of "k + 300" _ k] by simp
    then show ?thesis unfolding e using assms(5) False by (simp add: pending_message_def)
  next
    case True
    then obtain m where m: "GetReceivedMessage t = Ret (m, ?t)" "room (k + 300) (c\<lparr>cl_transport := ?t\<rparr>)"
      using room_handed [of "k + 300" "c\<lparr>cl_transport := t\<rparr>"] r(2) by auto
    show ?thesis
    proof (cases "of_CNetMessage m")
      case (Ret msg)
      obtain e c' w' where "ProcessSv2Message ev debug msg (c\<lparr>cl_transport := ?t\<rparr>) w = Ret (e, c', w')" "room k c'"
        "t_recv_state (cl_transport c') = t_recv_state (cl_transport (c\<lparr>cl_transport := ?t\<rparr>))"
        using ProcessSv2Message_total [OF assms(1) m(2), of debug msg w] by blast
      then show ?thesis using True r m(1) Ret by (simp add: receive_round_def ReceivedMessageComplete_def pending_message_def Let_def)
    qed (use True r(1) m(1) of_CNetMessage_safe in \<open>auto simp: receive_round_def ReceivedMessageComplete_def Let_def\<close>)
  qed
qed

lemma receive_loop_total:
  assumes "ok" "secp_ok S" "draw_ok d" "room (300 * (length data + pending_message (cl_transport c))) c"
  shows "\<exists>e c' w'. receive_loop S now d ev debug data c w = Some (Ret (e, c', w'))"
  using assms(4)
proof (induction "length data + pending_message (cl_transport c)" arbitrary: data c w rule: less_induct)
  case less
  show ?case
  proof (cases "data = []")
    case False
    let ?n = "length data + pending_message (cl_transport c)"
    have "300 * (n - 1) + 300 \<le> 300 * n" if "0 < n" for n :: nat using that by (cases n) simp_all
    from this [of ?n] False have "room (300 * (?n - 1) + 300) c" by (intro room_less [OF less.prems]) simp
    from receive_round_total [OF assms(1-3) this False] obtain continue e data' c' w' where
      r: "receive_round S now d ev debug data c w = Ret (continue, e, data', c', w')"
      "continue \<longrightarrow> room (300 * (?n - 1)) c' \<and> pending_message (cl_transport c') = 0 \<and> length data' < ?n" by blast
    have "\<exists>e c' w'. receive_loop S now d ev debug data' c'0 w'0 = Some (Ret (e, c', w'))"
      if "continue" "c'0 = c'" for c'0 w'0
      by (rule less.hyps) (use r(2) that in \<open>auto intro: room_less\<close>)
    then show ?thesis using False r(1) by (subst receive_loop.simps) auto
  qed (simp add: receive_loop.simps)
qed

lemma EventGotData_total:
  assumes "ok" "secp_ok S" "draw_ok d"
    and "\<And>c. GetClientById cid w = Some c \<Longrightarrow> room (300 * (length data + 1)) c"
  shows "\<exists>w'. EventGotData S now d ev debug cid data w = Ret w'"
proof (cases "GetClientById cid w")
  case (Some c)
  have "room (300 * (length data + pending_message (cl_transport c))) c"
    by (rule room_less [OF assms(4) [OF Some]]) (simp add: pending_message_def)
  from receive_loop_total [OF assms(1-3) this, of now debug w] Some show ?thesis by (auto simp: EventGotData_def returning_def)
qed (simp add: EventGotData_def)

end

end
