(* ===== verification/Sv2_TemplateProvider.thy ===== *)
theory Sv2_TemplateProvider
  imports Sv2_Connman
begin

text \<open>
  The template provider, \<^verbatim>\<open>src/src/sv2/template_provider.h\<close> and \<^verbatim>\<open>src/src/sv2/template_provider.cpp\<close>: the cache of
  block templates, the answers to \<^verbatim>\<open>RequestTransactionData\<close> and \<^verbatim>\<open>SubmitSolution\<close>, and the threads
  that make templates and send them.

  The node is an argument: \<^verbatim>\<open>'b\<close> stands for its block templates, and the record \<^verbatim>\<open>'b node\<close> holds the
  methods of \<^verbatim>\<open>interfaces::BlockTemplate\<close>, each of which may throw. What \<^verbatim>\<open>createNewBlock\<close> and
  \<^verbatim>\<open>waitNext\<close> return, the clock and the configuration come with the steps.

  The state extends that of the connection manager. A thread that serves a client is a state machine
  whose steps are the stretches between the points where the code takes or releases a lock or waits
  for the node; \<^verbatim>\<open>tp_reach\<close> interleaves these threads with the socket thread and the main thread.
  A callback of the socket thread is one step.
\<close>

section \<open>State\<close>

definition STALE_TEMPLATE_GRACE_PERIOD :: int where "STALE_TEMPLATE_GRACE_PERIOD = 10"
definition NO_WITNESS_COMMITMENT :: int where "NO_WITNESS_COMMITMENT = - 1"
definition MAX_MONEY :: int where "MAX_MONEY = 21000000 * 100000000"

record 'b node =
  getBlockHeader_fn :: "'b \<Rightarrow> cblockheader res"
  getBlock_fn :: "'b \<Rightarrow> cblock res"
  getTxFees_fn :: "'b \<Rightarrow> int list res"
  getCoinbaseTx_fn :: "'b \<Rightarrow> transaction res"
  getWitnessCommitmentIndex_fn :: "'b \<Rightarrow> int res"
  getCoinbaseMerklePath_fn :: "'b \<Rightarrow> bytes list res"
  submitSolution_fn :: "'b \<Rightarrow> u32 \<Rightarrow> u32 \<Rightarrow> u32 \<Rightarrow> transaction \<Rightarrow> bool res"

record tp_options =
  opt_is_test :: bool
  opt_fee_delta :: int
  opt_fee_check_interval :: int
  opt_signet :: bool

text \<open>
  \<^verbatim>\<open>tp_submitted\<close> and \<^verbatim>\<open>tp_saving\<close> record the calls of \<^verbatim>\<open>submitSolution\<close> and the threads started by
  \<^verbatim>\<open>SaveBlockAsync\<close>. Times are in seconds.
\<close>

record 'b template_provider = connman +
  tp_interrupt :: bool
  tp_template_id :: u64
  tp_best_prev_hash :: bytes
  tp_last_block_time :: int
  tp_cache :: "(u64 \<times> bytes \<times> 'b) list"
  tp_submitted :: "('b \<times> sv2_submit_solution) list"
  tp_saving :: "('b \<times> bool) list"

text \<open>\<^verbatim>\<open>insert\<close> on a map keeps an existing entry.\<close>

definition cache_insert :: "u64 \<Rightarrow> bytes \<times> 'b \<Rightarrow> (u64 \<times> bytes \<times> 'b) list \<Rightarrow> (u64 \<times> bytes \<times> 'b) list" where
  "cache_insert k v m = (if map_of m k = None then m @ [(k, v)] else m)"

section \<open>Construction\<close>

text \<open>The key in the file when it could be read and is valid, otherwise a new one.\<close>

definition load_key :: "ckey \<Rightarrow> bytes \<Rightarrow> bytes" where
  "load_key stored generated = (case stored of Some k \<Rightarrow> k | None \<Rightarrow> generated)"

definition certificate_valid_from :: "int \<Rightarrow> u32" where
  "certificate_valid_from now =
     (let now_seconds = max now 0; backdated = max (now_seconds - 3600) 0
      in word_of_int (min backdated (uint (- 1 :: u32))))"

definition tp_certificate :: "secp256k1 \<Rightarrow> int \<Rightarrow> bytes \<Rightarrow> bytes \<Rightarrow> certificate" where
  "tp_certificate S now static_key authority_key =
     Sv2SignatureNoiseMessage S 0 (certificate_valid_from now) (- 1) (keypair_xonly_pub S static_key) authority_key"

definition Sv2TemplateProvider ::
  "secp256k1 \<Rightarrow> int \<Rightarrow> ckey \<Rightarrow> bytes \<Rightarrow> ckey \<Rightarrow> bytes \<Rightarrow> int \<Rightarrow> 'b template_provider" where
  "Sv2TemplateProvider S now stored_static new_static stored_authority new_authority garbage =
     (let static_key = load_key stored_static new_static; authority_key = load_key stored_authority new_authority in
      connman.extend
        (Sv2Connman TP_SUBPROTOCOL (Some static_key) (keypair_xonly_pub S authority_key)
          (tp_certificate S now static_key authority_key))
        (template_provider.fields False 0 (zeros 32) garbage [] [] []))"

section \<open>The cache and the clients' requests\<close>

definition PruneBlockTemplateCache :: "int \<Rightarrow> ('b, 'z) template_provider_scheme \<Rightarrow> ('b, 'z) template_provider_scheme" where
  "PruneBlockTemplateCache now w =
     (let recent = now - STALE_TEMPLATE_GRACE_PERIOD in
      if tp_last_block_time w > recent then w
      else w\<lparr>tp_cache := filter (\<lambda>(k, prev, b). \<not> prev \<noteq> tp_best_prev_hash w) (tp_cache w)\<rparr>)"

definition RequestTransactionDataError_msg :: "u64 \<Rightarrow> string \<Rightarrow> sv2_net_msg" where
  "RequestTransactionDataError_msg tid code = \<lparr>m_msg_type = REQUEST_TRANSACTION_DATA_ERROR,
     m_msg = Serialize_RequestTransactionDataError \<lparr>rte_template_id = tid, rte_error_code = ascii code\<rparr>\<rparr>"

definition RequestTransactionDataSuccess_msg :: "u64 \<Rightarrow> bytes \<Rightarrow> transaction list \<Rightarrow> sv2_net_msg" where
  "RequestTransactionDataSuccess_msg tid excess txs = \<lparr>m_msg_type = REQUEST_TRANSACTION_DATA_SUCCESS,
     m_msg = Serialize_RequestTransactionDataSuccess
       \<lparr>rts_template_id = tid, rts_excess_data = excess, rts_transactions_list = txs\<rparr>\<rparr>"

text \<open>A block without transactions or a coinbase without inputs would be read out of range, which is an abort here.\<close>

definition transaction_data :: "u64 \<Rightarrow> cblock \<Rightarrow> sv2_net_msg res" where
  "transaction_data tid block =
     (case vtx block of
        [] \<Rightarrow> Abort ''block.vtx[0]''
      | coinbase # txs \<Rightarrow>
          (case vin coinbase of
             [] \<Rightarrow> Abort ''vin[0]''
           | i # _ \<Rightarrow>
               Ret (RequestTransactionDataSuccess_msg tid (case scriptWitness i of [] \<Rightarrow> [] | x # _ \<Rightarrow> x) txs)))"

definition RequestTransactionData ::
  "'b node \<Rightarrow> net \<Rightarrow> int \<Rightarrow> sv2_client \<Rightarrow> u64 \<Rightarrow> ('b, 'z) template_provider_scheme \<Rightarrow>
     (exn option \<times> sv2_client \<times> ('b, 'z) template_provider_scheme) res" where
  "RequestTransactionData M net now c tid w =
     (case map_of (tp_cache w) tid of
        None \<Rightarrow> Ret (None, queue_message (RequestTransactionDataError_msg tid ''template-id-not-found'') c, w)
      | Some (_, b) \<Rightarrow>
          (case getBlock_fn M b of
             Abort m \<Rightarrow> Abort m
           | Throw e \<Rightarrow> Ret (Some e, c, w)
           | Ret block \<Rightarrow>
               let recent = now - STALE_TEMPLATE_GRACE_PERIOD in
               if hashPrevBlock (blk_header block) \<noteq> tp_best_prev_hash w \<and> tp_last_block_time w < recent then
                 Ret (None, queue_message (RequestTransactionDataError_msg tid ''stale-template-id'') c, w)
               else
                 res_bind (transaction_data tid block) (\<lambda>m.
                 res_bind (TryOptimisticSend net (queue_message m c) w) (\<lambda>(c, w). Ret (None, c, w)))))"

definition SubmitSolution ::
  "'b node \<Rightarrow> sv2_submit_solution \<Rightarrow> ('b, 'z) template_provider_scheme \<Rightarrow>
     (exn option \<times> ('b, 'z) template_provider_scheme) res" where
  "SubmitSolution M sol w =
     (case map_of (tp_cache w) (ss_template_id sol) of
        None \<Rightarrow> Ret (None, w)
      | Some (_, b) \<Rightarrow>
          let w = w\<lparr>tp_submitted := tp_submitted w @ [(b, sol)]\<rparr> in
          case submitSolution_fn M b (ss_version sol) (ss_header_timestamp sol) (ss_header_nonce sol) (ss_coinbase_tx sol) of
            Abort m \<Rightarrow> Abort m
          | Throw e \<Rightarrow> Ret (Some e, w)
          | Ret submitted \<Rightarrow> Ret (None, w\<lparr>tp_saving := tp_saving w @ [(b, submitted)]\<rparr>))"

text \<open>The functions the connection manager calls; \<^verbatim>\<open>now\<close> is what the clock shows in that state.\<close>

definition tp_events ::
  "'b node \<Rightarrow> net \<Rightarrow> (('b, 'z) template_provider_scheme \<Rightarrow> int) \<Rightarrow> ('b, 'z) template_provider_scheme sv2_events" where
  "tp_events M net now =
     \<lparr>RequestTransactionData_fn = (\<lambda>c tid w. RequestTransactionData M net (now w) c tid w),
      SubmitSolution_fn = SubmitSolution M\<rparr>"

section \<open>Sending work\<close>

definition NewTemplate_msg :: "sv2_new_template \<Rightarrow> sv2_net_msg" where
  "NewTemplate_msg m = \<lparr>m_msg_type = NEW_TEMPLATE, m_msg = Serialize_NewTemplate m\<rparr>"

definition SetNewPrevHash_msg :: "sv2_set_new_prev_hash \<Rightarrow> sv2_net_msg" where
  "SetNewPrevHash_msg m = \<lparr>m_msg_type = SET_NEW_PREV_HASH, m_msg = Serialize_SetNewPrevHash m\<rparr>"

text \<open>
  The messages of a template, or none when it is refused. The result of \<^verbatim>\<open>SendWork\<close> has the exception
  of \<^verbatim>\<open>getTxFees\<close>, which is called when the messages are already queued.
\<close>

definition work_messages :: "'b node \<Rightarrow> bool \<Rightarrow> u64 \<Rightarrow> 'b \<Rightarrow> bool \<Rightarrow> sv2_net_msg list option res" where
  "work_messages M signet template_id b future_template =
     res_bind (getBlockHeader_fn M b) (\<lambda>header.
     res_bind (if signet then getWitnessCommitmentIndex_fn M b else Ret 0) (\<lambda>index.
     if signet \<and> index = NO_WITNESS_COMMITMENT then Ret None
     else
       res_bind (getCoinbaseTx_fn M b) (\<lambda>coinbase_tx.
       res_bind (getCoinbaseMerklePath_fn M b) (\<lambda>path.
       res_bind (Sv2NewTemplateMsg header coinbase_tx path template_id future_template) (\<lambda>new_template.
       Ret (Some (NewTemplate_msg new_template #
         (if future_template then [SetNewPrevHash_msg (Sv2SetNewPrevHashMsg header template_id)] else []))))))))"

definition SendWork ::
  "'b node \<Rightarrow> net \<Rightarrow> bool \<Rightarrow> sv2_client \<Rightarrow> u64 \<Rightarrow> 'b \<Rightarrow> bool \<Rightarrow> 'a connman_scheme \<Rightarrow>
     (exn option \<times> bool \<times> sv2_client \<times> 'a connman_scheme) res" where
  "SendWork M net signet c template_id b future_template w =
     res_bind (work_messages M signet template_id b future_template) (\<lambda>ms.
     case ms of
       None \<Rightarrow> Ret (None, False, c, w)
     | Some ms \<Rightarrow>
         res_bind (TryOptimisticSend net (c\<lparr>cl_send_messages := cl_send_messages c @ ms\<rparr>) w) (\<lambda>(c, w).
         case getTxFees_fn M b of
           Abort m \<Rightarrow> Abort m
         | Throw e \<Rightarrow> Ret (Some e, True, c, w)
         | Ret fees \<Rightarrow> Ret (None, True, c, w)))"

section \<open>The thread of a client\<close>

definition Timer_trigger :: "int \<Rightarrow> int \<Rightarrow> int \<Rightarrow> bool \<times> int" where
  "Timer_trigger interval now last_triggered =
     (if now - last_triggered \<ge> interval then (True, now) else (False, last_triggered))"

text \<open>\<^verbatim>\<open>2000 + m_coinbase_tx_outputs_size * 4\<close> is a 32-bit expression, widened afterwards.\<close>

definition block_reserved_weight :: "sv2_client \<Rightarrow> u64" where
  "block_reserved_weight c = ucast (2000 + cl_coinbase_tx_outputs_size c * 4 :: u32)"

text \<open>
  Where a thread stands in \<^verbatim>\<open>ThreadSv2ClientHandler\<close>, with the local variables that matter there: at
  the head of the loop, with an id for its first template, in \<^verbatim>\<open>createNewBlock\<close>, with a template to
  be cached, with a cached template to be sent, before \<^verbatim>\<open>waitNext\<close>, in it, behind it, with a renewed
  template to be cached, with one to be sent, or at the end.
\<close>

datatype 'b thread_pc =
    Loop
  | Got_id u64
  | Creating u64 u64
  | Created u64
  | Cached u64
  | Check_fees
  | Waiting int
  | Woken "'b option"
  | Renewed bytes
  | Recached bool
  | Done

record 'b client_thread =
  th_last_triggered :: int
  th_template :: "'b option"
  th_prev_hash :: bytes
  th_pc :: "'b thread_pc"

definition new_thread :: "int \<Rightarrow> 'b client_thread" where
  "new_thread now = \<lparr>th_last_triggered = now, th_template = None, th_prev_hash = zeros 32, th_pc = Loop\<rparr>"

text \<open>What a step gets from outside: the clock and the result of \<^verbatim>\<open>createNewBlock\<close> or \<^verbatim>\<open>waitNext\<close>.\<close>

record 'b step_input =
  in_now :: int
  in_template :: "'b option res"

definition set_best_prev_hash :: "int \<Rightarrow> bytes \<Rightarrow> ('b, 'z) template_provider_scheme \<Rightarrow> ('b, 'z) template_provider_scheme" where
  "set_best_prev_hash now hash w = w\<lparr>tp_best_prev_hash := hash, tp_last_block_time := now\<rparr>"

text \<open>Sending under the lock of the clients: the thread ends when the client is gone or an exception is thrown.\<close>

definition thread_send ::
  "'b node \<Rightarrow> net \<Rightarrow> tp_options \<Rightarrow> int \<Rightarrow> sock_id \<Rightarrow> u64 \<Rightarrow> bool \<Rightarrow> 'b thread_pc \<Rightarrow> 'b client_thread \<Rightarrow>
     ('b, 'z) template_provider_scheme \<Rightarrow> ('b client_thread \<times> ('b, 'z) template_provider_scheme) res" where
  "thread_send M net opts now cid template_id future_template continue_at th w =
     (case (GetClientById cid w, th_template th) of
        (Some c, Some b) \<Rightarrow>
          res_bind (SendWork M net (opt_signet opts) c template_id b future_template w) (\<lambda>(e, sent, c, w).
          let w = put_client cid (if e = None \<and> \<not> sent then disconnect c else c) w in
          Ret (if e = None then th\<lparr>th_last_triggered := now, th_pc := continue_at\<rparr> else th\<lparr>th_pc := Done\<rparr>, w))
      | _ \<Rightarrow> Ret (th\<lparr>th_pc := Done\<rparr>, w))"

fun thread_step_body ::
  "'b node \<Rightarrow> net \<Rightarrow> tp_options \<Rightarrow> 'b step_input \<Rightarrow> sock_id \<Rightarrow> 'b thread_pc \<Rightarrow> 'b client_thread \<Rightarrow>
     ('b, 'z) template_provider_scheme \<Rightarrow> ('b client_thread \<times> ('b, 'z) template_provider_scheme) res" where
  "thread_step_body M net opts inp cid Loop th w =
     (if tp_interrupt w then Ret (th\<lparr>th_pc := Done\<rparr>, w)
      else if th_template th = None then
        let template_id = tp_template_id w + 1 in Ret (th\<lparr>th_pc := Got_id template_id\<rparr>, w\<lparr>tp_template_id := template_id\<rparr>)
      else Ret (th\<lparr>th_pc := Check_fees\<rparr>, w))"
| "thread_step_body M net opts inp cid (Got_id template_id) th w =
     (case GetClientById cid w of
        None \<Rightarrow> Ret (th\<lparr>th_pc := Done\<rparr>, w)
      | Some c \<Rightarrow> Ret (th\<lparr>th_pc := Creating template_id (block_reserved_weight c)\<rparr>, w))"
| "thread_step_body M net opts inp cid (Creating template_id weight) th w =
     res_bind (in_template inp) (\<lambda>tmpl.
     case tmpl of
       None \<Rightarrow> Ret (th\<lparr>th_pc := Done\<rparr>, w)
     | Some b \<Rightarrow>
         res_bind (getBlockHeader_fn M b) (\<lambda>header.
         Ret (th\<lparr>th_template := Some b, th_prev_hash := hashPrevBlock header, th_pc := Created template_id\<rparr>, w)))"
| "thread_step_body M net opts inp cid (Created template_id) th w =
     (case th_template th of
        None \<Rightarrow> Ret (th\<lparr>th_pc := Done\<rparr>, w)
      | Some b \<Rightarrow>
          let w = (if th_prev_hash th \<noteq> tp_best_prev_hash w then set_best_prev_hash (in_now inp) (th_prev_hash th) w else w);
              w = w\<lparr>tp_cache := cache_insert template_id (th_prev_hash th, b) (tp_cache w)\<rparr>
          in Ret (th\<lparr>th_pc := Cached template_id\<rparr>, w))"
| "thread_step_body M net opts inp cid (Cached template_id) th w =
     thread_send M net opts (in_now inp) cid template_id True Check_fees th w"
| "thread_step_body M net opts inp cid Check_fees th w =
     (let (triggered, last_triggered) =
        (if opt_is_test opts then (True, th_last_triggered th)
         else Timer_trigger (opt_fee_check_interval opts) (in_now inp) (th_last_triggered th))
      in Ret (th\<lparr>th_last_triggered := last_triggered, th_pc := Waiting (if triggered then opt_fee_delta opts else MAX_MONEY)\<rparr>, w))"
| "thread_step_body M net opts inp cid (Waiting fee_threshold) th w =
     res_bind (in_template inp) (\<lambda>tmpl. Ret (th\<lparr>th_pc := Woken tmpl\<rparr>, w))"
| "thread_step_body M net opts inp cid (Woken tmpl) th w =
     (case GetClientById cid w of
        None \<Rightarrow> Ret (th\<lparr>th_pc := Done\<rparr>, w)
      | Some c \<Rightarrow>
          (case tmpl of
             None \<Rightarrow> Ret (th\<lparr>th_pc := Loop\<rparr>, w)
           | Some b \<Rightarrow>
               res_bind (getBlockHeader_fn M b) (\<lambda>header.
               Ret (th\<lparr>th_template := Some b, th_pc := Renewed (hashPrevBlock header)\<rparr>, w))))"
| "thread_step_body M net opts inp cid (Renewed new_prev_hash) th w =
     (case th_template th of
        None \<Rightarrow> Ret (th\<lparr>th_pc := Done\<rparr>, w)
      | Some b \<Rightarrow>
          let future_template = new_prev_hash \<noteq> th_prev_hash th;
              w = (if future_template then set_best_prev_hash (in_now inp) new_prev_hash w else w);
              template_id = tp_template_id w + 1;
              w = w\<lparr>tp_template_id := template_id, tp_cache := cache_insert template_id (new_prev_hash, b) (tp_cache w)\<rparr>
          in Ret (th\<lparr>th_pc := Recached future_template\<rparr>, w))"
| "thread_step_body M net opts inp cid (Recached future_template) th w =
     thread_send M net opts (in_now inp) cid (tp_template_id w) future_template Loop th w"
| "thread_step_body M net opts inp cid Done th w = Ret (th, w)"

text \<open>An exception ends the thread; up to where it is thrown the step has changed nothing shared.\<close>

definition ThreadSv2ClientHandler_step ::
  "'b node \<Rightarrow> net \<Rightarrow> tp_options \<Rightarrow> 'b step_input \<Rightarrow> sock_id \<Rightarrow> 'b client_thread \<Rightarrow>
     ('b, 'z) template_provider_scheme \<Rightarrow> ('b client_thread \<times> ('b, 'z) template_provider_scheme) res" where
  "ThreadSv2ClientHandler_step M net opts inp cid th w =
     (case thread_step_body M net opts inp cid (th_pc th) th w of
        Throw e \<Rightarrow> Ret (th\<lparr>th_pc := Done\<rparr>, w)
      | r \<Rightarrow> r)"

section \<open>The main thread\<close>

type_synonym 'b threads = "(sock_id \<times> 'b client_thread) list"

definition spawn_thread :: "int \<Rightarrow> sv2_client \<Rightarrow> 'b threads \<Rightarrow> 'b threads" where
  "spawn_thread now c client_threads =
     (if \<not> cl_coinbase_output_constraints_recv c then client_threads
      else if map_of client_threads (cl_id c) \<noteq> None then client_threads
      else client_threads @ [(cl_id c, new_thread now)])"

definition spawn_threads :: "int \<Rightarrow> 'a connman_scheme \<Rightarrow> 'b threads \<Rightarrow> 'b threads" where
  "spawn_threads now w client_threads = ForEachClient (spawn_thread now) w client_threads"

definition Sv2TemplateProvider_Interrupt :: "('b, 'z) template_provider_scheme \<Rightarrow> ('b, 'z) template_provider_scheme" where
  "Sv2TemplateProvider_Interrupt w = Sv2Connman_Interrupt (w\<lparr>tp_interrupt := True\<rparr>)"

text \<open>
  The interleaving. \<^verbatim>\<open>now\<close> and \<^verbatim>\<open>env\<close> may be different in every step. The number counts the steps, and
  for the socket thread also the connections it accepts.
\<close>

inductive tp_reach ::
  "secp256k1 \<Rightarrow> 'b node \<Rightarrow> net \<Rightarrow> tp_options \<Rightarrow> bool \<Rightarrow> nat \<Rightarrow> 'b template_provider \<Rightarrow> 'b threads \<Rightarrow> bool"
  for S :: secp256k1 and M :: "'b node" and net :: net and opts :: tp_options and debug :: bool where
  start: "tp_reach S M net opts debug 0
      (Sv2TemplateProvider S now stored_static new_static stored_authority new_authority garbage) []"
| initialise: "tp_reach S M net opts debug (n + 1) (w\<lparr>tp_last_block_time := now\<rparr>) []"
    if "tp_reach S M net opts debug n w []"
| socket: "tp_reach S M net opts debug (n + 1 + length accepts) w' ths"
    if "tp_reach S M net opts debug n w ths" "\<forall>cid w. draw_ok (env_draw env cid w)"
      "ThreadSocketHandler (connman_events S env net debug (tp_events M net now)) [(es, accepts)] w = Ret w'"
| spawn: "tp_reach S M net opts debug (n + 1) w (spawn_threads now w ths)"
    if "tp_reach S M net opts debug n w ths" "\<not> tp_interrupt w"
| prune: "tp_reach S M net opts debug (n + 1) (PruneBlockTemplateCache now w) ths"
    if "tp_reach S M net opts debug n w ths"
| client: "tp_reach S M net opts debug (n + 1) w' (put_entry cid th' ths)"
    if "tp_reach S M net opts debug n w ths" "map_of ths cid = Some th"
      "ThreadSv2ClientHandler_step M net opts inp cid th w = Ret (th', w')"
| interrupt: "tp_reach S M net opts debug (n + 1) (Sv2TemplateProvider_Interrupt w) ths"
    if "tp_reach S M net opts debug n w ths"

section \<open>What is relied on\<close>

text \<open>
  What the messages need of the node: hashes have 32 bytes, a block and a coinbase transaction are no
  larger than a block may be, there is a coinbase transaction with an input and an output, its
  witness is the reserved value of 32 bytes, and a merkle path has at most 32 steps.
\<close>

definition coinbase_ok :: "cblock \<Rightarrow> bool" where
  "coinbase_ok blk \<longleftrightarrow> (case vtx blk of
       [] \<Rightarrow> False
     | coinbase # _ \<Rightarrow> (case vin coinbase of [] \<Rightarrow> False | i # _ \<Rightarrow> list_all (\<lambda>x. length x = 32) (scriptWitness i)))"

definition node_ok :: "'b node \<Rightarrow> bool" where
  "node_ok M \<longleftrightarrow>
     (\<forall>b h. getBlockHeader_fn M b = Ret h \<longrightarrow> length (hashPrevBlock h) = 32) \<and>
     (\<forall>b blk. getBlock_fn M b = Ret blk \<longrightarrow> length (Serialize_CBlock blk) \<le> 4000000 \<and> coinbase_ok blk) \<and>
     (\<forall>b tx. getCoinbaseTx_fn M b = Ret tx \<longrightarrow> length (SerializeTransaction True tx) \<le> 4000000 \<and> vin tx \<noteq> [] \<and> vout tx \<noteq> []) \<and>
     (\<forall>b p. getCoinbaseMerklePath_fn M b = Ret p \<longrightarrow> length p \<le> 32 \<and> list_all (\<lambda>h. length h = 32) p)"

lemma node_okD:
  assumes "node_ok M"
  shows "getBlockHeader_fn M b = Ret h \<Longrightarrow> length (hashPrevBlock h) = 32"
    and "getBlock_fn M b = Ret blk \<Longrightarrow> length (Serialize_CBlock blk) \<le> 4000000 \<and> coinbase_ok blk"
    and "getCoinbaseTx_fn M b = Ret tx \<Longrightarrow> length (SerializeTransaction True tx) \<le> 4000000 \<and> vin tx \<noteq> [] \<and> vout tx \<noteq> []"
    and "getCoinbaseMerklePath_fn M b = Ret p \<Longrightarrow> length p \<le> 32 \<and> list_all (\<lambda>h. length h = 32) p"
  using assms by (simp_all add: node_ok_def)

section \<open>Sizes of the messages\<close>

lemma length_VectorFormatter:
  "length (VectorFormatter_Ser ser v) = length (WriteCompactSize (of_nat (length v))) + sum_list (map (\<lambda>x. length (ser x)) v)"
  by (simp add: VectorFormatter_Ser_def length_concat comp_def)

lemma length_WriteCompactSize_ge: "1 \<le> length (WriteCompactSize n)"
  by (simp add: length_WriteCompactSize GetSizeOfCompactSize_def)

lemma length_VectorFormatter_ge: "1 \<le> length (VectorFormatter_Ser ser v)"
  unfolding length_VectorFormatter using length_WriteCompactSize_ge by (rule trans_le_add1)

lemma SerializeTransaction_parts:
  shows "10 \<le> length (SerializeTransaction True tx)"
    and "i \<in> set (vin tx) \<Longrightarrow> length (scriptSig i) \<le> length (SerializeTransaction True tx)"
    and "length (concat (map Serialize_CTxOut (vout tx))) \<le> length (SerializeTransaction True tx)"
proof -
  let ?I = "VectorFormatter_Ser Serialize_CTxIn (vin tx)" and ?O = "VectorFormatter_Ser Serialize_CTxOut (vout tx)"
  have t: "8 + length ?I + length ?O \<le> length (SerializeTransaction True tx)"
    by (simp add: SerializeTransaction_def Let_def length_writedata)
  show "10 \<le> length (SerializeTransaction True tx)"
    using t length_VectorFormatter_ge [of Serialize_CTxIn "vin tx"] length_VectorFormatter_ge [of Serialize_CTxOut "vout tx"] by linarith
  show "length (scriptSig i) \<le> length (SerializeTransaction True tx)" if "i \<in> set (vin tx)"
  proof -
    have "length (scriptSig i) \<le> length (Serialize_CTxIn i)" by (simp add: Serialize_CTxIn_def Serialize_bytevec_def)
    also have "\<dots> \<le> sum_list (map (\<lambda>i. length (Serialize_CTxIn i)) (vin tx))" using that by (simp add: member_le_sum_list)
    also have "\<dots> \<le> length ?I" by (simp add: length_VectorFormatter)
    finally show ?thesis using t by linarith
  qed
  have "length (concat (map Serialize_CTxOut (vout tx))) \<le> length ?O" by (simp add: VectorFormatter_Ser_def)
  then show "length (concat (map Serialize_CTxOut (vout tx))) \<le> length (SerializeTransaction True tx)" using t by linarith
qed

lemma sum_list_ge: "\<forall>x \<in> set xs. (k :: nat) \<le> f x \<Longrightarrow> k * length xs \<le> sum_list (map f xs)"
  by (induction xs) auto

lemma transaction_data_small:
  assumes "length (Serialize_CBlock blk) \<le> 4000000" "coinbase_ok blk"
  shows "\<exists>m. transaction_data tid blk = Ret m \<and> length (m_msg m) \<le> MAX_CONTENTS_LEN"
proof -
  obtain cb txs i ins where b: "vtx blk = cb # txs" "vin cb = i # ins" "list_all (\<lambda>x. length x = 32) (scriptWitness i)"
    using assms(2) by (auto simp: coinbase_ok_def split: list.splits)
  let ?f = "\<lambda>tx. length (SerializeTransaction True tx)" and ?x = "case scriptWitness i of [] \<Rightarrow> [] | x # _ \<Rightarrow> x"
  have x: "length ?x \<le> 32" using b(3) by (cases "scriptWitness i") simp_all
  have "sum_list (map ?f (vtx blk)) \<le> 4000000" using assms(1) by (simp add: Serialize_CBlock_def length_VectorFormatter)
  then have s: "sum_list (map ?f txs) \<le> 4000000" using b(1) by simp
  moreover have "10 * length txs \<le> sum_list (map ?f txs)" by (rule sum_list_ge) (simp add: SerializeTransaction_parts)
  moreover have "length (concat (map (\<lambda>tx. B0_16M (SerializeTransaction True tx)) txs)) = 3 * length txs + sum_list (map ?f txs)"
    by (induction txs) (simp_all add: B0_16M_def u24_bytes_def)
  ultimately have "length (m_msg (RequestTransactionDataSuccess_msg tid ?x txs)) \<le> MAX_CONTENTS_LEN"
    using x by (auto simp: RequestTransactionDataSuccess_msg_def Serialize_RequestTransactionDataSuccess_def length_writedata
        B0_64K_def MAX_CONTENTS_LEN_def)
  then show ?thesis using b(1,2) by (simp add: transaction_data_def)
qed

lemma NewTemplate_small:
  assumes "length (SerializeTransaction True tx) \<le> 4000000" "length p \<le> 32" "list_all (\<lambda>h. length h = 32) p"
    and "Sv2NewTemplateMsg header tx p tid future = Ret m"
  shows "length (m_msg (NewTemplate_msg m)) \<le> MAX_CONTENTS_LEN"
proof -
  let ?P = "\<lambda>x. scriptPubKey x \<noteq> [] \<and> scriptPubKey x ! 0 = OP_RETURN"
  obtain i ins where i: "vin tx = i # ins" and m: "nt_coinbase_prefix m = scriptSig i"
    "nt_coinbase_tx_outputs m = filter ?P (vout tx)" "nt_merkle_path m = p"
    using assms(4) by (auto simp: Sv2NewTemplateMsg_def Let_def split: list.splits)
  have 1: "length (scriptSig i) \<le> 4000000" using SerializeTransaction_parts(2) [of i tx] i assms(1) by simp
  have "length (concat (map Serialize_CTxOut (filter ?P xs))) \<le> length (concat (map Serialize_CTxOut xs))" for xs
    by (induction xs) auto
  from this [of "vout tx"] have 2: "length (concat (map Serialize_CTxOut (nt_coinbase_tx_outputs m))) \<le> 4000000"
    unfolding m(2) using SerializeTransaction_parts(3) [of tx] assms(1) by linarith
  have "sum_list (map length p) = 32 * length p" using assms(3) by (induction p) auto
  then have 3: "length (VectorFormatter_Ser id p) \<le> 9 + 32 * 32"
    using length_WriteCompactSize_le [of "of_nat (length p)"] assms(2) by (simp add: length_VectorFormatter)
  let ?o = "if nt_coinbase_tx_outputs_count m > 0 then B0_64K (concat (map Serialize_CTxOut (nt_coinbase_tx_outputs m)))
    else ser_writedata16 0"
  have 4: "length ?o \<le> 4000002" using 2 by (simp add: B0_64K_def length_writedata)
  have 5: "length (Serialize_bytevec (nt_coinbase_prefix m)) \<le> 4000009"
    using 1 length_WriteCompactSize_le [of "of_nat (length (scriptSig i))"] by (simp add: m(1) Serialize_bytevec_def)
  have "length (Serialize_NewTemplate m) = 37 + length (Serialize_bytevec (nt_coinbase_prefix m)) + length ?o + length (VectorFormatter_Ser id p)"
    by (simp add: Serialize_NewTemplate_def length_writedata Serialize_bool_def m(3) del: length_VectorFormatter)
  then show ?thesis using 3 4 5 by (simp add: NewTemplate_msg_def MAX_CONTENTS_LEN_def)
qed

section \<open>The contract with the connection manager\<close>

text \<open>
  The part of the state that the socket thread leaves alone, as a function of the extension of the
  connection manager's record.
\<close>

definition tp_core :: "('b, 'z) template_provider_scheme \<Rightarrow> bool \<times> u64 \<times> bytes \<times> int \<times> (u64 \<times> bytes \<times> 'b) list" where
  "tp_core w = (tp_interrupt w, tp_template_id w, tp_best_prev_hash w, tp_last_block_time w, tp_cache w)"

definition same_core :: "('b, 'z) template_provider_ext \<Rightarrow> ('b, 'z) template_provider_ext \<Rightarrow> bool" where
  "same_core x y \<longleftrightarrow> tp_core (connman.extend toy_connman x) = tp_core (connman.extend toy_connman y)"

lemma same_core_iff: "same_core (connman.more w) (connman.more w') \<longleftrightarrow> tp_core w = tp_core w'"
  for w :: "('b, 'z) template_provider_scheme"
  by (cases w, cases w') (simp add: same_core_def tp_core_def connman.defs)

lemma keeps_same_core: "keeps (=) w w' \<Longrightarrow> keeps same_core w w'"
  by (auto simp: keeps_def same_core_def)

lemma client_step_queue: "client_inv c \<Longrightarrow> length (m_msg m) \<le> MAX_CONTENTS_LEN \<Longrightarrow> client_step c (queue_message m c)"
  using client_inv_queue [of c m] by (simp add: client_step_def)

lemma RequestTransactionDataError_small: "length code < 255 \<Longrightarrow> length (m_msg (RequestTransactionDataError_msg tid code)) \<le> MAX_CONTENTS_LEN"
  using length_WriteCompactSize_le [of "of_nat (length code)"]
  by (simp add: RequestTransactionDataError_msg_def Serialize_RequestTransactionDataError_def Serialize_string_def length_writedata
      MAX_CONTENTS_LEN_def)

lemma RequestTransactionData_keeps:
  assumes "node_ok M" "net_ok net" "client_inv c"
  shows "ensures (\<lambda>(e, c', w'). client_step c c' \<and> keeps same_core w w') (RequestTransactionData M net now c tid w)"
proof -
  have r: "keeps same_core w w" by (simp add: keeps_def same_core_def)
  have q: "client_step c (queue_message (RequestTransactionDataError_msg tid code) c)" if "length code < 255" for code
    using client_step_queue [OF assms(3) RequestTransactionDataError_small [OF that]] .
  have "client_step c c1 \<and> keeps same_core w w1"
    if "getBlock_fn M b = Ret blk" "transaction_data tid blk = Ret m" "TryOptimisticSend net (queue_message m c) w = Ret (c1, w1)"
    for b blk m c1 w1
  proof -
    have "length (m_msg m) \<le> MAX_CONTENTS_LEN"
      using transaction_data_small [of blk tid] node_okD(2) [OF assms(1) that(1)] that(2) by auto
    from client_step_queue [OF assms(3) this] have c: "client_step c (queue_message m c)" .
    then have "client_inv (queue_message m c)" by (simp add: client_step_def)
    note t = TryOptimisticSend_keeps [OF assms(2) this that(3)]
    show ?thesis using client_step_trans [OF c t(1)] keeps_same_core [OF t(3)] by blast
  qed
  then show ?thesis
    unfolding RequestTransactionData_def Let_def
    by (intro ensures_intro) (auto simp: r q client_step_refl assms(3))
qed

lemma SubmitSolution_keeps: "ensures (\<lambda>(e, w'). keeps same_core w w') (SubmitSolution M sol w)"
  unfolding SubmitSolution_def Let_def
  by (intro ensures_intro) (auto simp: keeps_def world_keeps_def same_core_iff tp_core_def)

interpretation tp: sv2_msgproc "tp_events M net now" "node_ok M \<and> net_ok net" same_core for M net now
proof (unfold_locales, goal_cases)
  case (3 c tid w e c' w')
  then show ?case
    using ensuresD [OF RequestTransactionData_keeps [of M net c w "now w" tid]] by (fastforce simp: tp_events_def)
next
  case (4 sol w e w')
  then show ?case using ensuresD [OF SubmitSolution_keeps] by (fastforce simp: tp_events_def)
qed (simp_all add: same_core_def)

end
