(* ===== verification/Sv2_TemplateThreads.thy ===== *)
theory Sv2_TemplateThreads
  imports Sv2_TemplateProvider
begin

text \<open>
  The threads of the template provider together: the invariant of the connection manager and of the
  template ids in every state the interleaving of \<^verbatim>\<open>Sv2_TemplateProvider\<close> reaches, and what follows
  for the templates that clients are sent.
\<close>

section \<open>The connection manager under the interleaving\<close>

lemma connman_inv_fields [simp]:
  "connman_inv T (w\<lparr>tp_interrupt := a\<rparr>) = connman_inv T w"
  "connman_inv T (w\<lparr>tp_template_id := b\<rparr>) = connman_inv T w"
  "connman_inv T (w\<lparr>tp_best_prev_hash := c\<rparr>) = connman_inv T w"
  "connman_inv T (w\<lparr>tp_last_block_time := d\<rparr>) = connman_inv T w"
  "connman_inv T (w\<lparr>tp_cache := e\<rparr>) = connman_inv T w"
  "connman_inv T (w\<lparr>sm_interrupt := a\<rparr>) = connman_inv T w"
  for w :: "('b, 'z) template_provider_scheme"
  by (simp_all add: connman_inv_def)

lemma length_target: "length (ArithToUint256 (fst (SetCompact nbits))) = 32"
  by (rule UintToArith256_ArithToUint256(2)) (simp add: SetCompact_def Let_def)

lemma work_messages_small:
  assumes "node_ok M" "work_messages M signet tid b future = Ret (Some ms)"
  shows "small_messages ms"
proof -
  obtain header tx path m where r: "getBlockHeader_fn M b = Ret header" "getCoinbaseTx_fn M b = Ret tx"
    "getCoinbaseMerklePath_fn M b = Ret path" "Sv2NewTemplateMsg header tx path tid future = Ret m"
    and ms: "ms = NewTemplate_msg m # (if future then [SetNewPrevHash_msg (Sv2SetNewPrevHashMsg header tid)] else [])"
    using assms(2) by (auto simp: work_messages_def res_simps split: if_splits)
  have "length (m_msg (NewTemplate_msg m)) \<le> MAX_CONTENTS_LEN"
    using NewTemplate_small [OF _ _ _ r(4)] node_okD(3) [OF assms(1) r(2)] node_okD(4) [OF assms(1) r(3)] by blast
  moreover have "length (m_msg (SetNewPrevHash_msg (Sv2SetNewPrevHashMsg header tid))) \<le> MAX_CONTENTS_LEN"
    using node_okD(1) [OF assms(1) r(1)]
    by (simp add: SetNewPrevHash_msg_def Serialize_SetNewPrevHash_def Sv2SetNewPrevHashMsg_def length_writedata MAX_CONTENTS_LEN_def
        length_target)
  ultimately show ?thesis by (simp add: ms small_messages_def)
qed

lemma client_step_queue_all: "client_inv c \<Longrightarrow> small_messages ms \<Longrightarrow> client_step c (c\<lparr>cl_send_messages := cl_send_messages c @ ms\<rparr>)"
  by (auto simp: client_step_def client_inv_def small_messages_def)

lemma SendWork_keeps:
  assumes "node_ok M" "net_ok net" "client_inv c" "SendWork M net signet c tid b future w = Ret (e, sent, c', w')"
  shows "client_step c c' \<and> keeps (=) w w'"
proof -
  obtain ms where ms: "work_messages M signet tid b future = Ret ms"
    using assms(4) by (auto simp: SendWork_def res_simps)
  show ?thesis
  proof (cases ms)
    case None
    then show ?thesis using assms(3,4) ms by (auto simp: SendWork_def client_step_refl keeps_def)
  next
    case (Some l)
    obtain c1 w1 where t: "TryOptimisticSend net (c\<lparr>cl_send_messages := cl_send_messages c @ l\<rparr>) w = Ret (c1, w1)" "c' = c1" "w' = w1"
      using assms(4) ms Some by (cases "getTxFees_fn M b") (auto simp: SendWork_def res_simps)
    have c: "client_step c (c\<lparr>cl_send_messages := cl_send_messages c @ l\<rparr>)"
      using client_step_queue_all [OF assms(3)] work_messages_small [OF assms(1)] ms Some by blast
    then have "client_inv (c\<lparr>cl_send_messages := cl_send_messages c @ l\<rparr>)" by (simp add: client_step_def)
    from TryOptimisticSend_keeps [OF assms(2) this t(1)] show ?thesis using client_step_trans [OF c] t(2,3) by blast
  qed
qed

text \<open>A step of a thread that sends: the connection manager keeps its invariant and the rest is as before.\<close>

lemma thread_send_keeps:
  assumes "node_ok M" "net_ok net" "connman_inv T w"
    and "thread_send M net opts now cid tid future pc th w = Ret (th', w')"
  shows "connman_inv T w' \<and> sm_next_id w' = sm_next_id w \<and> tp_core w' = tp_core w \<and>
    (\<exists>t. th' = th\<lparr>th_last_triggered := t, th_pc := pc\<rparr> \<and> th_template th \<noteq> None \<or> th' = th\<lparr>th_pc := Done\<rparr>)"
proof (cases "GetClientById cid w = None \<or> th_template th = None")
  case True
  then have "th' = th\<lparr>th_pc := Done\<rparr>" "w' = w" using assms(4) by (auto simp: thread_send_def split: option.splits)
  then show ?thesis using assms(3) by simp
next
  case False
  then obtain c b where c: "GetClientById cid w = Some c" and b: "th_template th = Some b" by auto
  obtain e sent c1 w1 where s: "SendWork M net (opt_signet opts) c tid b future w = Ret (e, sent, c1, w1)"
    "w' = put_client cid (if e = None \<and> \<not> sent then disconnect c1 else c1) w1"
    "th' = (if e = None then th\<lparr>th_last_triggered := now, th_pc := pc\<rparr> else th\<lparr>th_pc := Done\<rparr>)"
    using assms(4) c b by (auto simp: thread_send_def res_simps Let_def)
  have k: "client_step c c1" "keeps (=) w w1"
    using SendWork_keeps [OF assms(1,2) connman_inv_client(2) [OF assms(3) c] s(1)] by blast+
  have "client_step c (if e = None \<and> \<not> sent then disconnect c1 else c1)" using k(1) client_step_flag by simp
  from connman_inv_put [OF assms(3) c this k(2)] have
    p: "connman_inv T w'" "sm_next_id w' = sm_next_id w" "connman.more w = connman.more w'" unfolding s(2) by blast+
  have "tp_core w' = tp_core w" using same_core_iff [of w w'] p(3) by (simp add: same_core_def)
  then show ?thesis using p(1,2) s(3) b by auto
qed

lemma handler_step_cases:
  assumes "ThreadSv2ClientHandler_step M net opts inp cid th w = Ret (th', w')"
  obtains "thread_step_body M net opts inp cid (th_pc th) th w = Ret (th', w')" | "th' = th\<lparr>th_pc := Done\<rparr>" "w' = w"
  using assms by (auto simp: ThreadSv2ClientHandler_step_def split: res.splits)

lemma thread_step_connman:
  assumes "node_ok M" "net_ok net" "connman_inv T w" "ThreadSv2ClientHandler_step M net opts inp cid th w = Ret (th', w')"
  shows "connman_inv T w' \<and> sm_next_id w' = sm_next_id w"
proof (rule handler_step_cases [OF assms(4)])
  assume b: "thread_step_body M net opts inp cid (th_pc th) th w = Ret (th', w')"
  show ?thesis
  proof (cases "th_pc th")
    case (Cached k)
    then show ?thesis using b thread_send_keeps [OF assms(1-3), of opts "in_now inp" cid k True Check_fees th th' w'] by simp
  next
    case (Recached f)
    then show ?thesis using b thread_send_keeps [OF assms(1-3), of opts "in_now inp" cid "tp_template_id w" f Loop th th' w'] by simp
  qed (use b assms(3) in \<open>auto simp: res_simps set_best_prev_hash_def Let_def split: if_splits option.splits prod.splits\<close>)
qed (use assms(3) in simp)

section \<open>Template ids\<close>

text \<open>
  The id a thread holds for its first template, from the moment it is drawn until the template has
  been sent. No two threads hold the same id, an id is not in the cache before its holder puts it
  there, and what is in the cache under it is the holder's template.
\<close>

fun own_id :: "'b thread_pc \<Rightarrow> u64 option" where
  "own_id (Got_id k) = Some k"
| "own_id (Creating k _) = Some k"
| "own_id (Created k) = Some k"
| "own_id (Cached k) = Some k"
| "own_id _ = None"

definition prev_of :: "'b node \<Rightarrow> 'b \<Rightarrow> bytes \<Rightarrow> bool" where
  "prev_of M b hash \<longleftrightarrow> (\<exists>header. getBlockHeader_fn M b = Ret header \<and> hashPrevBlock header = hash)"

fun thread_ok :: "'b node \<Rightarrow> u64 \<Rightarrow> (u64 \<times> bytes \<times> 'b) list \<Rightarrow> 'b thread_pc \<Rightarrow> 'b option \<Rightarrow> bytes \<Rightarrow> bool" where
  "thread_ok M tid cache (Got_id k) b prev \<longleftrightarrow> b = None \<and> k \<le> tid \<and> map_of cache k = None"
| "thread_ok M tid cache (Creating k _) b prev \<longleftrightarrow> b = None \<and> k \<le> tid \<and> map_of cache k = None"
| "thread_ok M tid cache (Created k) b prev \<longleftrightarrow> k \<le> tid \<and> map_of cache k = None \<and> (\<exists>x. b = Some x \<and> prev_of M x prev)"
| "thread_ok M tid cache (Cached k) b prev \<longleftrightarrow> k \<le> tid \<and>
     (\<exists>x. b = Some x \<and> prev_of M x prev \<and> (map_of cache k = None \<or> map_of cache k = Some (prev, x)))"
| "thread_ok M tid cache (Renewed hash) b prev \<longleftrightarrow> (\<exists>x. b = Some x \<and> prev_of M x hash)"
| "thread_ok M tid cache Loop b prev \<longleftrightarrow> True"
| "thread_ok M tid cache Done b prev \<longleftrightarrow> True"
| "thread_ok M tid cache _ b prev \<longleftrightarrow> b \<noteq> None"

abbreviation holds_ok :: "'b node \<Rightarrow> u64 \<Rightarrow> (u64 \<times> bytes \<times> 'b) list \<Rightarrow> 'b client_thread \<Rightarrow> bool" where
  "holds_ok M tid cache th \<equiv> thread_ok M tid cache (th_pc th) (th_template th) (th_prev_hash th)"

definition owns :: "'b threads \<Rightarrow> sock_id \<Rightarrow> u64 \<Rightarrow> bool" where
  "owns ths i k \<longleftrightarrow> (case map_of ths i of None \<Rightarrow> False | Some th \<Rightarrow> own_id (th_pc th) = Some k)"

definition cache_ok :: "'b node \<Rightarrow> u64 \<Rightarrow> (u64 \<times> bytes \<times> 'b) list \<Rightarrow> bool" where
  "cache_ok M tid cache \<longleftrightarrow> distinct (map fst cache) \<and> list_all (\<lambda>(k, hash, b). k \<le> tid \<and> prev_of M b hash) cache"

definition ids_inv :: "'b node \<Rightarrow> u64 \<Rightarrow> (u64 \<times> bytes \<times> 'b) list \<Rightarrow> 'b threads \<Rightarrow> bool" where
  "ids_inv M tid cache ths \<longleftrightarrow> cache_ok M tid cache \<and>
     (\<forall>i th. map_of ths i = Some th \<longrightarrow> holds_ok M tid cache th) \<and>
     (\<forall>i j k. owns ths i k \<longrightarrow> owns ths j k \<longrightarrow> i = j)"

lemma thread_ok_own: "thread_ok M tid cache pc b prev \<Longrightarrow> own_id pc = Some k \<Longrightarrow> k \<le> tid"
  by (cases pc) auto

lemma thread_ok_mono:
  "thread_ok M tid cache pc b prev \<Longrightarrow> tid \<le> tid' \<Longrightarrow>
   (\<And>k. own_id pc = Some k \<Longrightarrow> map_of cache' k = map_of cache k \<or> map_of cache' k = None) \<Longrightarrow>
   thread_ok M tid' cache' pc b prev"
  by (cases pc) auto

lemma owns_put: "map_of ths cid = Some th \<Longrightarrow>
    owns (put_entry cid th' ths) i k = (if i = cid then own_id (th_pc th') = Some k else owns ths i k)"
  by (auto simp: owns_def)

lemma cache_insert_of: "map_of (cache_insert k v m) j = (if j = k \<and> map_of m k = None then Some v else map_of m j)"
  by (auto simp: cache_insert_def map_add_def split: option.splits)

lemma cache_insert_ok:
  assumes "cache_ok M tid cache" "tid \<le> tid'" "k \<le> tid'" "prev_of M b hash"
  shows "cache_ok M tid' (cache_insert k (hash, b) cache)"
proof -
  have "list_all (\<lambda>(k, hash, b). k \<le> tid' \<and> prev_of M b hash) cache"
    using assms(1,2) by (auto simp: cache_ok_def list_all_iff)
  then show ?thesis
    using assms by (auto simp: cache_ok_def cache_insert_def map_of_eq_None_iff)
qed

text \<open>A step of one thread, seen from the ids: the others are not affected.\<close>

lemma ids_inv_put:
  assumes "ids_inv M tid cache ths" "map_of ths cid = Some th" "tid \<le> tid'" "cache_ok M tid' cache'"
    and "holds_ok M tid' cache' th'"
    and "\<And>k. own_id (th_pc th') = Some k \<Longrightarrow> own_id (th_pc th) = Some k \<or> tid < k"
    and "\<And>k. map_of cache' k = map_of cache k \<or> map_of cache' k = None \<or> own_id (th_pc th) = Some k \<or> tid < k"
  shows "ids_inv M tid' cache' (put_entry cid th' ths)"
proof -
  have ok: "map_of ths i = Some t \<Longrightarrow> holds_ok M tid cache t" for i t using assms(1) by (simp add: ids_inv_def)
  have own: "owns ths i k \<Longrightarrow> owns ths j k \<Longrightarrow> i = j" for i j k using assms(1) unfolding ids_inv_def by blast
  have le: "k \<le> tid" if "owns ths i k" for i k
    using that thread_ok_own [OF ok] by (auto simp: owns_def split: option.splits)
  have c: "owns ths cid k" if "own_id (th_pc th) = Some k" for k using that assms(2) by (simp add: owns_def)
  have "holds_ok M tid' cache' t" if "map_of (put_entry cid th' ths) i = Some t" for i t
  proof (cases "i = cid")
    case False
    then have m: "map_of ths i = Some t" using that by simp
    show ?thesis
    proof (rule thread_ok_mono [OF ok [OF m] assms(3)])
      fix k
      assume "own_id (th_pc t) = Some k"
      then have o: "owns ths i k" using m by (simp add: owns_def)
      have "own_id (th_pc th) \<noteq> Some k" using own [OF o c] False by blast
      moreover have "\<not> tid < k" using le [OF o] by simp
      ultimately show "map_of cache' k = map_of cache k \<or> map_of cache' k = None" using assms(7) [of k] by simp
    qed
  next
    case True
    then have "t = th'" using that assms(2) by simp
    then show ?thesis using assms(5) by simp
  qed
  moreover have "i = j" if "owns (put_entry cid th' ths) i k" "owns (put_entry cid th' ths) j k" for i j k
  proof -
    have new: "x = cid" if "own_id (th_pc th') = Some k" "owns ths x k" for x
    proof -
      have "\<not> tid < k" using le [OF that(2)] by simp
      then show ?thesis using assms(6) [OF that(1)] own [OF that(2) c] by blast
    qed
    have o: "own_id (th_pc th') = Some k" if "owns (put_entry cid th' ths) cid k" using that owns_put [OF assms(2)] by simp
    have o': "owns ths x k" if "owns (put_entry cid th' ths) x k" "x \<noteq> cid" for x using that owns_put [OF assms(2)] by simp
    show ?thesis
    proof (cases "i = cid \<or> j = cid")
      case True
      then show ?thesis using that new o o' by blast
    next
      case False
      then show ?thesis using own [OF o' o'] that by blast
    qed
  qed
  ultimately show ?thesis using assms(4) by (simp add: ids_inv_def)
qed

lemma ids_inv_local:
  assumes "ids_inv M tid cache ths" "map_of ths cid = Some th" "holds_ok M tid cache th'"
    and "own_id (th_pc th') = None \<or> own_id (th_pc th') = own_id (th_pc th)"
  shows "ids_inv M tid cache (put_entry cid th' ths)"
  by (rule ids_inv_put [OF assms(1,2) order_refl _ assms(3)]) (use assms(1,4) in \<open>auto simp: ids_inv_def\<close>)

lemma tp_core_fields:
  "tp_core w' = tp_core w \<Longrightarrow> tp_template_id w' = tp_template_id w" "tp_core w' = tp_core w \<Longrightarrow> tp_cache w' = tp_cache w"
  by (simp_all add: tp_core_def)

lemma thread_send_ids:
  assumes "node_ok M" "net_ok net" "connman_inv T w" "ids_inv M (tp_template_id w) (tp_cache w) ths" "map_of ths cid = Some th"
    and "thread_send M net opts now cid tid future pc th w = Ret (th', w')" "pc = Loop \<or> pc = Check_fees"
  shows "ids_inv M (tp_template_id w') (tp_cache w') (put_entry cid th' ths) \<and> tp_template_id w' = tp_template_id w"
proof -
  note k = thread_send_keeps [OF assms(1-3,6)]
  have "holds_ok M (tp_template_id w) (tp_cache w) th'" "own_id (th_pc th') = None" using k assms(7) by auto
  with ids_inv_local [OF assms(4,5)] show ?thesis using k tp_core_fields [of w' w] by simp
qed

lemma thread_loop_cases:
  assumes b: "thread_step_body M net opts inp cid Loop th w = Ret (th', w')"
  obtains (stop) "th' = th\<lparr>th_pc := Done\<rparr>" "w' = w"
  | (draw) "th' = th\<lparr>th_pc := Got_id (tp_template_id w + 1)\<rparr>" "th_template th = None" "w' = w\<lparr>tp_template_id := tp_template_id w + 1\<rparr>"
  | (wait) "th' = th\<lparr>th_pc := Check_fees\<rparr>" "th_template th \<noteq> None" "w' = w"
proof -
  have "Ret (th', w') = (if tp_interrupt w then Ret (th\<lparr>th_pc := Done\<rparr>, w) else if th_template th = None then
    Ret (th\<lparr>th_pc := Got_id (tp_template_id w + 1)\<rparr>, w\<lparr>tp_template_id := tp_template_id w + 1\<rparr>)
    else Ret (th\<lparr>th_pc := Check_fees\<rparr>, w))" unfolding b [symmetric] thread_step_body.simps Let_def ..
  then show thesis using that by (metis prod.inject res.inject(1))
qed

lemma thread_step_ids:
  assumes "node_ok M" "net_ok net" "connman_inv T w" "ids_inv M (tp_template_id w) (tp_cache w) ths" "map_of ths cid = Some th"
    and "ThreadSv2ClientHandler_step M net opts inp cid th w = Ret (th', w')" "unat (tp_template_id w) < 2 ^ 64 - 1"
  shows "ids_inv M (tp_template_id w') (tp_cache w') (put_entry cid th' ths) \<and> unat (tp_template_id w') \<le> unat (tp_template_id w) + 1"
proof -
  let ?k = "tp_template_id w" and ?C = "tp_cache w"
  have ok: "holds_ok M ?k ?C th" and cok: "cache_ok M ?k ?C" using assms(4,5) by (simp_all add: ids_inv_def)
  have new: "?k < ?k + 1" "unat (?k + 1) = unat ?k + 1" using assms(7) by (simp_all add: word_less_nat_alt unat_word_ariths)
  have fresh: "map_of ?C (?k + 1) = None"
  proof (rule ccontr)
    assume "map_of ?C (?k + 1) \<noteq> None"
    then obtain v where "(?k + 1, v) \<in> set ?C" using map_of_SomeD by fastforce
    then show False using cok new(1) by (force simp: cache_ok_def list_all_iff)
  qed
  note loc = ids_inv_local [OF assms(4,5)]
  show ?thesis
  proof (rule handler_step_cases [OF assms(6)])
    assume "th' = th\<lparr>th_pc := Done\<rparr>" "w' = w"
    then show ?thesis using loc [of th'] by simp
  next
    assume b: "thread_step_body M net opts inp cid (th_pc th) th w = Ret (th', w')"
    show ?thesis
    proof (cases "th_pc th")
      case Loop
      show ?thesis
      proof (rule thread_loop_cases [OF b [unfolded Loop]])
        assume d: "th' = th\<lparr>th_pc := Got_id (?k + 1)\<rparr>" "th_template th = None" "w' = w\<lparr>tp_template_id := ?k + 1\<rparr>"
        have c: "cache_ok M (?k + 1) ?C" using cok new(1) by (auto simp: cache_ok_def list_all_iff)
        have h: "holds_ok M (?k + 1) ?C th'" using d(2) fresh unfolding d(1) by simp
        have "ids_inv M (?k + 1) ?C (put_entry cid th' ths)"
          by (rule ids_inv_put [OF assms(4,5) order.strict_implies_order [OF new(1)] c h]) (simp_all add: d(1) new(1))
        then show ?thesis using d(3) new(2) by simp
      next
        assume "th' = th\<lparr>th_pc := Done\<rparr>" "w' = w"
        then show ?thesis using loc [of th'] by simp
      next
        assume "th' = th\<lparr>th_pc := Check_fees\<rparr>" "th_template th \<noteq> None" "w' = w"
        then show ?thesis using loc [of th'] by simp
      qed
    next
      case (Created x)
      then obtain t where t: "th_template th = Some t" "x \<le> ?k" "map_of ?C x = None" "prev_of M t (th_prev_hash th)" using ok by auto
      let ?D = "cache_insert x (th_prev_hash th, t) ?C"
      have r: "th' = th\<lparr>th_pc := Cached x\<rparr>" "tp_template_id w' = ?k" "tp_cache w' = ?D"
        using b Created t(1) by (auto simp: Let_def set_best_prev_hash_def)
      have "ids_inv M ?k ?D (put_entry cid th' ths)"
        by (intro ids_inv_put [OF assms(4,5)] cache_insert_ok [OF cok])
          (use t r(1) Created in \<open>auto simp: cache_insert_of\<close>)
      then show ?thesis using r by simp
    next
      case (Renewed h)
      then obtain t where t: "th_template th = Some t" "prev_of M t h" using ok by auto
      let ?D = "cache_insert (?k + 1) (h, t) ?C"
      have r: "\<exists>f. th' = th\<lparr>th_pc := Recached f\<rparr>" "tp_template_id w' = ?k + 1" "tp_cache w' = ?D"
        using b Renewed t(1) by (auto simp: Let_def set_best_prev_hash_def)
      have "ids_inv M (?k + 1) ?D (put_entry cid th' ths)"
        by (intro ids_inv_put [OF assms(4,5)] cache_insert_ok [OF cok])
          (use t r(1) Renewed new(1) in \<open>auto simp: cache_insert_of\<close>)
      then show ?thesis using r new(2) by simp
    next
      case (Cached x)
      then show ?thesis using thread_send_ids [OF assms(1-5), of opts "in_now inp" x True Check_fees th' w'] b by auto
    next
      case (Recached f)
      then show ?thesis using thread_send_ids [OF assms(1-5), of opts "in_now inp" "tp_template_id w" f Loop th' w'] b by auto
    qed (use b ok loc [of th'] in \<open>auto simp: res_simps prev_of_def Let_def split: option.splits prod.splits\<close>)
  qed
qed

section \<open>The other steps\<close>

lemma ids_inv_cache:
  assumes "ids_inv M tid cache ths" "cache_ok M tid cache'" "\<And>k. map_of cache' k = map_of cache k \<or> map_of cache' k = None"
  shows "ids_inv M tid cache' ths"
proof -
  have "holds_ok M tid cache' th" if "map_of ths i = Some th" for i th
  proof -
    have "holds_ok M tid cache th" using assms(1) that unfolding ids_inv_def by blast
    then show ?thesis by (rule thread_ok_mono [OF _ order_refl assms(3)])
  qed
  then show ?thesis using assms(1,2) by (simp add: ids_inv_def)
qed

lemma map_of_filter: "distinct (map fst xs) \<Longrightarrow> map_of (filter P xs) k = map_of xs k \<or> map_of (filter P xs) k = None"
proof (cases "map_of (filter P xs) k")
  case (Some v)
  assume "distinct (map fst xs)"
  moreover have "(k, v) \<in> set xs" using map_of_SomeD [OF Some] by simp
  ultimately show ?thesis using Some map_of_is_SomeI by metis
qed simp

lemma PruneBlockTemplateCache_ids:
  assumes "ids_inv M (tp_template_id w) (tp_cache w) ths"
  shows "ids_inv M (tp_template_id w) (tp_cache (PruneBlockTemplateCache now w)) ths"
proof (cases "tp_last_block_time w > now - STALE_TEMPLATE_GRACE_PERIOD")
  case False
  have c: "cache_ok M (tp_template_id w) (tp_cache w)" using assms by (simp add: ids_inv_def)
  show ?thesis
    using False c map_of_filter
    by (intro ids_inv_cache [OF assms]) (auto simp: PruneBlockTemplateCache_def cache_ok_def list_all_iff distinct_map_filter)
qed (use assms in \<open>simp add: PruneBlockTemplateCache_def\<close>)

lemma PruneBlockTemplateCache_rest:
  "connman_inv T (PruneBlockTemplateCache now w) = connman_inv T w"
  "sm_next_id (PruneBlockTemplateCache now w) = sm_next_id w" "tp_template_id (PruneBlockTemplateCache now w) = tp_template_id w"
  by (simp_all add: PruneBlockTemplateCache_def Let_def)

text \<open>New threads: for clients in the table that are not flagged and have sent their constraints.\<close>

definition served :: "sv2_client \<Rightarrow> bool" where
  "served c \<longleftrightarrow> IsFullyConnected c \<and> cl_coinbase_output_constraints_recv c"

definition thread_added :: "int \<Rightarrow> bool \<Rightarrow> 'b client_thread option \<Rightarrow> 'b client_thread option" where
  "thread_added now P t = (case t of Some th \<Rightarrow> Some th | None \<Rightarrow> if P then Some (new_thread now) else None)"

lemma thread_added_simps [simp]:
  "thread_added now P (Some th) = Some th" "thread_added now False t = t"
  "thread_added now Q (thread_added now P t) = thread_added now (P \<or> Q) t"
  by (simp_all add: thread_added_def split: option.splits)

lemma map_of_snoc: "map_of (xs @ [(k, v)]) i = (case map_of xs i of Some x \<Rightarrow> Some x | None \<Rightarrow> if k = i then Some v else None)"
  by (simp add: map_add_def split: option.splits)

lemma spawn_thread_of:
  "map_of (if IsFullyConnected c then spawn_thread now c ths else ths) i = thread_added now (served c \<and> cl_id c = i) (map_of ths i)"
proof (cases "served c")
  case False
  then have "(if IsFullyConnected c then spawn_thread now c ths else ths) = ths" by (auto simp: served_def spawn_thread_def)
  then show ?thesis using False by simp
next
  case True
  then have s: "(if IsFullyConnected c then spawn_thread now c ths else ths) =
      (if map_of ths (cl_id c) \<noteq> None then ths else ths @ [(cl_id c, new_thread now)])"
    unfolding served_def spawn_thread_def by presburger
  show ?thesis
  proof (cases "map_of ths (cl_id c)")
    case None
    have "map_of (ths @ [(cl_id c, new_thread now)]) i = thread_added now (cl_id c = i) (map_of ths i)"
      unfolding map_of_snoc thread_added_def ..
    then show ?thesis using True None unfolding s by simp
  next
    case (Some t)
    then have "thread_added now (cl_id c = i) (map_of ths i) = map_of ths i" by (cases "cl_id c = i") auto
    then show ?thesis using True Some unfolding s by simp
  qed
qed

lemma spawn_threads_of:
  "map_of (spawn_threads now w ths) i =
     thread_added now (list_ex (\<lambda>(j, c). served c \<and> cl_id c = i) (cm_clients w)) (map_of ths i)"
proof -
  have "map_of (fold (\<lambda>(j, c) s. if IsFullyConnected c then spawn_thread now c s else s) cs ths) i =
    thread_added now (list_ex (\<lambda>(j, c). served c \<and> cl_id c = i) cs) (map_of ths i)" for cs
  proof (induction cs arbitrary: ths)
    case (Cons x cs)
    show ?case unfolding fold_Cons comp_def Cons.IH by (cases x) (simp add: spawn_thread_of)
  qed simp
  then show ?thesis by (simp add: spawn_threads_def ForEachClient_def)
qed

lemma spawn_threads_ids:
  assumes "ids_inv M tid cache ths"
  shows "ids_inv M tid cache (spawn_threads now w ths)"
proof -
  have m: "map_of (spawn_threads now w ths) i = Some th \<Longrightarrow> map_of ths i = Some th \<or> th = new_thread now" for i th
    by (auto simp: spawn_threads_of thread_added_def split: option.splits if_splits)
  then have "holds_ok M tid cache th" if "map_of (spawn_threads now w ths) i = Some th" for i th
    using that assms by (fastforce simp: ids_inv_def new_thread_def)
  moreover have "owns (spawn_threads now w ths) i k = owns ths i k" for i k
    by (auto simp: owns_def spawn_threads_of thread_added_def new_thread_def split: option.splits)
  ultimately show ?thesis using assms by (simp add: ids_inv_def)
qed

lemma connman_inv_listed: "connman_inv T w \<Longrightarrow> x \<in> set (cm_clients w) \<Longrightarrow> listed T (sm_next_id w) x"
  unfolding connman_inv_def list_all_iff by blast

lemma connman_inv_threads:
  assumes "connman_inv T w" "\<And>i. i \<in> T' \<Longrightarrow> i \<in> T \<or> (\<exists>c. (i, c) \<in> set (cm_clients w) \<and> served c)"
  shows "connman_inv T' w"
proof -
  note l = connman_inv_listed [OF assms(1)]
  have d: "distinct (map fst (cm_clients w))" using assms(1) by (simp add: connman_inv_def)
  have "listed T' (sm_next_id w) (i, c)" if m: "(i, c) \<in> set (cm_clients w)" for i c
  proof -
    have "cl_coinbase_tx_outputs_size c \<le> MAX_BLOCK_WEIGHT" if t: "i \<in> T'"
    proof (cases "i \<in> T")
      case False
      then obtain c' where c': "(i, c') \<in> set (cm_clients w)" "served c'" using assms(2) [OF t] by blast
      have "c' = c" using d c'(1) m eq_key_imp_eq_value by metis
      then show ?thesis using c'(2) l [OF m] by (simp add: served_def IsFullyConnected_def client_inv_def)
    qed (use l [OF m] in simp)
    then show ?thesis using l [OF m] by simp
  qed
  then have "list_all (listed T' (sm_next_id w)) (cm_clients w)" by (auto simp: list_all_iff)
  moreover have "T' \<subseteq> {i. i < sm_next_id w}"
  proof
    fix i
    assume "i \<in> T'"
    then consider "i \<in> T" | c where "(i, c) \<in> set (cm_clients w)" using assms(2) by blast
    then show "i \<in> {i. i < sm_next_id w}"
    proof cases
      case 1
      then show ?thesis using assms(1) by (auto simp: connman_inv_def)
    next
      case 2
      then show ?thesis using l by fastforce
    qed
  qed
  ultimately show ?thesis using assms(1) by (simp add: connman_inv_def)
qed

lemma spawn_threads_connman:
  assumes "connman_inv (fst ` set ths) w"
  shows "connman_inv (fst ` set (spawn_threads now w ths)) w"
proof (rule connman_inv_threads [OF assms])
  fix i
  assume "i \<in> fst ` set (spawn_threads now w ths)"
  then obtain th where "map_of (spawn_threads now w ths) i = Some th" by (metis map_of_eq_None_iff not_None_eq)
  then consider "map_of ths i = Some th" | j c where "(j, c) \<in> set (cm_clients w)" "served c" "cl_id c = i"
    by (auto simp: spawn_threads_of thread_added_def list_ex_iff split: option.splits if_splits)
  then show "i \<in> fst ` set ths \<or> (\<exists>c. (i, c) \<in> set (cm_clients w) \<and> served c)"
  proof cases
    case 1
    then show ?thesis by (metis map_of_eq_None_iff option.distinct(1))
  next
    case 2
    then show ?thesis using connman_inv_listed [OF assms 2(1)] by auto
  qed
qed

section \<open>Every reachable state\<close>

definition tp_inv :: "'b node \<Rightarrow> 'b template_provider \<Rightarrow> 'b threads \<Rightarrow> bool" where
  "tp_inv M w ths \<longleftrightarrow> connman_inv (fst ` set ths) w \<and> ids_inv M (tp_template_id w) (tp_cache w) ths"

lemma start_connman:
  assumes "secp_ok S"
  shows "connman_inv {} (Sv2TemplateProvider S now ss ns sa na garbage)"
  using issued_sig_length [OF assms]
  by (simp add: Sv2TemplateProvider_def connman_inv_def Sv2Connman_def connman.defs template_provider.defs tp_certificate_def Let_def)

lemma start_fields:
  "sm_next_id (Sv2TemplateProvider S now ss ns sa na garbage) = 0" "tp_template_id (Sv2TemplateProvider S now ss ns sa na garbage) = 0"
  "tp_cache (Sv2TemplateProvider S now ss ns sa na garbage) = []"
  by (simp_all add: Sv2TemplateProvider_def Sv2Connman_def connman.defs template_provider.defs Let_def)

lemma socket_step_inv:
  assumes "surroundings_ok S env net" "node_ok M" "connman_inv T w" "unat (sm_next_id w) + length accepts < 2 ^ 63"
    and "ThreadSocketHandler (connman_events S env net debug (tp_events M net now)) [(es, accepts)] w = Ret w'"
  shows "connman_inv T w' \<and> tp_core w' = tp_core w \<and> unat (sm_next_id w') \<le> unat (sm_next_id w) + length accepts"
proof -
  have "net_ok net" using assms(1) by (simp add: surroundings_ok_def)
  then have "(node_ok M \<and> net_ok net) \<and> surroundings_ok S env net \<and> connman_inv T w \<and> same_core (connman.more w) (connman.more w)"
    using assms(1-3) by (simp add: same_core_def)
  from tp.loop.ThreadSocketHandler_inv [OF this _ assms(5)] assms(4) show ?thesis by (simp add: same_core_iff)
qed

lemma tp_reach_inv:
  assumes "secp_ok S" "net_ok net" "node_ok M" "tp_reach S M net opts debug n w ths" "n < 2 ^ 63"
  shows "tp_inv M w ths \<and> unat (sm_next_id w) \<le> n \<and> unat (tp_template_id w) \<le> n"
  using assms(4,5)
proof (induction rule: tp_reach.induct)
  case (start now ss ns sa na garbage)
  then show ?case using start_connman [OF assms(1)] by (simp add: tp_inv_def start_fields ids_inv_def cache_ok_def owns_def)
next
  case (initialise n w now)
  then show ?case by (simp add: tp_inv_def)
next
  case (socket n w ths env now es accepts w')
  then have i: "tp_inv M w ths" "unat (sm_next_id w) \<le> n" "unat (tp_template_id w) \<le> n" by simp_all
  have "surroundings_ok S env net" using assms(1,2) socket.hyps(2) by (simp add: surroundings_ok_def)
  moreover have "unat (sm_next_id w) + length accepts < 2 ^ 63" using i(2) socket.prems by simp
  ultimately have "connman_inv (fst ` set ths) w' \<and> tp_core w' = tp_core w \<and> unat (sm_next_id w') \<le> unat (sm_next_id w) + length accepts"
    using socket_step_inv [OF _ assms(3) _ _ socket.hyps(3), of "fst ` set ths"] i(1) by (simp add: tp_inv_def)
  then show ?case using i by (simp add: tp_inv_def tp_core_def)
next
  case (spawn n w ths now)
  then show ?case using spawn_threads_connman [of ths w now] spawn_threads_ids [of M _ _ ths now w] by (simp add: tp_inv_def)
next
  case (prune n w ths now)
  then show ?case using PruneBlockTemplateCache_ids [of M w ths now] by (simp add: tp_inv_def PruneBlockTemplateCache_rest)
next
  case (client n w ths cid th inp th' w')
  then have i: "connman_inv (fst ` set ths) w" "ids_inv M (tp_template_id w) (tp_cache w) ths" "unat (sm_next_id w) \<le> n"
    "unat (tp_template_id w) \<le> n" by (simp_all add: tp_inv_def)
  have "unat (tp_template_id w) < 2 ^ 64 - 1" using i(4) client.prems by simp
  from thread_step_ids [OF assms(3,2) i(1,2) client.hyps(2,3) this] thread_step_connman [OF assms(3,2) i(1) client.hyps(3)] i(3,4)
  show ?case by (simp add: tp_inv_def)
next
  case (interrupt n w ths)
  then show ?case by (simp add: tp_inv_def Sv2TemplateProvider_Interrupt_def Sv2Connman_Interrupt_def)
qed

lemma thread_send_prev_hash:
  "thread_send M net opts now cid tid future pc th w = Ret (th', w') \<Longrightarrow> th_prev_hash th' = th_prev_hash th"
  by (auto simp: thread_send_def res_simps Let_def split: option.splits if_splits)

section \<open>Properties\<close>

text \<open>
  C4. However the socket thread, the main thread and the threads of the clients interleave, for up to
  \<^verbatim>\<open>2 ^ 63\<close> steps and connections: the tables of the connection manager stay consistent, every client
  keeps its invariant, no two threads hold the same template id, an id is not in the cache before
  its thread puts it there, what is cached under a thread's id is that thread's template, and the
  hash next to every cached template is the one in its header.
\<close>

theorem tp_invariant:
  assumes "secp_ok S" "net_ok net" "node_ok M" "tp_reach S M net opts debug n w ths" "n < 2 ^ 63"
  shows "tp_inv M w ths"
  using tp_reach_inv [OF assms] by blast


text \<open>
  C34. A renewed template is compared with the hash of the thread's first template, not with the
  current tip: no step after the first template changes the remembered hash, so once the tip has
  moved every later template is announced as a future one and restarts the grace period, also when
  only the fees changed; and a template that goes back to the first tip is announced as no change.
\<close>

theorem renewed_compares_first_hash:
  assumes "ThreadSv2ClientHandler_step M net opts inp cid th w = Ret (th', w')" "\<And>k x. th_pc th \<noteq> Creating k x"
  shows "th_prev_hash th' = th_prev_hash th \<and>
    (\<forall>hash b. th_pc th = Renewed hash \<and> th_template th = Some b \<longrightarrow>
      th_pc th' = Recached (hash \<noteq> th_prev_hash th) \<and>
      tp_last_block_time w' = (if hash \<noteq> th_prev_hash th then in_now inp else tp_last_block_time w) \<and>
      tp_best_prev_hash w' = (if hash \<noteq> th_prev_hash th then hash else tp_best_prev_hash w))"
proof
  show "th_prev_hash th' = th_prev_hash th"
  proof (rule handler_step_cases [OF assms(1)])
    assume b: "thread_step_body M net opts inp cid (th_pc th) th w = Ret (th', w')"
    show ?thesis
    proof (cases "th_pc th")
      case Loop
      show ?thesis by (rule thread_loop_cases [OF b [unfolded Loop]]) simp_all
    next
      case (Creating k x)
      then show ?thesis using assms(2) by simp
    qed (use b thread_send_prev_hash in \<open>auto simp: res_simps Let_def split: option.splits prod.splits\<close>)
  qed simp
  show "\<forall>hash b. th_pc th = Renewed hash \<and> th_template th = Some b \<longrightarrow>
      th_pc th' = Recached (hash \<noteq> th_prev_hash th) \<and>
      tp_last_block_time w' = (if hash \<noteq> th_prev_hash th then in_now inp else tp_last_block_time w) \<and>
      tp_best_prev_hash w' = (if hash \<noteq> th_prev_hash th then hash else tp_best_prev_hash w)"
    using assms(1) by (auto simp: ThreadSv2ClientHandler_step_def Let_def set_best_prev_hash_def)
qed

lemma renewed_step:
  assumes "th_pc th = Renewed hash" "th_template th = Some b" "ThreadSv2ClientHandler_step M net opts inp cid th w = Ret (th', w')"
  shows "th' = th\<lparr>th_pc := Recached (hash \<noteq> th_prev_hash th)\<rparr>" "tp_template_id w' = tp_template_id w + 1"
    "tp_cache w' = cache_insert (tp_template_id w + 1) (hash, b) (tp_cache w)"
  using assms by (auto simp: ThreadSv2ClientHandler_step_def Let_def set_best_prev_hash_def)

lemma cache_ok_fresh:
  assumes "cache_ok M tid cache" "tid < k"
  shows "map_of cache k = None"
proof (rule ccontr)
  assume "map_of cache k \<noteq> None"
  then obtain v where "(k, v) \<in> set cache" using map_of_SomeD by fastforce
  then show False using assms by (force simp: cache_ok_def list_all_iff)
qed

text \<open>
  C35. The id of a renewed template is read again after the lock was released: when two threads renew
  their templates one right after the other, the first one announces its template under the id of
  the second one's, and a solution for that id goes to the second one's template.
\<close>

theorem resend_takes_latest_id:
  assumes "cache_ok M (tp_template_id w) (tp_cache w)" "unat (tp_template_id w) < 2 ^ 64 - 2"
    and "th_pc th1 = Renewed hash1" "th_template th1 = Some b1" "th_pc th2 = Renewed hash2" "th_template th2 = Some b2"
    and "ThreadSv2ClientHandler_step M net opts inp1 cid1 th1 w = Ret (th1', w1)"
    and "ThreadSv2ClientHandler_step M net opts inp2 cid2 th2 w1 = Ret (th2', w2)"
  shows "map_of (tp_cache w2) (tp_template_id w + 1) = Some (hash1, b1) \<and>
    map_of (tp_cache w2) (tp_template_id w + 2) = Some (hash2, b2) \<and> th_template th1' = Some b1 \<and>
    thread_step_body M net opts inp cid1 (th_pc th1') th1' w2 =
      thread_send M net opts (in_now inp) cid1 (tp_template_id w + 2) (hash1 \<noteq> th_prev_hash th1) Loop th1' w2"
proof -
  let ?k = "tp_template_id w"
  note s1 = renewed_step [OF assms(3,4,7)] and s2 = renewed_step [OF assms(5,6,8)]
  have lt: "?k < ?k + 1" "?k < ?k + 2" using assms(2) by (simp_all add: word_less_nat_alt unat_word_ariths)
  note f = cache_ok_fresh [OF assms(1) lt(1)] cache_ok_fresh [OF assms(1) lt(2)]
  have id2: "tp_template_id w2 = ?k + 2" using s1(2) s2(2) by simp
  have ne: "?k + 2 \<noteq> ?k + 1" by simp
  have c2: "tp_cache w2 = cache_insert (?k + 2) (hash2, b2) (cache_insert (?k + 1) (hash1, b1) (tp_cache w))"
    using s1(2,3) s2(3) by (simp add: add.commute)
  show ?thesis
    using f ne s1(1) assms(4) id2 unfolding c2 by (simp add: cache_insert_of)
qed

text \<open>
  C36. A first template that arrives late takes the tip back: when the tip moved while a thread was
  waiting for its first template, the thread stores the older hash as the best one, and unless
  something else moves it forward again the next pruning after the grace period removes every
  template for the newer tip.
\<close>

theorem late_template_resets_tip:
  assumes "th_pc th = Created k" "th_template th = Some b" "th_prev_hash th \<noteq> tp_best_prev_hash w"
    and "ThreadSv2ClientHandler_step M net opts inp cid th w = Ret (th', w1)" "in_now inp + 10 \<le> now"
  shows "tp_best_prev_hash w1 = th_prev_hash th \<and>
    list_all (\<lambda>(k, hash, b). hash \<noteq> tp_best_prev_hash w) (tp_cache (PruneBlockTemplateCache now w1))"
proof -
  have "tp_best_prev_hash w1 = th_prev_hash th" "tp_last_block_time w1 = in_now inp"
    using assms(1-4) by (auto simp: ThreadSv2ClientHandler_step_def Let_def set_best_prev_hash_def)
  then show ?thesis
    using assms(3,5) by (auto simp: PruneBlockTemplateCache_def STALE_TEMPLATE_GRACE_PERIOD_def list_all_iff)
qed


section \<open>A failed send\<close>

lemma failed_round:
  assumes "send_inv t" "t_send_buffer t \<noteq> []" "cid \<in> sm_connected w"
    and "\<And>data go_on. net (length (sm_log w)) data go_on = Inl OTHER_ERROR"
  shows "\<exists>go_on. send_round net cid it None n t w =
    Ret (False, it, go_on, n, t, snd (CloseConnection cid (w\<lparr>sm_log := sm_log w @ [(cid, [])]\<rparr>)))"
proof -
  have t: "take_message it t = Ret (it, t)"
    using assms(2) by (cases it) (auto simp: take_message_def SetMessageToSend_def)
  have "buffered t \<noteq> []" using send_inv_buffered [OF assms(1)] assms(2) by simp
  moreover from this have "SendBytes net cid (buffered t) m w = (- 1, w\<lparr>sm_log := sm_log w @ [(cid, [])]\<rparr>)" for m
    using assms(3,4) by (simp add: SendBytes_def GetConnectionSockets_def transient_error_def)
  ultimately show ?thesis
    unfolding send_round_def t using GetBytesToSend_inv [OF assms(1)] by (simp add: buffered_def)
qed

lemma failed_send:
  assumes "connman_inv T w" "GetClientById cid w = Some c" "t_send_buffer (cl_transport c) \<noteq> []" "cid \<in> sm_connected w"
    and "\<And>data go_on. net (length (sm_log w)) data go_on = Inl OTHER_ERROR"
  shows "EventReadyToSend net cid w =
    Ret (False, put_client cid c (snd (CloseConnection cid (w\<lparr>sm_log := sm_log w @ [(cid, [])]\<rparr>))))"
proof -
  note c = connman_inv_client [OF assms(1,2)]
  obtain go_on where "send_round net cid (cl_send_messages c) None 0 (cl_transport c) w =
      Ret (False, cl_send_messages c, go_on, 0, cl_transport c, snd (CloseConnection cid (w\<lparr>sm_log := sm_log w @ [(cid, [])]\<rparr>)))"
    using failed_round [where net = net, OF client_inv_send [OF c(2)] assms(3,4,5)] by blast
  then have "send_loop net cid (cl_send_messages c) None 0 (cl_transport c) w =
      Some (Ret (cl_send_messages c, go_on, 0, cl_transport c, snd (CloseConnection cid (w\<lparr>sm_log := sm_log w @ [(cid, [])]\<rparr>))))"
    by (subst send_loop.simps) simp
  then show ?thesis using assms(2) c(1) by (simp add: EventReadyToSend_def SendMessagesAsBytes_def returning_def)
qed

lemma closed_client:
  assumes "connman_inv T w" "GetClientById cid w = Some c" "\<not> cl_disconnect_flag c"
    and "w1 = put_client cid c (snd (CloseConnection cid (w\<lparr>sm_log := l\<rparr>)))"
  shows "connman_inv T w1 \<and> orphaned cid w1"
proof -
  note c = connman_inv_client [OF assms(1,2)]
  let ?v = "snd (CloseConnection cid (w\<lparr>sm_log := l\<rparr>))"
  have k: "keeps (=) w ?v" by (auto simp: keeps_def world_keeps_def CloseConnection_def)
  have "connman_inv T w1" using connman_inv_put [OF assms(1,2) client_step_refl [OF c(2)] k] assms(4) by simp
  moreover have "(cid, c) \<in> set (cm_clients w)" using assms(2) map_of_SomeD by (simp add: GetClientById_def)
  then have "cid < sm_next_id w" using connman_inv_listed [OF assms(1)] by fastforce
  moreover have "GetClientById cid w1 = Some c"
    using assms(2) unfolding assms(4) GetClientById_put by (simp add: CloseConnection_def GetClientById_def)
  ultimately show ?thesis
    using assms(3) by (simp add: orphaned_def assms(4) put_client_def CloseConnection_def)
qed

text \<open>
  C33. A client whose send fails is never removed: the socket is closed but the client is not flagged,
  and whatever the event loop sees and accepts from then on, the client stays in the table, counted as
  connected, without a socket.
\<close>

theorem failed_send_orphans:
  assumes "surroundings_ok S env net" "node_ok M" "connman_inv T w" "GetClientById cid w = Some c" "\<not> cl_disconnect_flag c"
    and "t_send_buffer (cl_transport c) \<noteq> []" "cid \<in> sm_connected w"
    and "\<And>data go_on. net (length (sm_log w)) data go_on = Inl OTHER_ERROR"
    and "unat (sm_next_id w) + sum_list (map (\<lambda>(es, accepts). length accepts) inputs) < 2 ^ 63"
  shows "\<exists>w1. EventReadyToSend net cid w = Ret (False, w1) \<and> orphaned cid w1 \<and>
    (\<forall>w'. ThreadSocketHandler (connman_events S env net debug (tp_events M net now)) inputs w1 = Ret w' \<longrightarrow> orphaned cid w')"
proof -
  obtain w1 where w1: "EventReadyToSend net cid w = Ret (False, w1)"
    "w1 = put_client cid c (snd (CloseConnection cid (w\<lparr>sm_log := sm_log w @ [(cid, [])]\<rparr>)))"
    using failed_send [where net = net, OF assms(3,4,6,7,8)] by blast
  have o: "connman_inv T w1" "orphaned cid w1" using closed_client [OF assms(3,4,5) w1(2)] by blast+
  have n: "sm_next_id w1 = sm_next_id w" by (simp add: w1(2) put_client_def CloseConnection_def)
  have i: "(node_ok M \<and> net_ok net) \<and> surroundings_ok S env net \<and> connman_inv T w1 \<and> orphaned cid w1"
    using assms(1,2) o by (simp add: surroundings_ok_def)
  have "orphaned cid w'" if "ThreadSocketHandler (connman_events S env net debug (tp_events M net now)) inputs w1 = Ret w'" for w'
    using tp.orphan.ThreadSocketHandler_inv [OF i _ that] assms(9) n by simp
  then show ?thesis using w1(1) o(2) by blast
qed

section \<open>Sample values\<close>

definition toy_blockheader :: "nat \<Rightarrow> cblockheader" where
  "toy_blockheader b = \<lparr>nVersion = 0x20000000, hashPrevBlock = replicate 32 (of_nat b), hashMerkleRoot = zeros 32,
     nTime = 1700000000, nBits = 0x207fffff, nNonce = 0\<rparr>"

definition toy_node :: "nat node" where
  "toy_node = \<lparr>getBlockHeader_fn = (\<lambda>b. Ret (toy_blockheader b)),
     getBlock_fn = (\<lambda>b. Ret \<lparr>blk_header = toy_blockheader b, vtx = [sample_tx, sample_tx]\<rparr>),
     getTxFees_fn = (\<lambda>b. Ret [100]), getCoinbaseTx_fn = (\<lambda>b. Ret sample_tx),
     getWitnessCommitmentIndex_fn = (\<lambda>b. Ret 0), getCoinbaseMerklePath_fn = (\<lambda>b. Ret [zeros 32]),
     submitSolution_fn = (\<lambda>b version timestamp nonce coinbase. Ret True)\<rparr>"

definition toy_options :: tp_options where
  "toy_options = \<lparr>opt_is_test = False, opt_fee_delta = 1000, opt_fee_check_interval = 30, opt_signet = False\<rparr>"

definition toy_tp :: "nat template_provider" where
  "toy_tp = Sv2TemplateProvider toy_secp 1700000000 None (toy_key 2) None (toy_key 3) 0"

definition toy_thread :: "nat thread_pc \<Rightarrow> nat \<Rightarrow> nat client_thread" where
  "toy_thread pc b = \<lparr>th_last_triggered = 0, th_template = Some b, th_prev_hash = toy_key 1, th_pc = pc\<rparr>"

abbreviation toy_input :: "nat step_input" where "toy_input \<equiv> \<lparr>in_now = 100, in_template = Ret None\<rparr>"

definition toy_served :: sv2_client where
  "toy_served = toy_client\<lparr>cl_setup_connection_confirmed := True, cl_coinbase_output_constraints_recv := True,
     cl_coinbase_tx_outputs_size := 100\<rparr>"

abbreviation toy_serving :: "nat template_provider" where
  "toy_serving \<equiv> toy_tp\<lparr>sm_next_id := 1, sm_connected := {0}, cm_clients := [(0, toy_served)]\<rparr>"

lemma length_toy_block: "length (Serialize_CBlock \<lparr>blk_header = toy_blockheader b, vtx = [sample_tx, sample_tx]\<rparr>) = 279"
  by (simp add: Serialize_CBlock_def length_VectorFormatter length_sample_tx length_WriteCompactSize GetSizeOfCompactSize_def
      Serialize_CBlockHeader_def toy_blockheader_def length_writedata)

lemma toy_node_ok: "node_ok toy_node"
  unfolding node_ok_def toy_node_def
  by (simp add: length_toy_block length_sample_tx) (simp add: toy_blockheader_def coinbase_ok_def sample_tx_def)

lemma toy_tp_fields [simp]:
  "tp_interrupt toy_tp = False" "tp_template_id toy_tp = 0" "tp_best_prev_hash toy_tp = zeros 32" "tp_last_block_time toy_tp = 0"
  "tp_cache toy_tp = []" "tp_submitted toy_tp = []" "sm_log toy_tp = []"
  by (simp_all add: toy_tp_def Sv2TemplateProvider_def Sv2Connman_def connman.defs template_provider.defs Let_def)

lemma toy_served_inv: "client_inv toy_served" "\<not> cl_disconnect_flag toy_served" "cl_id toy_served = 0"
  using toy_client_inv
  by (simp_all add: client_inv_def toy_served_def MAX_BLOCK_WEIGHT_def) (simp_all add: toy_client_def Sv2Client_def)

lemma toy_serving_inv: "connman_inv {0} toy_serving"
  using start_connman [OF toy_secp_ok, of 1700000000 None "toy_key 2" None "toy_key 3" 0, where 'a = nat]
    toy_served_inv
  by (simp add: connman_inv_def toy_tp_def [symmetric]) (simp add: toy_served_def MAX_BLOCK_WEIGHT_def)

theorem tp_invariant_witness: "tp_inv toy_node (toy_tp\<lparr>tp_last_block_time := 5\<rparr>) []"
proof -
  have "tp_reach toy_secp toy_node toy_net toy_options False 0 toy_tp []" unfolding toy_tp_def by (rule tp_reach.start)
  from tp_invariant [OF toy_secp_ok toy_net_ok toy_node_ok tp_reach.initialise [OF this, of 5]] show ?thesis by simp
qed


theorem renewed_compares_first_hash_witness:
  "\<exists>th' w'. ThreadSv2ClientHandler_step toy_node toy_net toy_options toy_input 0 (toy_thread (Renewed (toy_key 2)) 2) toy_tp = Ret (th', w') \<and>
     th_prev_hash th' = toy_key 1 \<and> th_pc th' = Recached True \<and> tp_best_prev_hash w' = toy_key 2"
proof -
  obtain th' w' where s: "ThreadSv2ClientHandler_step toy_node toy_net toy_options toy_input 0 (toy_thread (Renewed (toy_key 2)) 2) toy_tp = Ret (th', w')"
    by (simp add: ThreadSv2ClientHandler_step_def toy_thread_def Let_def)
  show ?thesis using renewed_compares_first_hash [OF s] s by (simp add: toy_thread_def)
qed

theorem resend_takes_latest_id_witness:
  "\<exists>th1 w1 th2 w2. ThreadSv2ClientHandler_step toy_node toy_net toy_options toy_input 0 (toy_thread (Renewed (toy_key 1)) 1) toy_tp = Ret (th1, w1) \<and>
     ThreadSv2ClientHandler_step toy_node toy_net toy_options toy_input 1 (toy_thread (Renewed (toy_key 2)) 2) w1 = Ret (th2, w2) \<and>
     map_of (tp_cache w2) 1 = Some (toy_key 1, 1) \<and> map_of (tp_cache w2) 2 = Some (toy_key 2, 2) \<and>
     thread_step_body toy_node toy_net toy_options toy_input 0 (th_pc th1) th1 w2 =
       thread_send toy_node toy_net toy_options 100 0 2 False Loop th1 w2"
proof -
  obtain th1 w1 where s1: "ThreadSv2ClientHandler_step toy_node toy_net toy_options toy_input 0 (toy_thread (Renewed (toy_key 1)) 1) toy_tp = Ret (th1, w1)"
    by (simp add: ThreadSv2ClientHandler_step_def toy_thread_def Let_def)
  obtain th2 w2 where s2: "ThreadSv2ClientHandler_step toy_node toy_net toy_options toy_input 1 (toy_thread (Renewed (toy_key 2)) 2) w1 = Ret (th2, w2)"
    by (simp add: ThreadSv2ClientHandler_step_def toy_thread_def Let_def)
  show ?thesis using resend_takes_latest_id [OF _ _ _ _ _ _ s1 s2, of "toy_key 1" 1 "toy_key 2" 2 toy_input] s1 s2
    by (simp add: cache_ok_def) (simp add: toy_thread_def)
qed

theorem late_template_resets_tip_witness:
  "\<exists>th' w1. ThreadSv2ClientHandler_step toy_node toy_net toy_options toy_input 0 (toy_thread (Created 3) 1)
       (toy_tp\<lparr>tp_best_prev_hash := toy_key 2, tp_cache := [(2, toy_key 2, 2)]\<rparr>) = Ret (th', w1) \<and>
     tp_best_prev_hash w1 = toy_key 1 \<and>
     list_all (\<lambda>(k, hash, b). hash \<noteq> toy_key 2) (tp_cache (PruneBlockTemplateCache 200 w1))"
proof -
  let ?w = "toy_tp\<lparr>tp_best_prev_hash := toy_key 2, tp_cache := [(2, toy_key 2, 2)]\<rparr>"
  obtain th' w1 where s: "ThreadSv2ClientHandler_step toy_node toy_net toy_options toy_input 0 (toy_thread (Created 3) 1) ?w = Ret (th', w1)"
    by (simp add: ThreadSv2ClientHandler_step_def toy_thread_def Let_def)
  show ?thesis using late_template_resets_tip [OF _ _ _ s, of 3 1 200] s by (simp add: toy_thread_def)
qed


theorem failed_send_orphans_witness:
  "\<exists>w1. EventReadyToSend (\<lambda>k data go_on. Inl OTHER_ERROR) 0
       (toy_serving\<lparr>cm_clients := [(0, toy_served\<lparr>cl_transport := (toy_idle False)\<lparr>t_send_buffer := [1]\<rparr>\<rparr>)]\<rparr>) = Ret (False, w1) \<and>
     orphaned 0 w1"
proof -
  let ?net = "\<lambda>k data go_on. Inl OTHER_ERROR" and ?c = "toy_served\<lparr>cl_transport := (toy_idle False)\<lparr>t_send_buffer := [1]\<rparr>\<rparr>"
  let ?w = "toy_serving\<lparr>cm_clients := [(0, ?c)]\<rparr>"
  let ?env = "\<lparr>env_now = \<lambda>_ _. 0, env_draw = \<lambda>_ _. toy_draw, env_header = \<lambda>_ _. toy_header, env_garbage = \<lambda>_ _. 0\<rparr>"
  have "surroundings_ok toy_secp ?env ?net" by (simp add: surroundings_ok_def toy_secp_ok net_ok_def draw_ok_def)
  have "client_inv ?c"
    using toy_served_inv
    by (simp add: client_inv_def transport_inv_def send_inv_def server_state_def recv_inv_def toy_idle_def transport_of_def
        SV2_HEADER_ENCRYPTED_SIZE_def TAGLEN_def)
  have "connman_inv {0} ?w"
    using toy_serving_inv \<open>client_inv ?c\<close> by (simp add: connman_inv_def)
  show ?thesis
    using failed_send_orphans [where net = ?net and inputs = "[]" and w = ?w and c = ?c, OF \<open>surroundings_ok toy_secp ?env ?net\<close> toy_node_ok \<open>connman_inv {0} ?w\<close>] toy_served_inv
    by (auto simp: GetClientById_def)
qed

end
