(* ===== verification/Sv2_TemplateRequests.thy ===== *)
theory Sv2_TemplateRequests
  imports Sv2_ConnmanTotal Sv2_TemplateThreads
begin

text \<open>
  What a client gets from the template provider: its bytes are processed to the end, its requests
  are answered, templates outlive their tip by the grace period, and the certificate that every
  handshake hands out. The locale \<^verbatim>\<open>sv2_msgproc_total\<close> is interpreted here.
\<close>

section \<open>Requests return\<close>

text \<open>The methods that a request calls return or throw.\<close>

definition node_total :: "'b node \<Rightarrow> bool" where
  "node_total M \<longleftrightarrow> (\<forall>b a. getBlock_fn M b \<noteq> Abort a) \<and>
     (\<forall>b version timestamp nonce tx a. submitSolution_fn M b version timestamp nonce tx \<noteq> Abort a)"

definition stale :: "int \<Rightarrow> cblock \<Rightarrow> ('b, 'z) template_provider_scheme \<Rightarrow> bool" where
  "stale now blk w \<longleftrightarrow> hashPrevBlock (blk_header blk) \<noteq> tp_best_prev_hash w \<and> tp_last_block_time w + 10 < now"

lemma RequestTransactionData_known:
  assumes "map_of (tp_cache w) tid = Some (h, b)" "getBlock_fn M b = Ret blk"
  shows "RequestTransactionData M net now c tid w =
    (if stale now blk w then Ret (None, queue_message (RequestTransactionDataError_msg tid ''stale-template-id'') c, w)
     else res_bind (transaction_data tid blk) (\<lambda>m.
       res_bind (TryOptimisticSend net (queue_message m c) w) (\<lambda>(c, w). Ret (None, c, w))))"
  using assms by (auto simp: RequestTransactionData_def stale_def STALE_TEMPLATE_GRACE_PERIOD_def)

lemma RequestTransactionData_sends:
  assumes "node_ok M" "net_ok net" "room (k + 300) c" "map_of (tp_cache w) tid = Some (h, b)" "getBlock_fn M b = Ret blk"
    and "\<not> stale now blk w" "transaction_data tid blk = Ret m"
  shows "\<exists>n c' w'. RequestTransactionData M net now c tid w = Ret (None, c', w') \<and> room k c' \<and>
    same_receiver (cl_transport c) (cl_transport c') \<and> stream_step n (send_stream (queue_message m c) w) (send_stream c' w')"
proof -
  have "length (m_msg m) \<le> MAX_CONTENTS_LEN"
    using transaction_data_small [of blk tid] node_okD(2) [OF assms(1,5)] assms(7) by auto
  from TryOptimisticSend_room [OF assms(2) room_queue [OF assms(3) this], of w] show ?thesis
    unfolding RequestTransactionData_known [OF assms(4,5)] using assms(6,7) by auto
qed

lemma room_error:
  "room (k + 300) c \<Longrightarrow> length code < 255 \<Longrightarrow> room k (queue_message (RequestTransactionDataError_msg tid code) c)"
  using room_queue RequestTransactionDataError_small by blast

lemma RequestTransactionData_total:
  assumes "node_ok M" "node_total M" "net_ok net" "room (k + 300) c"
  shows "\<exists>e c' w'. RequestTransactionData M net now c tid w = Ret (e, c', w') \<and> room k c' \<and>
    t_recv_state (cl_transport c') = t_recv_state (cl_transport c)"
proof (cases "map_of (tp_cache w) tid")
  case None
  then show ?thesis using room_error [OF assms(4)] by (simp add: RequestTransactionData_def)
next
  case (Some x)
  obtain h b where x: "map_of (tp_cache w) tid = Some (h, b)" using Some by (cases x) simp
  show ?thesis
  proof (cases "getBlock_fn M b")
    case (Ret blk)
    obtain m where m: "transaction_data tid blk = Ret m" using transaction_data_small node_okD(2) [OF assms(1) Ret] by blast
    show ?thesis
    proof (cases "stale now blk w")
      case True
      then show ?thesis using room_error [OF assms(4)] by (simp add: RequestTransactionData_known [OF x Ret])
    next
      case False
      then show ?thesis using RequestTransactionData_sends [OF assms(1,3,4) x Ret False m] by (auto simp: same_receiver_def)
    qed
  next
    case (Throw e)
    then show ?thesis using x room_less [OF assms(4)] by (simp add: RequestTransactionData_def)
  qed (use assms(2) in \<open>simp add: node_total_def\<close>)
qed

lemma SubmitSolution_total: "node_total M \<Longrightarrow> \<exists>e w'. SubmitSolution M sol w = Ret (e, w')"
  by (auto simp: SubmitSolution_def node_total_def Let_def split: option.splits res.splits)

interpretation tp_total: sv2_msgproc_total "tp_events M net now" "node_ok M \<and> node_total M \<and> net_ok net" same_core for M net now
proof (unfold_locales, goal_cases)
  case (3 c tid w e c' w')
  then show ?case using tp.request [of M net c now tid w e c' w'] by blast
next
  case (4 sol w e w')
  then show ?case using tp.submit [of M net now sol w e w'] by blast
next
  case (5 k c tid w)
  then show ?case using RequestTransactionData_total [of M net k c "now w" tid w] by (simp add: tp_events_def)
next
  case (6 sol w)
  then show ?case using SubmitSolution_total [of M sol w] by (simp add: tp_events_def)
qed (use tp.K_refl tp.K_trans in blast)+

section \<open>Properties\<close>



lemma Prune_lookup:
  assumes "distinct (map fst (tp_cache w))" "map_of (tp_cache w) tid = Some (h, b)"
  shows "map_of (tp_cache (PruneBlockTemplateCache now w)) tid =
    (if now < tp_last_block_time w + 10 \<or> h = tp_best_prev_hash w then Some (h, b) else None)"
proof -
  have "map_of (filter (\<lambda>(k, prev, b). \<not> prev \<noteq> x) cache) tid = (if h = x then Some (h, b) else None)"
    if "distinct (map fst cache)" "map_of cache tid = Some (h, b)" for x and cache :: "(u64 \<times> bytes \<times> 'a) list"
    using that by (induction cache) (auto simp: map_of_eq_None_iff image_iff split: if_splits)
  from this [OF assms, of "tp_best_prev_hash w"] show ?thesis
    using assms(2) by (simp add: PruneBlockTemplateCache_def STALE_TEMPLATE_GRACE_PERIOD_def Let_def)
qed

text \<open>
  C17. Templates outlive their tip by the grace period: when a thread sees the tip move, a template that
  is cached then is still there after a pruning in the next ten seconds, and a later pruning removes
  it unless it builds on the new tip.
\<close>

theorem tip_change_grace:
  assumes "tp_inv M w ths" "th_pc th = Renewed hash" "th_template th = Some b1" "hash \<noteq> th_prev_hash th"
    and "ThreadSv2ClientHandler_step M net opts inp cid th w = Ret (th', w1)" "map_of (tp_cache w) tid = Some (h, b)"
  shows "map_of (tp_cache (PruneBlockTemplateCache now w1)) tid =
    (if now < in_now inp + 10 \<or> h = hash then Some (h, b) else None)"
proof -
  have w1: "tp_cache w1 = cache_insert (tp_template_id w + 1) (hash, b1) (tp_cache w)"
    "tp_last_block_time w1 = in_now inp" "tp_best_prev_hash w1 = hash"
    using assms(2-5) by (auto simp: ThreadSv2ClientHandler_step_def Let_def set_best_prev_hash_def)
  have "distinct (map fst (tp_cache w))" using assms(1) by (simp add: tp_inv_def ids_inv_def cache_ok_def)
  then have "distinct (map fst (tp_cache w1))" by (auto simp: w1(1) cache_insert_def map_of_eq_None_iff)
  moreover have "map_of (tp_cache w1) tid = Some (h, b)" using assms(6) by (simp add: w1(1) cache_insert_def map_add_def)
  ultimately show ?thesis using Prune_lookup [of w1 tid h b now] by (simp add: w1(2,3))
qed

text \<open>
  C32. The certificate a template provider issues when it starts is accepted from one hour before its
  start, or the epoch if that is later, until the end of 32-bit time.
\<close>

theorem certificate_window:
  assumes "secp_ok S" "0 \<le> now" "now < 2 ^ 32"
  shows "Certificate_Validate S t (keypair_xonly_pub S authority_key) (tp_certificate S now static_key authority_key) \<longleftrightarrow>
    max 0 (now - 3600) \<le> t \<and> t < 2 ^ 32"
proof -
  have m: "uint (- 1 :: u32) = 2 ^ 32 - 1" by (simp add: uint_word_ariths)
  then have "uint (certificate_valid_from now) = max 0 (now - 3600)"
    using assms(2,3) by (simp add: certificate_valid_from_def Let_def uint_word_of_int max_def min_def)
  with m show ?thesis unfolding tp_certificate_def issued_Validate [OF assms(1)] by auto
qed

text \<open>
  C37. A flagged client is removed as soon as its queue is empty, also when its last message is still in
  the transport's send buffer: the socket is closed and the bytes that are left are never sent.
\<close>

theorem disconnect_drops_buffer:
  assumes "connman_inv T w" "GetClientById cid w = Some c" "cl_disconnect_flag c" "cl_send_messages c = []"
    and "t_send_buffer (cl_transport c) \<noteq> []"
  shows "\<exists>w'. EventIOLoopCompletedForAll w = Ret w' \<and> GetClientById cid w' = None \<and> cid \<notin> sm_connected w' \<and>
    send_stream c w' = send_stream c w \<and> snd (send_stream c w) \<noteq> []"
proof -
  note c = connman_inv_client [OF assms(1,2)]
  let ?w = "DisconnectFlagged w"
  have r: "(cid, c) \<in> set (cm_clients w)" "removable (cid, c)"
    using assms(2-4) map_of_SomeD by (simp_all add: GetClientById_def removable_def)
  have d: "distinct (map fst (cm_clients w))" using assms(1) by (simp add: connman_inv_def)
  have "cid \<notin> fst ` set (filter (\<lambda>x. \<not> removable x) (cm_clients w))"
    using r d eq_key_imp_eq_value by fastforce
  then have "GetClientById cid ?w = None"
    by (simp add: GetClientById_def DisconnectFlagged_def disconnect_clients_eq map_of_eq_None_iff)
  moreover have "cid \<notin> sm_connected ?w"
    using r c(1) by (force simp: DisconnectFlagged_def disconnect_clients_eq)
  moreover have "send_stream c ?w = send_stream c w"
    by (simp add: send_stream_def wire_def DisconnectFlagged_def disconnect_clients_eq)
  moreover have "snd (send_stream c w) \<noteq> []"
    using send_inv_buffered [OF client_inv_send [OF c(2)]] assms(4,5) by (simp add: send_stream_def outgoing_def)
  ultimately show ?thesis by (simp add: EventIOLoopCompletedForAll_def)
qed

section \<open>Sample values\<close>

lemma toy_node_total: "node_total toy_node"
  by (simp add: node_total_def toy_node_def)

lemma toy_served_room: "room 1000000 toy_served"
  using toy_served_inv
  by (simp add: room_def client_inv_def) (simp add: toy_served_def toy_client_def Sv2Client_def nonce_use_def total_nonces_def
      packet_nonces_def num_chunks_eq toy_idle_simps toy_message_simps Sv2CipherState_def)



theorem tip_change_grace_witness:
  "\<exists>th' w1. ThreadSv2ClientHandler_step toy_node toy_net toy_options toy_input 0 (toy_thread (Renewed (toy_key 2)) 2)
       (toy_tp\<lparr>tp_template_id := 5, tp_cache := [(5, toy_key 1, 1)]\<rparr>) = Ret (th', w1) \<and>
     map_of (tp_cache (PruneBlockTemplateCache 109 w1)) 5 = Some (toy_key 1, 1) \<and>
     map_of (tp_cache (PruneBlockTemplateCache 110 w1)) 5 = None"
proof -
  let ?w = "toy_tp\<lparr>tp_template_id := 5, tp_cache := [(5, toy_key 1, 1)]\<rparr>" and ?th = "toy_thread (Renewed (toy_key 2)) 2"
  obtain th' w1 where s: "ThreadSv2ClientHandler_step toy_node toy_net toy_options toy_input 0 ?th ?w = Ret (th', w1)"
    by (simp add: ThreadSv2ClientHandler_step_def toy_thread_def Let_def)
  have "prev_of toy_node 1 (toy_key 1)" by (simp add: prev_of_def toy_node_def toy_blockheader_def)
  then have "tp_inv toy_node ?w []"
    using start_connman [OF toy_secp_ok, of 1700000000 None "toy_key 2" None "toy_key 3" 0, where 'a = nat]
    by (simp add: tp_inv_def ids_inv_def cache_ok_def owns_def toy_tp_def [symmetric])
  note g = tip_change_grace [OF this _ _ _ s, of "toy_key 2" 2 5 "toy_key 1" 1]
  have "map_of (tp_cache (PruneBlockTemplateCache now w1)) 5 = (if now < 110 then Some (toy_key 1, 1) else None)" for now
    using g [of now] by (simp add: toy_thread_def)
  then show ?thesis using s by simp
qed

theorem certificate_window_witness:
  "Certificate_Validate toy_secp 1699996400 (keypair_xonly_pub toy_secp (toy_key 3))
     (tp_certificate toy_secp 1700000000 (toy_key 2) (toy_key 3)) \<and>
   \<not> Certificate_Validate toy_secp 1699996399 (keypair_xonly_pub toy_secp (toy_key 3))
     (tp_certificate toy_secp 1700000000 (toy_key 2) (toy_key 3))"
  using certificate_window [OF toy_secp_ok, of 1700000000] by simp

theorem disconnect_drops_buffer_witness:
  "\<exists>w'. EventIOLoopCompletedForAll
       (toy_serving\<lparr>cm_clients := [(0, toy_served\<lparr>cl_disconnect_flag := True, cl_send_messages := [],
          cl_transport := (toy_idle False)\<lparr>t_send_buffer := [1]\<rparr>\<rparr>)]\<rparr>) = Ret w' \<and>
     GetClientById 0 w' = None \<and> 0 \<notin> sm_connected w'"
proof -
  let ?c = "toy_served\<lparr>cl_disconnect_flag := True, cl_send_messages := [], cl_transport := (toy_idle False)\<lparr>t_send_buffer := [1]\<rparr>\<rparr>"
  have "client_inv ?c"
    using toy_served_inv
    by (simp add: client_inv_def transport_inv_def send_inv_def server_state_def recv_inv_def toy_idle_def transport_of_def
        SV2_HEADER_ENCRYPTED_SIZE_def TAGLEN_def small_messages_def)
  then have "connman_inv {0} (toy_serving\<lparr>cm_clients := [(0, ?c)]\<rparr>)" using toy_serving_inv by (simp add: connman_inv_def)
  from disconnect_drops_buffer [OF this, of 0 ?c] show ?thesis by (auto simp: GetClientById_def)
qed

end
