(* ===== verification/Spec2Isabelle.thy ===== *)
theory Spec2Isabelle
  imports Crypto_Poly1305_Value Sv2_TemplateRequests
begin

text \<open>
  Verification of the Stratum v2 template provider, \<^verbatim>\<open>sv2-tp\<close>.

  \<^bold>\<open>The program.\<close> The template provider connects to a Bitcoin node over inter-process communication and
  serves block templates to mining clients over the Stratum v2 template distribution protocol.
  A socket thread (\<^verbatim>\<open>src/src/common/sockman.cpp\<close>) accepts connections, reads and writes sockets and
  calls the connection manager (\<^verbatim>\<open>src/src/sv2/connman.cpp\<close>), which owns one client object per
  connection. Every client has a transport (\<^verbatim>\<open>src/src/sv2/transport.cpp\<close>) that runs the Noise
  handshake and the message cipher (\<^verbatim>\<open>src/src/sv2/noise.cpp\<close>) on top of the ciphers and hashes of
  \<^verbatim>\<open>src/src/crypto\<close>. The messages (\<^verbatim>\<open>src/src/sv2/messages.h\<close>) are written and read with the
  serialization framework (\<^verbatim>\<open>src/src/serialize.h\<close>, \<^verbatim>\<open>src/src/streams.h\<close>). The template provider proper
  (\<^verbatim>\<open>src/src/sv2/template_provider.cpp\<close>) has a main thread that starts a thread for every client that
  has finished its set-up and prunes the template cache; the clients' threads fetch templates from
  the node, cache them under an id and send them.

  \<^bold>\<open>The theories\<close>, from the bottom up:

  \<^item> \<^verbatim>\<open>Sv2_Prelude\<close>: bytes and machine words, the result type \<^verbatim>\<open>'a res\<close> (returned, thrown, or aborted on
    a failed assertion), byte order conversions, the rules for \<^verbatim>\<open>ensures\<close>.
  \<^item> \<^verbatim>\<open>Crypto_SHA256\<close>, \<^verbatim>\<open>Crypto_ChaCha20\<close>, \<^verbatim>\<open>Crypto_Poly1305\<close>, \<^verbatim>\<open>Crypto_AEAD\<close>: one theory per file of
    \<^verbatim>\<open>src/src/crypto\<close>. The incremental hasher computes the hash of the concatenation however it is
    cut; the buffered stream cipher is the exclusive or with one abstract keystream; the
    authenticated cipher satisfies the contract \<^verbatim>\<open>aead\<close>, which the Noise layer is proved against.
  \<^item> \<^verbatim>\<open>Crypto_Poly1305_Value\<close>: the limb arithmetic and the block buffer of Poly1305 compute the
    polynomial modulo \<^verbatim>\<open>2 ^ 130 - 5\<close>.
  \<^item> \<^verbatim>\<open>Arith_Uint256\<close>: \<^verbatim>\<open>src/src/arith_uint256.cpp\<close>; digit arithmetic is arithmetic modulo \<^verbatim>\<open>2 ^ 256\<close>,
    and the compact form decodes to its mathematical value.
  \<^item> \<^verbatim>\<open>Sv2_Streams\<close>: streams and the serialization primitives, with the contract \<^verbatim>\<open>codec\<close> of a
    serializable type: what was written is read back, and only what would be written is read.
  \<^item> \<^verbatim>\<open>Sv2_Primitives\<close>: transactions and blocks, as codecs.
  \<^item> \<^verbatim>\<open>Sv2_Messages\<close>: the protocol's messages; what is written is read back by readers for the data
    types of the protocol specification, and what clients write is parsed.
  \<^item> \<^verbatim>\<open>Sv2_CipherState\<close>, \<^verbatim>\<open>Sv2_Noise\<close>: the chunked message cipher with its nonce, the certificate and
    the handshake in both roles; round trip, authenticity, no nonce reuse, agreement of both ends.
  \<^item> \<^verbatim>\<open>Sv2_Transport\<close>: the two state machines of a connection; an invariant under which nothing aborts,
    independence of how the input is cut, delivery of messages complete and in order.
  \<^item> \<^verbatim>\<open>Sv2_SockMan\<close>: the socket manager; the contract \<^verbatim>\<open>sock_client\<close> of its callbacks and the invariant
    of the event loop under it.
  \<^item> \<^verbatim>\<open>Sv2_Connman\<close>: the connection manager, proved against the contract \<^verbatim>\<open>sv2_msgproc\<close> of the template
    provider and interpreting \<^verbatim>\<open>sock_client\<close> twice: for its invariant and for a client that lost its
    socket. Sending refines a byte stream.
  \<^item> \<^verbatim>\<open>Sv2_ConnmanTotal\<close>: the receive loop returns and fails no assertion, against the contract
    \<^verbatim>\<open>sv2_msgproc_total\<close>.
  \<^item> \<^verbatim>\<open>Sv2_TemplateProvider\<close>: the template provider: keys and certificate, cache, requests, sending work,
    the thread of a client as a state machine, the main thread, and their interleaving \<^verbatim>\<open>tp_reach\<close>.
    It interprets \<^verbatim>\<open>sv2_msgproc\<close>.
  \<^item> \<^verbatim>\<open>Sv2_TemplateThreads\<close>: the invariant of every reachable interleaving and what follows for template
    ids, solutions, tip changes and failed sends.
  \<^item> \<^verbatim>\<open>Sv2_TemplateRequests\<close>: what a client gets: its bytes are processed to the end, its requests are
    answered, templates live through the grace period, the certificate's validity. It interprets
    \<^verbatim>\<open>sv2_msgproc_total\<close>.

  \<^bold>\<open>How code and model correspond.\<close> A class is a record with the class's members as fields, a method a
  function from the record to the result and the updated record; the names are the source's. The
  records of the socket manager, the connection manager and the template provider extend one another
  the way the objects contain one another, so that a function of a lower layer works on the state of
  the whole. An assertion that fails, a read out of range and an exception that leaves a
  \<^verbatim>\<open>noexcept\<close> function are \<^verbatim>\<open>Abort\<close>; exceptions are \<^verbatim>\<open>Throw\<close>. Where an exception leaves changes behind, it
  is returned next to the state. Random bytes, the clock, uninitialised members, the
  results of system calls and the answers of the node are arguments. Machine integers keep their
  width; sizes that are bounded by memory are natural numbers, with the overflow checks of the code
  written out.

  \<^bold>\<open>Loops.\<close> A loop is structural recursion or recursion with a measure wherever the code's own
  progress gives one. The send loop and the receive loop of the connection manager end only because of
  what their bodies do, so they are partial functions with a result for not returning: that they
  return is proved, for sending in the byte stream refinement, for receiving in
  \<^verbatim>\<open>Sv2_TemplateRequests\<close>. There is no fuel.

  \<^bold>\<open>Bounds.\<close> Statements about nonces hold until a cipher's \<^verbatim>\<open>2 ^ 64 - 1\<close> nonces are used up; a message
  of the largest size takes 258 of them, for which the receive loop sets 300 aside. The reachability
  statements count steps and connections up to \<^verbatim>\<open>2 ^ 63\<close>, below which neither connection ids nor
  template ids wrap.

  \<^bold>\<open>Concurrency.\<close> A callback of the socket thread is one step; a client's thread is split where the code
  takes or releases a lock or waits for the node. Data races on single members and the order in which
  locks are acquired are not modelled.

  \<^bold>\<open>What is relied on.\<close> The record \<^verbatim>\<open>secp256k1\<close> stands for the curve library, with its documented laws in
  \<^verbatim>\<open>secp_ok\<close>: key and signature sizes, that a key exchange gives both ends the same secret, that a
  signature made is accepted. \<^verbatim>\<open>node_ok\<close> says that the node's templates are within consensus limits,
  \<^verbatim>\<open>node_total\<close> that its methods return or throw, \<^verbatim>\<open>net_ok\<close> that a \<^verbatim>\<open>send\<close> call takes no more bytes than
  it is given. No cryptographic hardness is assumed or concluded: authenticity means that what is
  accepted is what the key's holder would have sealed. The sample values at the ends of the theories
  show that these hypotheses can hold.

  \<^bold>\<open>What the proofs found.\<close> A renewed template is compared with the thread's first one, so that after a
  change of the tip every fee update is announced as a new tip; the id of a renewed template is read
  again after the lock was released; a late first template takes the tip back; a client whose send
  fails is never removed; a flagged client can lose the rest of a message that is being sent; an
  unknown message type disconnects the client only when debug logging is on; requests are served
  before the set-up; strings of 253 to 255 bytes are not read as the protocol writes them.

  \<^bold>\<open>Not modelled.\<close> The curve library and its key wrappers (third-party code, a parameter). The
  inter-process connection to the node (generated code and an RPC library; the interface is the
  record \<^verbatim>\<open>'b node\<close>). Command line, configuration, logging, key files, binding and polling of sockets and
  writing submitted blocks to disk (system calls without protocol logic; their results are inputs).
  Hardware-specific variants of SHA-256 (the portable code is modelled). The compact encoder, the
  text forms of numbers, keys and addresses, and file streams (not used by the protocol). Clearing of
  memory and the constant-time property of comparisons.
\<close>

end
